(* ===== verification/Prelude.thy ===== *)
theory Prelude
  imports Main "HOL-Library.Word" "HOL-Library.Monad_Syntax"
begin

text \<open>
  Shared vocabulary of the development: the machine integer types of the code, UINT32
  arithmetic with its wrap-around written out on \<open>nat\<close>, bounds-checked buffer reads (an
  out-of-range read is the value \<open>None\<close>), the collections of rewrite rules the component
  theories add to, and generic facts on lists and on the option monad.
\<close>

unbundle bit_operations_syntax

section \<open>Rule collections\<close>

named_theorems lane_rules \<open>rewrite rules on the lanes of a packed 64-bit block\<close>
named_theorems buf_rules \<open>facts on bounds-checked buffer reads\<close>
named_theorems u32_rules \<open>UINT32 arithmetic that does not wrap\<close>

section \<open>Machine integers\<close>

type_synonym u8 = "8 word"
type_synonym u16 = "16 word"
type_synonym u32 = "32 word"
type_synonym u64 = "64 word"

text \<open>
  Lengths, counters and indices of type UINT32 and SIZE_T are natural numbers below the
  modulus. The code's subtractions and additions that could wrap are written with the
  functions below, which wrap as the unsigned C operations do.
\<close>

definition sub32 :: "nat \<Rightarrow> nat \<Rightarrow> nat" where
  "sub32 a b = nat ((int a - int b) mod 2 ^ 32)"

definition add32 :: "nat \<Rightarrow> nat \<Rightarrow> nat" where
  "add32 a b = (a + b) mod 2 ^ 32"

definition trunc32 :: "nat \<Rightarrow> nat" where
  "trunc32 a = a mod 2 ^ 32"

lemma sub32_eq [u32_rules]: "b \<le> a \<Longrightarrow> a < 2 ^ 32 \<Longrightarrow> sub32 a b = a - b"
  by (simp add: sub32_def nat_diff_distrib')

lemma add32_eq [u32_rules]: "a + b < 2 ^ 32 \<Longrightarrow> add32 a b = a + b"
  by (simp add: add32_def)

lemma trunc32_eq [u32_rules]: "a < 2 ^ 32 \<Longrightarrow> trunc32 a = a"
  by (simp add: trunc32_def)

lemma sub32_less: "sub32 a b < 2 ^ 32"
  by (simp add: sub32_def)

text \<open>The subtraction is the one of 32-bit words.\<close>

lemma sub32_word: "unat (word_of_nat a - word_of_nat b :: u32) = sub32 a b"
proof -
  have "(word_of_nat a - word_of_nat b :: u32) = word_of_int (int a - int b)"
    by simp
  then show ?thesis
    by (simp only: sub32_def unsigned_of_int take_bit_eq_mod) simp
qed

section \<open>Bounds-checked buffer reads\<close>

text \<open>
  A buffer passed with its length is a list; a read outside it is \<open>None\<close>. The models of
  the scanning routines run in the option monad, so a result \<open>Some r\<close> says that every
  read was in bounds (and, for a loop defined by \<^theory_text>\<open>partial_function\<close>, that it stopped).
\<close>

definition rd :: "'a list \<Rightarrow> nat \<Rightarrow> 'a option" where
  "rd xs i = (if i < length xs then Some (xs ! i) else None)"

lemma rd_Some [simp, buf_rules]: "i < length xs \<Longrightarrow> rd xs i = Some (xs ! i)"
  by (simp add: rd_def)

lemma rd_None [simp, buf_rules]: "length xs \<le> i \<Longrightarrow> rd xs i = None"
  by (simp add: rd_def)

lemma rd_eq_Some_iff: "rd xs i = Some x \<longleftrightarrow> i < length xs \<and> xs ! i = x"
  by (simp add: rd_def)

text \<open>A write through a pointer into a buffer is checked in the same way.\<close>

definition wr :: "'a list \<Rightarrow> nat \<Rightarrow> 'a \<Rightarrow> 'a list option" where
  "wr xs i x = (if i < length xs then Some (xs[i := x]) else None)"

lemma wr_Some [simp, buf_rules]: "i < length xs \<Longrightarrow> wr xs i x = Some (xs[i := x])"
  by (simp add: wr_def)

section \<open>Lists\<close>

lemma drop_Cons_nth: "i < length xs \<Longrightarrow> drop i xs = xs ! i # drop (Suc i) xs"
  by (simp add: Cons_nth_drop_Suc)

lemma take_drop_snoc:
  "i \<le> j \<Longrightarrow> j < length xs \<Longrightarrow>
     take (Suc j - i) (drop i xs) = take (j - i) (drop i xs) @ [xs ! j]"
  by (simp add: Suc_diff_le take_Suc_conv_app_nth)

lemma list_all_drop_Suc:
  "i < length xs \<Longrightarrow> list_all P (drop i xs) \<longleftrightarrow> P (xs ! i) \<and> list_all P (drop (Suc i) xs)"
  by (simp add: drop_Cons_nth)

lemma take_add_drop: "take (m + n) xs = take m xs @ take n (drop m xs)"
  by (rule take_add)

end
