(* ===== verification/Platform.thy ===== *)
theory Platform
  imports Prelude
begin

text \<open>
  What the code takes from the compiler and from the WDK: status codes, the 64-bit
  intrinsics, checked size arithmetic and the pool allocator. The intrinsics are the
  documented machine operations. The allocator and the checked arithmetic are code outside
  the repository (the user-mode stubs only forward to the C runtime), so they are parameters:
  a \<open>sys\<close> value carries an arbitrary answer to every allocation request and arbitrary
  arithmetic routines, next to the book-keeping of which blocks are live.
\<close>

section \<open>Status codes\<close>

datatype ntstatus =
    STATUS_SUCCESS
  | STATUS_OBJECT_NAME_EXISTS
  | STATUS_INSUFFICIENT_RESOURCES
  | STATUS_QUOTA_EXCEEDED
  | STATUS_INVALID_PARAMETER
  | STATUS_INTEGER_OVERFLOW

fun status_code :: "ntstatus \<Rightarrow> u32" where
  "status_code STATUS_SUCCESS = 0x00000000"
| "status_code STATUS_OBJECT_NAME_EXISTS = 0x40000000"
| "status_code STATUS_INSUFFICIENT_RESOURCES = 0xC000009A"
| "status_code STATUS_QUOTA_EXCEEDED = 0xC0000044"
| "status_code STATUS_INVALID_PARAMETER = 0xC000000D"
| "status_code STATUS_INTEGER_OVERFLOW = 0xC0000095"

definition NT_SUCCESS :: "ntstatus \<Rightarrow> bool" where
  "NT_SUCCESS s \<longleftrightarrow> 0 \<le> sint (status_code s)"

lemma NT_SUCCESS_simps [simp]:
  "NT_SUCCESS STATUS_SUCCESS" "NT_SUCCESS STATUS_OBJECT_NAME_EXISTS"
  "\<not> NT_SUCCESS STATUS_INSUFFICIENT_RESOURCES" "\<not> NT_SUCCESS STATUS_QUOTA_EXCEEDED"
  "\<not> NT_SUCCESS STATUS_INVALID_PARAMETER" "\<not> NT_SUCCESS STATUS_INTEGER_OVERFLOW"
  by (simp_all add: NT_SUCCESS_def)

lemma NT_SUCCESS_iff: "NT_SUCCESS s \<longleftrightarrow> s = STATUS_SUCCESS \<or> s = STATUS_OBJECT_NAME_EXISTS"
  by (cases s) simp_all

text \<open>
  Status codes are compared as signed integers; what \<open>NT_SUCCESS\<close> accepts is then exactly what is not
  below \<open>STATUS_SUCCESS\<close>.
\<close>

instantiation ntstatus :: linorder
begin

definition less_eq_ntstatus :: "ntstatus \<Rightarrow> ntstatus \<Rightarrow> bool" where
  "less_eq_ntstatus s t \<longleftrightarrow> sint (status_code s) \<le> sint (status_code t)"

definition less_ntstatus :: "ntstatus \<Rightarrow> ntstatus \<Rightarrow> bool" where
  "less_ntstatus s t \<longleftrightarrow> sint (status_code s) < sint (status_code t)"

instance
proof
  fix s t :: ntstatus
  assume "s \<le> t" "t \<le> s"
  then have "sint (status_code s) = sint (status_code t)"
    by (simp add: less_eq_ntstatus_def)
  then show "s = t"
    by (cases s; cases t) simp_all
qed (auto simp: less_eq_ntstatus_def less_ntstatus_def)

end

lemma NT_SUCCESS_le: "NT_SUCCESS s \<longleftrightarrow> STATUS_SUCCESS \<le> s"
  by (simp add: NT_SUCCESS_def less_eq_ntstatus_def)

section \<open>Intrinsics\<close>

text \<open>
  \<open>_BitScanForward64\<close> and \<open>_BitScanReverse64\<close> leave their output unset for a zero mask,
  here \<open>None\<close>.
\<close>

definition BitScanForward64 :: "u64 \<Rightarrow> nat option" where
  "BitScanForward64 w = List.find (bit w) [0..<64]"

definition BitScanReverse64 :: "u64 \<Rightarrow> nat option" where
  "BitScanReverse64 w = List.find (bit w) (rev [0..<64])"

definition bit_test64 :: "u64 \<Rightarrow> nat \<Rightarrow> bool" where
  "bit_test64 w i = bit w i"

definition bit_test_and_set64 :: "u64 \<Rightarrow> nat \<Rightarrow> bool \<times> u64" where
  "bit_test_and_set64 w i = (bit w i, set_bit i w)"

definition umul128 :: "u64 \<Rightarrow> u64 \<Rightarrow> u64 \<times> u64" where
  "umul128 a b = (word_of_nat (unat a * unat b), word_of_nat (unat a * unat b div 2 ^ 64))"

definition emulu :: "u32 \<Rightarrow> u32 \<Rightarrow> u64" where
  "emulu a b = ucast a * ucast b"

definition rotl64 :: "u64 \<Rightarrow> nat \<Rightarrow> u64" where
  "rotl64 w i = word_rotl i w"

lemma find_upt_Some:
  assumes "i < n" "P i" "\<forall>j<i. \<not> P j"
  shows "List.find P [0..<n] = Some i"
  using assms by (auto simp: find_Some_iff intro!: exI [of _ i])

lemma BitScanForward64_lowest:
  "i < 64 \<Longrightarrow> bit w i \<Longrightarrow> \<forall>j<i. \<not> bit w j \<Longrightarrow> BitScanForward64 w = Some i"
  by (simp add: BitScanForward64_def find_upt_Some)

lemma BitScanForward64_zero [simp]: "BitScanForward64 0 = None"
  by (simp add: BitScanForward64_def find_None_iff)

lemma BitScanForward64_SomeD:
  assumes "BitScanForward64 w = Some i"
  shows "i < 64 \<and> bit w i \<and> (\<forall>j<i. \<not> bit w j)"
  using assms by (auto simp: BitScanForward64_def find_Some_iff)

lemma BitScanForward64_nonzero:
  assumes "w \<noteq> 0"
  obtains i where "BitScanForward64 w = Some i"
proof (cases "BitScanForward64 w")
  case None
  then have "\<forall>i<64. \<not> bit w i"
    by (auto simp: BitScanForward64_def find_None_iff)
  then have "w = 0"
    by (auto intro: bit_word_eqI)
  with assms show ?thesis by blast
qed (rule that)

section \<open>The system: allocator and checked arithmetic\<close>

text \<open>
  \<open>grants n bytes\<close> is the allocator's answer to the \<open>n\<close>-th request, for \<open>bytes\<close> bytes. A
  block is named by the number of the request that returned it, so blocks that are live at
  the same time have different names, as the allocator guarantees; \<open>live\<close> maps a live block
  to its size. Freeing a block that is not live is a bug check. \<open>SizeTMult\<close> and \<open>SizeTAdd\<close>
  return \<open>None\<close> for STATUS_INTEGER_OVERFLOW.
\<close>

record sys =
  grants :: "nat \<Rightarrow> nat \<Rightarrow> bool"
  SizeTMult :: "nat \<Rightarrow> nat \<Rightarrow> nat option"
  SizeTAdd :: "nat \<Rightarrow> nat \<Rightarrow> nat option"
  requests :: nat
  live :: "nat \<rightharpoonup> nat"
  bug_check :: bool

definition ExAllocatePool2 :: "sys \<Rightarrow> nat \<Rightarrow> nat option \<times> sys" where
  "ExAllocatePool2 \<sigma> bytes =
     (let n = requests \<sigma>; \<sigma>' = \<sigma>\<lparr>requests := Suc n\<rparr>
      in if grants \<sigma> n bytes then (Some n, \<sigma>'\<lparr>live := (live \<sigma>)(n \<mapsto> bytes)\<rparr>) else (None, \<sigma>'))"

definition ExFreePoolWithTag :: "sys \<Rightarrow> nat \<Rightarrow> sys" where
  "ExFreePoolWithTag \<sigma> b =
     (if live \<sigma> b = None then \<sigma>\<lparr>bug_check := True\<rparr> else \<sigma>\<lparr>live := (live \<sigma>)(b := None)\<rparr>)"

text \<open>The checked arithmetic of the WDK, and the unchecked stubs of \<open>UMStubs/ntintsafe.h\<close>.\<close>

definition wdk_arith :: "sys \<Rightarrow> bool" where
  "wdk_arith \<sigma> \<longleftrightarrow>
     (\<forall>a b. SizeTMult \<sigma> a b = (if a * b < 2 ^ 64 then Some (a * b) else None)) \<and>
     (\<forall>a b. SizeTAdd \<sigma> a b = (if a + b < 2 ^ 64 then Some (a + b) else None))"

definition stub_RtlSizeTMult :: "nat \<Rightarrow> nat \<Rightarrow> nat option" where
  "stub_RtlSizeTMult a b = Some (a * b mod 2 ^ 64)"

definition stub_RtlSizeTAdd :: "nat \<Rightarrow> nat \<Rightarrow> nat option" where
  "stub_RtlSizeTAdd a b = Some ((a + b) mod 2 ^ 64)"

lemma wdk_arith_update [simp]:
  "wdk_arith (\<sigma>\<lparr>requests := n\<rparr>) \<longleftrightarrow> wdk_arith \<sigma>" "wdk_arith (\<sigma>\<lparr>live := l\<rparr>) \<longleftrightarrow> wdk_arith \<sigma>"
  "wdk_arith (\<sigma>\<lparr>requests := n, live := l\<rparr>) \<longleftrightarrow> wdk_arith \<sigma>"
  by (simp_all add: wdk_arith_def)

text \<open>Names of live blocks are numbers of past requests, and nothing was freed twice.\<close>

definition sys_ok :: "sys \<Rightarrow> bool" where
  "sys_ok \<sigma> \<longleftrightarrow> (\<forall>b \<in> dom (live \<sigma>). b < requests \<sigma>) \<and> \<not> bug_check \<sigma> \<and> wdk_arith \<sigma>"

definition same_params :: "sys \<Rightarrow> sys \<Rightarrow> bool" where
  "same_params \<sigma> \<sigma>' \<longleftrightarrow>
     grants \<sigma>' = grants \<sigma> \<and> SizeTMult \<sigma>' = SizeTMult \<sigma> \<and> SizeTAdd \<sigma>' = SizeTAdd \<sigma>"

lemma same_params_refl [simp]: "same_params \<sigma> \<sigma>"
  by (simp add: same_params_def)

lemma same_params_trans: "same_params a b \<Longrightarrow> same_params b c \<Longrightarrow> same_params a c"
  by (simp add: same_params_def)

section \<open>Ownership\<close>

text \<open>
  \<open>owns_step \<sigma> A \<sigma>' A'\<close>: an operation that owned the blocks \<open>A\<close> before and owns \<open>A'\<close> after
  has freed and allocated accordingly. Blocks of others are untouched, no block is leaked,
  and nothing is freed twice.
\<close>

definition owns_step :: "sys \<Rightarrow> nat set \<Rightarrow> sys \<Rightarrow> nat set \<Rightarrow> bool" where
  "owns_step \<sigma> A \<sigma>' A' \<longleftrightarrow>
     sys_ok \<sigma>' \<and> same_params \<sigma> \<sigma>' \<and> requests \<sigma> \<le> requests \<sigma>' \<and>
     dom (live \<sigma>') = (dom (live \<sigma>) - A) \<union> A' \<and>
     (\<forall>b \<in> dom (live \<sigma>) - A. live \<sigma>' b = live \<sigma> b) \<and>
     (\<forall>b \<in> A'. b \<in> A \<or> requests \<sigma> \<le> b)"

lemma owns_stepI:
  assumes "sys_ok \<sigma>'" "same_params \<sigma> \<sigma>'" "requests \<sigma> \<le> requests \<sigma>'"
    "dom (live \<sigma>') = (dom (live \<sigma>) - A) \<union> A'"
    "\<And>b. b \<in> dom (live \<sigma>) \<Longrightarrow> b \<notin> A \<Longrightarrow> live \<sigma>' b = live \<sigma> b"
    "\<And>b. b \<in> A' \<Longrightarrow> b \<in> A \<or> requests \<sigma> \<le> b"
  shows "owns_step \<sigma> A \<sigma>' A'"
  using assms by (simp add: owns_step_def)

lemma owns_stepD:
  assumes "owns_step \<sigma> A \<sigma>' A'"
  shows "sys_ok \<sigma>'" "same_params \<sigma> \<sigma>'" "requests \<sigma> \<le> requests \<sigma>'"
    "dom (live \<sigma>') = (dom (live \<sigma>) - A) \<union> A'"
    "\<And>b. b \<in> dom (live \<sigma>) \<Longrightarrow> b \<notin> A \<Longrightarrow> live \<sigma>' b = live \<sigma> b"
    "\<And>b. b \<in> A' \<Longrightarrow> b \<in> A \<or> requests \<sigma> \<le> b"
  using assms by (simp_all add: owns_step_def)

lemma owns_step_refl: "sys_ok \<sigma> \<Longrightarrow> A \<subseteq> dom (live \<sigma>) \<Longrightarrow> owns_step \<sigma> A \<sigma> A"
  by (auto simp: owns_step_def)

lemma owns_step_sys_ok: "owns_step \<sigma> A \<sigma>' A' \<Longrightarrow> sys_ok \<sigma>'"
  by (simp add: owns_step_def)

lemma owns_step_owned: "owns_step \<sigma> A \<sigma>' A' \<Longrightarrow> A' \<subseteq> dom (live \<sigma>')"
  by (auto simp: owns_step_def)

lemma owns_step_other:
  "owns_step \<sigma> A \<sigma>' A' \<Longrightarrow> b \<in> dom (live \<sigma>) \<Longrightarrow> b \<notin> A \<Longrightarrow> live \<sigma>' b = live \<sigma> b"
  by (auto simp: owns_step_def)

text \<open>What another component owns stays live, with its size, and stays apart.\<close>

lemma owns_step_frame:
  assumes "owns_step \<sigma> A \<sigma>' A'" "sys_ok \<sigma>" "B \<subseteq> dom (live \<sigma>)" "A \<inter> B = {}"
  shows "B \<subseteq> dom (live \<sigma>')" "A' \<inter> B = {}" "\<forall>b \<in> B. live \<sigma>' b = live \<sigma> b"
proof -
  have B: "B \<subseteq> dom (live \<sigma>) - A"
    using assms(3,4) by blast
  show "B \<subseteq> dom (live \<sigma>')"
    using assms(1) B unfolding owns_step_def by blast
  show "\<forall>b \<in> B. live \<sigma>' b = live \<sigma> b"
    using assms(1) B unfolding owns_step_def by blast
  have "b < requests \<sigma>" if "b \<in> B" for b
    using that B assms(2) unfolding sys_ok_def by blast
  moreover have "b \<in> A \<or> requests \<sigma> \<le> b" if "b \<in> A'" for b
    using that assms(1) unfolding owns_step_def by blast
  ultimately show "A' \<inter> B = {}"
    using assms(4) by (meson disjoint_iff linorder_not_le)
qed

lemma owns_step_trans:
  assumes st: "owns_step \<sigma> A \<sigma>' A'" "owns_step \<sigma>' A' \<sigma>'' A''" and ok: "sys_ok \<sigma>"
  shows "owns_step \<sigma> A \<sigma>'' A''"
proof -
  let ?D = "dom (live \<sigma>) - A"
  note d1 = owns_stepD(4) [OF st(1)] and d2 = owns_stepD(4) [OF st(2)]
  have "A' \<inter> ?D = {}"
    by (rule owns_step_frame(2) [OF st(1) ok]) auto
  then have D: "dom (live \<sigma>') - A' = ?D"
    using d1 by blast
  show ?thesis
  proof (rule owns_stepI)
    show "sys_ok \<sigma>''"
      using owns_stepD(1) [OF st(2)] .
    show "same_params \<sigma> \<sigma>''"
      using owns_stepD(2) [OF st(1)] owns_stepD(2) [OF st(2)] by (rule same_params_trans)
    show "requests \<sigma> \<le> requests \<sigma>''"
      using owns_stepD(3) [OF st(1)] owns_stepD(3) [OF st(2)] by simp
    show "dom (live \<sigma>'') = (dom (live \<sigma>) - A) \<union> A''"
      unfolding d2 D ..
    show "live \<sigma>'' b = live \<sigma> b" if "b \<in> dom (live \<sigma>)" "b \<notin> A" for b
    proof -
      have "b \<in> dom (live \<sigma>') - A'"
        unfolding D using that by blast
      then show ?thesis
        using owns_stepD(5) [OF st(1) that] owns_stepD(5) [OF st(2), of b] by simp
    qed
    show "b \<in> A \<or> requests \<sigma> \<le> b" if "b \<in> A''" for b
      using owns_stepD(6) [OF st(2) that] owns_stepD(6) [OF st(1), of b] owns_stepD(3) [OF st(1)] by force
  qed
qed

text \<open>A step of one part is a step of the whole that owns other blocks too.\<close>

lemma owns_step_widen:
  assumes "owns_step \<sigma> A \<sigma>' A'" "sys_ok \<sigma>" "B \<subseteq> dom (live \<sigma>)" "A \<inter> B = {}"
  shows "owns_step \<sigma> (A \<union> B) \<sigma>' (A' \<union> B)"
proof -
  note st = owns_stepD [OF assms(1)]
  show ?thesis
  proof (rule owns_stepI)
    show "dom (live \<sigma>') = (dom (live \<sigma>) - (A \<union> B)) \<union> (A' \<union> B)"
      unfolding st(4) using assms(3,4) by blast
    show "live \<sigma>' b = live \<sigma> b" if "b \<in> dom (live \<sigma>)" "b \<notin> A \<union> B" for b
      using st(5) that by blast
    show "b \<in> A \<union> B \<or> requests \<sigma> \<le> b" if "b \<in> A' \<union> B" for b
      using st(6) that by blast
  qed (use st in simp_all)
qed

lemma alloc_Some:
  assumes "ExAllocatePool2 \<sigma> bytes = (Some b, \<sigma>')" "sys_ok \<sigma>" "A \<subseteq> dom (live \<sigma>)"
  shows "owns_step \<sigma> A \<sigma>' (insert b A)" "live \<sigma>' b = Some bytes" "b \<notin> dom (live \<sigma>)"
  using assms
  by (auto simp: ExAllocatePool2_def Let_def owns_step_def sys_ok_def same_params_def
      less_Suc_eq split: if_splits)

lemma alloc_None:
  assumes "ExAllocatePool2 \<sigma> bytes = (None, \<sigma>')" "sys_ok \<sigma>" "A \<subseteq> dom (live \<sigma>)"
  shows "owns_step \<sigma> A \<sigma>' A" "live \<sigma>' = live \<sigma>"
  using assms
  by (auto simp: ExAllocatePool2_def Let_def owns_step_def sys_ok_def same_params_def
      less_Suc_eq split: if_splits)

lemma free_owned:
  assumes "sys_ok \<sigma>" "A \<subseteq> dom (live \<sigma>)" "b \<in> A"
  shows "owns_step \<sigma> A (ExFreePoolWithTag \<sigma> b) (A - {b})"
  using assms
  by (auto simp: ExFreePoolWithTag_def owns_step_def sys_ok_def same_params_def)

lemma free_other: "c \<noteq> b \<Longrightarrow> live (ExFreePoolWithTag \<sigma> b) c = live \<sigma> c"
  by (simp add: ExFreePoolWithTag_def)

lemma size_t_mult: "sys_ok \<sigma> \<Longrightarrow> SizeTMult \<sigma> a b = Some n \<Longrightarrow> n = a * b \<and> n < 2 ^ 64"
  by (auto simp: sys_ok_def wdk_arith_def split: if_splits)

lemma size_t_add: "sys_ok \<sigma> \<Longrightarrow> SizeTAdd \<sigma> a b = Some n \<Longrightarrow> n = a + b \<and> n < 2 ^ 64"
  by (auto simp: sys_ok_def wdk_arith_def split: if_splits)

end
