(* ===== verification/Swar.thy ===== *)
theory Swar
  imports Platform
begin

text \<open>
  Blocks of characters in a 64-bit register. \<open>block_of\<close> is the value that the code's
  \<open>memcpy\<close> of eight bytes gives (the first character in the low lane), and the rules here
  reduce bitwise operations, lane-wise additions and subtractions, and the zero-lane
  detection idiom to statements about the list of characters. They hold for both character
  widths, so the CHAR and the WCHAR engine share them.
\<close>

section \<open>Packing characters into a block\<close>

definition chars_per_block :: "'c::len itself \<Rightarrow> nat" where
  "chars_per_block _ = 8 div (LENGTH('c) div 8)"

fun block_of :: "'c::len word list \<Rightarrow> u64" where
  "block_of [] = 0"
| "block_of (c # cs) = ucast c OR push_bit LENGTH('c) (block_of cs)"

definition load64 :: "'c::len word list \<Rightarrow> nat \<Rightarrow> u64 option" where
  "load64 xs i =
     (if i + chars_per_block TYPE('c) \<le> length xs
      then Some (block_of (take (chars_per_block TYPE('c)) (drop i xs))) else None)"

text \<open>The character widths the code accepts (its \<open>static_assert\<close>).\<close>

definition tchar_ok :: "'c::len itself \<Rightarrow> bool" where
  "tchar_ok _ \<longleftrightarrow> LENGTH('c) = 8 \<or> LENGTH('c) = 16"

lemma tchar_ok_8 [simp]: "tchar_ok TYPE(8)"
  by (simp add: tchar_ok_def)

lemma tchar_ok_16 [simp]: "tchar_ok TYPE(16)"
  by (simp add: tchar_ok_def)

lemma chars_per_block_mult:
  "tchar_ok TYPE('c::len) \<Longrightarrow> chars_per_block TYPE('c) * LENGTH('c) = 64"
  by (auto simp: tchar_ok_def chars_per_block_def)

lemma chars_per_block_pos: "tchar_ok TYPE('c::len) \<Longrightarrow> 0 < chars_per_block TYPE('c)"
  by (auto simp: tchar_ok_def chars_per_block_def)

section \<open>The bits of a block\<close>

lemma bit_block_of [lane_rules]:
  fixes cs :: "'c::len word list"
  shows "bit (block_of cs) i \<longleftrightarrow>
     i < 64 \<and> i div LENGTH('c) < length cs \<and> bit (cs ! (i div LENGTH('c))) (i mod LENGTH('c))"
proof (induction cs arbitrary: i)
  case Nil
  then show ?case by simp
next
  case (Cons c cs)
  show ?case
  proof (cases "i < LENGTH('c)")
    case True
    then show ?thesis
      by (auto simp: bit_or_iff bit_unsigned_iff bit_push_bit_iff)
  next
    case False
    then have "i div LENGTH('c) = Suc ((i - LENGTH('c)) div LENGTH('c))"
      and "i mod LENGTH('c) = (i - LENGTH('c)) mod LENGTH('c)"
      by (simp_all add: le_div_geq le_mod_geq)
    with False Cons.IH [of "i - LENGTH('c)"] show ?thesis
      by (auto simp: bit_or_iff bit_unsigned_iff bit_push_bit_iff dest: bit_imp_le_length)
  qed
qed

lemma block_of_Cons_add:
  fixes c :: "'c::len word"
  shows "block_of (c # cs) = ucast c + 2 ^ LENGTH('c) * block_of cs"
proof -
  have "ucast c AND push_bit LENGTH('c) (block_of cs) = 0"
    by (rule bit_eqI) (auto simp: bit_and_iff bit_unsigned_iff bit_push_bit_iff dest: bit_imp_le_length)
  then have "ucast c OR push_bit LENGTH('c) (block_of cs) = ucast c + push_bit LENGTH('c) (block_of cs)"
    by (simp add: disjunctive_add_eq_or)
  then show ?thesis
    by (simp add: push_bit_eq_mult mult.commute)
qed

text \<open>Addition and subtraction of zero-extended lanes that neither carry nor borrow.\<close>

lemma ucast_add_lane:
  fixes x y :: "'c::len word"
  assumes "unat x + unat y < 2 ^ LENGTH('c)"
  shows "(ucast x :: u64) + ucast y = ucast (x + y)"
proof -
  have "unat (x + y) = unat x + unat y"
    using assms by (rule unat_add_lem [THEN iffD1])
  then show ?thesis
    by (metis of_nat_add of_nat_unat)
qed

lemma ucast_diff_lane:
  fixes x y :: "'c::len word"
  assumes "y \<le> x"
  shows "(ucast x :: u64) - ucast y = ucast (x - y)"
proof -
  have "unat (x - y) = unat x - unat y" and "unat y \<le> unat x"
    using assms by (simp_all add: unat_sub word_le_nat_alt)
  then show ?thesis
    by (metis of_nat_diff of_nat_unat)
qed

lemma block_of_append:
  fixes xs :: "'c::len word list"
  shows "block_of (xs @ ys) = block_of xs + 2 ^ (LENGTH('c) * length xs) * block_of ys"
proof (induction xs)
  case Nil
  then show ?case by simp
next
  case (Cons x xs)
  have "block_of ((x # xs) @ ys) = ucast x + 2 ^ LENGTH('c) * block_of (xs @ ys)"
    by (simp add: block_of_Cons_add del: block_of.simps)
  then show ?case
    by (simp add: Cons.IH block_of_Cons_add power_add algebra_simps del: block_of.simps)
qed

section \<open>Lane-wise operations\<close>

lemma block_of_and [lane_rules]:
  "length xs = length ys \<Longrightarrow> block_of xs AND block_of ys = block_of (map2 (AND) xs ys)"
  by (rule bit_eqI) (auto simp: lane_rules bit_and_iff)

lemma block_of_xor [lane_rules]:
  "length xs = length ys \<Longrightarrow> block_of xs XOR block_of ys = block_of (map2 (XOR) xs ys)"
  by (rule bit_eqI) (auto simp: lane_rules bit_xor_iff)

lemma block_of_and_not [lane_rules]:
  "length xs = length ys \<Longrightarrow> block_of xs AND NOT (block_of ys) = block_of (map2 (\<lambda>x y. x AND NOT y) xs ys)"
  by (rule bit_eqI)
    (auto simp: lane_rules bit_and_iff bit_not_iff dest: bit_imp_le_length)

lemma block_of_add [lane_rules]:
  fixes xs :: "'c::len word list"
  assumes "length xs = length ys" "\<forall>i<length xs. unat (xs ! i) + unat (ys ! i) < 2 ^ LENGTH('c)"
  shows "block_of xs + block_of ys = block_of (map2 (+) xs ys)"
  using assms
proof (induction xs ys rule: list_induct2)
  case Nil
  then show ?case by simp
next
  case (Cons x xs y ys)
  have head: "(ucast x :: u64) + ucast y = ucast (x + y)"
    using Cons.prems by (intro ucast_add_lane) force
  have tail: "block_of xs + block_of ys = block_of (map2 (+) xs ys)"
    using Cons.prems by (intro Cons.IH) fastforce
  have "block_of (x # xs) + block_of (y # ys) =
      (ucast x + ucast y) + 2 ^ LENGTH('c) * (block_of xs + block_of ys)"
    by (simp only: block_of_Cons_add algebra_simps)
  also have "\<dots> = block_of ((x + y) # map2 (+) xs ys)"
    by (simp only: head tail block_of_Cons_add)
  finally show ?case by simp
qed

lemma block_of_diff [lane_rules]:
  fixes xs :: "'c::len word list"
  assumes "length xs = length ys" "\<forall>i<length xs. ys ! i \<le> xs ! i"
  shows "block_of xs - block_of ys = block_of (map2 (-) xs ys)"
  using assms
proof (induction xs ys rule: list_induct2)
  case Nil
  then show ?case by simp
next
  case (Cons x xs y ys)
  have head: "(ucast x :: u64) - ucast y = ucast (x - y)"
    using Cons.prems by (intro ucast_diff_lane) force
  have tail: "block_of xs - block_of ys = block_of (map2 (-) xs ys)"
    using Cons.prems by (intro Cons.IH) fastforce
  have "block_of (x # xs) - block_of (y # ys) =
      (ucast x - ucast y) + 2 ^ LENGTH('c) * (block_of xs - block_of ys)"
    by (simp only: block_of_Cons_add algebra_simps)
  also have "\<dots> = block_of ((x - y) # map2 (-) xs ys)"
    by (simp only: head tail block_of_Cons_add)
  finally show ?case by simp
qed

lemma block_of_eq_iff:
  fixes xs ys :: "'c::len word list"
  assumes "length xs = length ys" "length xs * LENGTH('c) \<le> 64"
  shows "block_of xs = block_of ys \<longleftrightarrow> xs = ys"
proof
  assume eq: "block_of xs = block_of ys"
  have "xs ! j = ys ! j" if j: "j < length xs" for j
  proof (rule bit_eqI)
    fix i
    assume "possible_bit TYPE('c word) i"
    then have i: "i < LENGTH('c)" by simp
    have "j * LENGTH('c) + i < Suc j * LENGTH('c)"
      using i by simp
    also have "\<dots> \<le> length xs * LENGTH('c)"
      using j by (intro mult_le_mono1) simp
    finally have b: "j * LENGTH('c) + i < 64"
      using assms(2) by linarith
    have "bit (block_of xs) (j * LENGTH('c) + i) = bit (block_of ys) (j * LENGTH('c) + i)"
      using eq by simp
    then show "bit (xs ! j) i = bit (ys ! j) i"
      using i j b assms(1) by (simp add: bit_block_of)
  qed
  then show "xs = ys"
    using assms(1) by (simp add: nth_equalityI)
qed simp

section \<open>Finding the lowest zero lane\<close>

text \<open>
  The idiom \<open>(d - low) & ~d & high\<close> marks the top bit of every zero lane. Borrows can
  mark lanes above a zero lane as well, so only the lowest mark is reliable. \<open>lowest_mark\<close>
  states just that much, and it is what survives the union of two such masks.
\<close>

definition zero_lanes :: "u64 \<Rightarrow> u64 \<Rightarrow> u64 \<Rightarrow> u64" where
  "zero_lanes low high d = (d - low) AND NOT d AND high"

definition lowest_mark :: "nat \<Rightarrow> u64 \<Rightarrow> nat option \<Rightarrow> bool" where
  "lowest_mark n z r \<longleftrightarrow>
     (case r of None \<Rightarrow> z = 0
      | Some j \<Rightarrow> n * Suc j \<le> 64 \<and> (\<forall>i < n * Suc j. bit z i \<longleftrightarrow> i = n * j + (n - 1)))"

fun first_index :: "('a \<Rightarrow> bool) \<Rightarrow> 'a list \<Rightarrow> nat option" where
  "first_index P [] = None"
| "first_index P (x # xs) = (if P x then Some 0 else map_option Suc (first_index P xs))"

lemma first_index_None: "first_index P xs = None \<longleftrightarrow> (\<forall>x \<in> set xs. \<not> P x)"
  by (induction xs) auto

lemma first_index_Some:
  "first_index P xs = Some j \<longleftrightarrow> j < length xs \<and> P (xs ! j) \<and> (\<forall>i<j. \<not> P (xs ! i))"
proof (induction xs arbitrary: j)
  case Nil
  then show ?case by simp
next
  case (Cons x xs)
  then show ?case
    by (cases j) (auto simp: All_less_Suc2)
qed

lemma first_index_map: "first_index P (map f xs) = first_index (P \<circ> f) xs"
  by (induction xs) simp_all

lemma first_index_cong:
  "(\<And>x. x \<in> set xs \<Longrightarrow> P x \<longleftrightarrow> Q x) \<Longrightarrow> first_index P xs = first_index Q xs"
  by (induction xs) auto

lemma bit_top_iff:
  fixes x :: "'c::len word"
  shows "bit x (LENGTH('c) - 1) \<longleftrightarrow> 2 ^ (LENGTH('c) - 1) \<le> unat x"
proof -
  have lt: "unat x < 2 ^ (LENGTH('c) - 1) * 2"
    by (metis Suc_pred' len_gt_0 power_Suc2 unsigned_less)
  have "bit x (LENGTH('c) - 1) \<longleftrightarrow> odd (unat x div 2 ^ (LENGTH('c) - 1))"
    by (metis bit_iff_odd bit_unsigned_iff diff_less len_gt_0 possible_bit_nat zero_less_one)
  moreover have "unat x div 2 ^ (LENGTH('c) - 1) < 2"
    using lt by (simp add: less_mult_imp_div_less)
  moreover have "unat x div 2 ^ (LENGTH('c) - 1) = 0 \<longleftrightarrow> unat x < 2 ^ (LENGTH('c) - 1)"
    by (simp add: div_eq_0_iff)
  ultimately show ?thesis
    by (cases "unat x div 2 ^ (LENGTH('c) - 1) = 0") (auto simp: less_2_cases_iff)
qed

text \<open>A nonzero lane is not marked when no borrow reaches it.\<close>

lemma nonzero_lane_unmarked:
  fixes x :: "'c::len word"
  assumes "x \<noteq> 0"
  shows "\<not> (bit (x - 1) (LENGTH('c) - 1) \<and> \<not> bit x (LENGTH('c) - 1))"
proof -
  have "unat (x - 1) = unat x - 1"
    using assms by (metis unat_minus_one)
  then show ?thesis
    by (auto simp: bit_top_iff simp del: One_nat_def)
qed

lemma bit_add_high_int:
  fixes a b :: int
  assumes "i < m"
  shows "bit (a + 2 ^ m * b) i \<longleftrightarrow> bit a i"
proof -
  have "take_bit m (a + 2 ^ m * b) = take_bit m a"
    by (simp add: take_bit_eq_mod)
  then have "bit (take_bit m (a + 2 ^ m * b)) i = bit (take_bit m a) i"
    by simp
  then show ?thesis
    using assms by (simp add: bit_take_bit_iff)
qed

lemma bit_add_high:
  fixes a b :: u64
  assumes "i < m"
  shows "bit (a + 2 ^ m * b) i \<longleftrightarrow> bit a i"
  using assms by transfer (simp add: bit_add_high_int)

text \<open>The mask of a block of lanes marks the first zero lane, and nothing below it.\<close>

lemma ucast_ones: "LENGTH('c) \<le> 64 \<Longrightarrow> (ucast (-1 :: 'c::len word) :: u64) = 2 ^ LENGTH('c) - 1"
  by (rule bit_word_eqI) (auto simp: bit_unsigned_iff bit_mask_iff simp flip: mask_eq_exp_minus_1)

lemma block_diff_at_zero:
  fixes as :: "'c::len word list"
  assumes nz: "\<forall>x \<in> set as. x \<noteq> 0" and n: "LENGTH('c) \<le> 64"
  shows "\<exists>R. block_of (as @ 0 # bs) - block_of (replicate (length as + Suc (length bs)) (1 :: 'c word)) =
     block_of (map (\<lambda>x. x - 1) as @ [-1]) + 2 ^ (LENGTH('c) * Suc (length as)) * R"
proof -
  let ?m = "LENGTH('c) * length as"
  let ?o = "\<lambda>k. replicate k (1 :: 'c word)"
  have rep: "?o (length as + Suc (length bs)) = ?o (length as) @ 1 # ?o (length bs)"
    by (simp only: replicate_add replicate_Suc)
  have low: "block_of as - block_of (?o (length as)) = block_of (map (\<lambda>x. x - 1) as)"
  proof -
    have "1 \<le> as ! i" if "i < length as" for i
      using nz nth_mem [OF that] by (auto simp: word_le_nat_alt Suc_le_eq unat_gt_0)
    then have "block_of as - block_of (?o (length as)) = block_of (map2 (-) as (?o (length as)))"
      by (intro block_of_diff) simp_all
    also have "map2 (-) as (?o (length as)) = map (\<lambda>x. x - 1) as"
      by (rule nth_equalityI) simp_all
    finally show ?thesis .
  qed
  let ?R = "block_of bs - block_of (?o (length bs)) - 1"
  have high: "block_of (0 # bs) - block_of (1 # ?o (length bs)) = ucast (-1 :: 'c word) + 2 ^ LENGTH('c) * ?R"
    using n by (simp add: block_of_Cons_add ucast_ones algebra_simps del: block_of.simps)
  have "block_of (as @ 0 # bs) - block_of (?o (length as + Suc (length bs))) =
      (block_of as - block_of (?o (length as))) + 2 ^ ?m * (block_of (0 # bs) - block_of (1 # ?o (length bs)))"
    unfolding rep block_of_append by (simp add: algebra_simps del: block_of.simps)
  also have "\<dots> = block_of (map (\<lambda>x. x - 1) as @ [-1]) + 2 ^ (LENGTH('c) * Suc (length as)) * ?R"
    by (simp only: low high) (simp add: block_of_append algebra_simps power_add)
  finally show ?thesis by blast
qed

theorem zero_lanes_lowest:
  fixes xs :: "'c::len word list"
  assumes "length xs * LENGTH('c) \<le> 64"
  shows "lowest_mark LENGTH('c)
     (zero_lanes (block_of (replicate (length xs) (1 :: 'c word)))
       (block_of (replicate (length xs) (2 ^ (LENGTH('c) - 1) :: 'c word))) (block_of xs))
     (first_index (\<lambda>x. x = 0) xs)"
proof -
  let ?n = "LENGTH('c)"
  let ?low = "block_of (replicate (length xs) (1 :: 'c word))"
  let ?high = "block_of (replicate (length xs) (2 ^ (?n - 1) :: 'c word))"
  let ?z = "zero_lanes ?low ?high (block_of xs)"
  have high: "bit ?high i \<longleftrightarrow> i < 64 \<and> i div ?n < length xs \<and> i mod ?n = ?n - 1" for i
    by (auto simp: bit_block_of bit_exp_iff)
  have zbit: "bit ?z i \<longleftrightarrow> bit (block_of xs - ?low) i \<and>
      \<not> (i < 64 \<and> i div ?n < length xs \<and> bit (xs ! (i div ?n)) (i mod ?n)) \<and>
      i < 64 \<and> i div ?n < length xs \<and> i mod ?n = ?n - 1" for i
    by (simp only: zero_lanes_def bit_and_iff bit_not_iff high bit_block_of [of xs]) auto
  show ?thesis
  proof (cases "first_index (\<lambda>x. x = 0) xs")
    case None
    then have nz: "\<forall>x \<in> set xs. x \<noteq> 0"
      by (simp add: first_index_None)
    then have "1 \<le> xs ! i" if "i < length xs" for i
      using nth_mem [OF that] by (auto simp: word_le_nat_alt Suc_le_eq unat_gt_0)
    then have "block_of xs - ?low = block_of (map2 (-) xs (replicate (length xs) 1))"
      by (intro block_of_diff) simp_all
    then have "\<not> bit ?z i" for i
      using nz nonzero_lane_unmarked [of "xs ! (i div ?n)"]
      unfolding zbit by (auto simp: bit_block_of)
    then have "?z = 0"
      by (simp add: bit_eq_iff)
    with None show ?thesis
      by (simp add: lowest_mark_def)
  next
    case (Some j)
    then have j: "j < length xs" "xs ! j = 0" and before: "\<forall>i<j. xs ! i \<noteq> 0"
      by (simp_all add: first_index_Some)
    define as bs where "as = take j xs" and "bs = drop (Suc j) xs"
    have xs: "xs = as @ 0 # bs" and las: "length as = j"
      using j by (simp_all add: as_def bs_def id_take_nth_drop flip: j(2))
    have "?n * Suc j \<le> length xs * ?n"
      using j mult_le_mono1 [of "Suc j" "length xs" ?n] by (simp add: mult.commute)
    then have fits: "?n * Suc j \<le> 64"
      using assms by linarith
    then have n64: "?n \<le> 64"
      by simp
    have "\<forall>x \<in> set as. x \<noteq> 0"
      using before j by (auto simp: as_def in_set_conv_nth)
    from block_diff_at_zero [OF this n64, of bs] obtain R where
      diff: "block_of xs - ?low = block_of (map (\<lambda>x. x - 1) as @ [-1]) + 2 ^ (?n * Suc j) * R"
      by (auto simp: xs las)
    have "bit ?z i \<longleftrightarrow> i = ?n * j + (?n - 1)" if i: "i < ?n * Suc j" for i
    proof -
      have b: "bit (block_of xs - ?low) i \<longleftrightarrow> bit (block_of (map (\<lambda>x. x - 1) as @ [-1])) i"
        unfolding diff using i by (rule bit_add_high)
      have le: "i div ?n \<le> j"
        using i by (metis less_Suc_eq_le less_mult_imp_div_less mult.commute)
      show ?thesis
      proof (cases "i div ?n = j")
        case True
        then have "i = ?n * j + i mod ?n"
          by (metis mult_div_mod_eq)
        then have top: "i = ?n * j + (?n - 1) \<longleftrightarrow> i mod ?n = ?n - 1"
          by (metis add_left_cancel)
        show ?thesis
          using True i fits j las unfolding zbit top
          by (auto simp: b bit_block_of nth_append)
      next
        case False
        with le have lt: "i div ?n < j" by simp
        then have "\<not> bit ?z i"
          using before j las nonzero_lane_unmarked [of "xs ! (i div ?n)"]
          unfolding zbit by (auto simp: b bit_block_of nth_append as_def)
        moreover have "i \<noteq> ?n * j + (?n - 1)"
          using False by auto
        ultimately show ?thesis by simp
      qed
    qed
    then show ?thesis
      using Some fits by (simp add: lowest_mark_def)
  qed
qed

section \<open>Reading the lowest mark\<close>

lemma lowest_mark_scan:
  assumes "lowest_mark n z (Some j)" "0 < n"
  shows "BitScanForward64 z = Some (n * j + (n - 1))" "z \<noteq> 0"
proof -
  have i: "n * j + (n - 1) < n * Suc j" "n * Suc j \<le> 64" "bit z (n * j + (n - 1))"
    and below: "\<forall>i < n * j + (n - 1). \<not> bit z i"
    using assms by (auto simp: lowest_mark_def)
  then show "BitScanForward64 z = Some (n * j + (n - 1))"
    by (intro BitScanForward64_lowest) auto
  show "z \<noteq> 0"
    using i by auto
qed

lemma lane_of_mark: "0 < n \<Longrightarrow> (n * j + (n - 1)) div n = (j :: nat)"
  by (simp add: div_nat_eqI)

text \<open>The union of two masks marks the lower of the two lanes, and the lowest bit of the union is a bit
  of the mask whose lane comes first.\<close>

fun min_opt :: "nat option \<Rightarrow> nat option \<Rightarrow> nat option" where
  "min_opt None b = b"
| "min_opt a None = a"
| "min_opt (Some a) (Some b) = Some (min a b)"

lemma lowest_mark_or:
  assumes a: "lowest_mark n z1 a" and b: "lowest_mark n z2 b" and n: "0 < n"
  shows "lowest_mark n (z1 OR z2) (min_opt a b)"
proof (cases a)
  case None
  then show ?thesis using a b by (simp add: lowest_mark_def)
next
  case (Some j1)
  note j1 = this
  show ?thesis
  proof (cases b)
    case None
    then show ?thesis using a b j1 by (simp add: lowest_mark_def)
  next
    case (Some j2)
    have m: "n * Suc (min j1 j2) \<le> n * Suc j1" "n * Suc (min j1 j2) \<le> n * Suc j2"
      using mult_le_mono2 [of "Suc (min j1 j2)" "Suc j1" n] mult_le_mono2 [of "Suc (min j1 j2)" "Suc j2" n]
      by (simp_all del: mult_Suc_right)
    have "n * Suc j1 \<le> 64"
      using a j1 by (simp add: lowest_mark_def del: mult_Suc_right)
    with m(1) have "n * Suc (min j1 j2) \<le> 64"
      by (rule order_trans)
    moreover have "bit (z1 OR z2) i \<longleftrightarrow> i = n * min j1 j2 + (n - 1)" if i: "i < n * Suc (min j1 j2)" for i
    proof -
      have "bit z1 i \<longleftrightarrow> i = n * j1 + (n - 1)" and "bit z2 i \<longleftrightarrow> i = n * j2 + (n - 1)"
        using a b j1 Some order_less_le_trans [OF i m(1)] order_less_le_trans [OF i m(2)]
        by (simp_all add: lowest_mark_def del: mult_Suc_right)
      moreover have "i = n * j1 + (n - 1) \<Longrightarrow> j1 \<le> j2" and "i = n * j2 + (n - 1) \<Longrightarrow> j2 \<le> j1"
        using i lane_of_mark [OF n] less_mult_imp_div_less [of i "Suc (min j1 j2)" n]
        by (auto simp: mult.commute)
      ultimately show ?thesis
        by (auto simp: bit_or_iff min_def)
    qed
    ultimately show ?thesis
      using j1 Some by (simp add: lowest_mark_def del: mult_Suc_right)
  qed
qed

lemma lowest_mark_bit_other:
  assumes "lowest_mark n z (Some j1)" "j < j1 \<or> j = j1" "0 < n"
  shows "bit z (n * j + (n - 1)) \<longleftrightarrow> j = j1"
proof -
  have "n * Suc j \<le> n * Suc j1"
    using assms(2) by (intro mult_le_mono2) auto
  moreover have "n * j + (n - 1) < n * Suc j"
    using assms(3) by simp
  ultimately have "n * j + (n - 1) < n * Suc j1"
    by linarith
  then have "bit z (n * j + (n - 1)) \<longleftrightarrow> n * j + (n - 1) = n * j1 + (n - 1)"
    using assms(1) by (simp add: lowest_mark_def del: mult_Suc_right)
  then show ?thesis
    using lane_of_mark [OF assms(3)] by metis
qed

lemma lowest_mark_None [simp]: "lowest_mark n z None \<longleftrightarrow> z = 0"
  by (simp add: lowest_mark_def)

end
