(* ===== verification/CharOps.thy ===== *)
theory CharOps
  imports Swar
begin

text \<open>
  The character and hash primitives of \<open>namespace KmStringPatternMatchDetail\<close>
  (KmStringPatternMatch.h). The character type is \<open>'c word\<close>; the code's
  \<open>if constexpr (sizeof(TChar) == 1)\<close> is a test of the width. \<open>RtlUpcaseUnicodeChar\<close> is
  a parameter \<open>up\<close>, reached only for 16-bit characters above 127.
\<close>

section \<open>Characters\<close>

definition kStar :: "'c::len word" where "kStar = 42"
definition kQuestion :: "'c::len word" where "kQuestion = 63"
definition kEscape :: "'c::len word" where "kEscape = 124"

definition IsPathSeparator :: "'c::len word \<Rightarrow> bool" where
  "IsPathSeparator c \<longleftrightarrow> c = 92"

definition CharToUint64 :: "'c::len word \<Rightarrow> u64" where
  "CharToUint64 c = ucast c"

definition ToUpperFast :: "('c::len word \<Rightarrow> 'c word) \<Rightarrow> 'c word \<Rightarrow> 'c word" where
  "ToUpperFast up c =
     (if LENGTH('c) = 8 then c - push_bit 5 (of_bool (c \<ge> 97 \<and> c \<le> 122))
      else if c \<le> 127 then c - push_bit 5 (of_bool (c \<ge> 97 \<and> c \<le> 122))
      else up c)"

section \<open>Blocks\<close>

definition IsAsciiSWAR :: "'c::len itself \<Rightarrow> u64 \<Rightarrow> bool" where
  "IsAsciiSWAR _ w =
     (if LENGTH('c) = 8 then w AND 0x8080808080808080 = 0
      else w AND 0xFF80FF80FF80FF80 = 0)"

definition ToUpperSWAR :: "'c::len itself \<Rightarrow> u64 \<Rightarrow> u64" where
  "ToUpperSWAR _ w =
     (if LENGTH('c) = 8 then
        let NotUnderA = w + 0x1F1F1F1F1F1F1F1F;
            NotOverZ = 0xFAFAFAFAFAFAFAFA - w;
            IsLower = NotUnderA AND NotOverZ AND 0x8080808080808080
        in w - (drop_bit 2 IsLower AND 0x2020202020202020)
      else
        let NotUnderA = w + 0x7F9F7F9F7F9F7F9F;
            NotOverZ = 0x807A807A807A807A - w;
            IsLower = NotUnderA AND NotOverZ AND 0x8000800080008000
        in w - (drop_bit 10 IsLower AND 0x0020002000200020))"

section \<open>Hashing\<close>

definition kPrime :: u64 where "kPrime = 0x8bb84b93962eacc9"

definition Mix64 :: "u64 \<Rightarrow> u64" where
  "Mix64 State = (let (low, high) = umul128 State kPrime in low XOR high)"

text \<open>The fallback for targets without a 128-bit multiplication.\<close>

definition Mix64_fallback :: "u64 \<Rightarrow> u64" where
  "Mix64_fallback State =
     (let AL = ucast State :: u32; AH = ucast (drop_bit 32 State) :: u32;
          BL = ucast kPrime :: u32; BH = ucast (drop_bit 32 kPrime) :: u32;
          LL = emulu AL BL; HL = emulu AH BL; LH = emulu AL BH; HH = emulu AH BH;
          cross = drop_bit 32 LL + ucast (ucast HL :: u32) + ucast (ucast LH :: u32);
          upper = drop_bit 32 HL + drop_bit 32 LH + drop_bit 32 cross + HH;
          lower = push_bit 32 cross OR ucast (ucast LL :: u32)
      in lower XOR upper)"

function hash_chunks :: "'c::len word list \<Rightarrow> nat \<Rightarrow> nat \<Rightarrow> u64 \<Rightarrow> u64 option" where
  "hash_chunks sText i chunks hash =
     (if i < chunks then
        do { w \<leftarrow> load64 sText (i * chars_per_block TYPE('c));
             hash_chunks sText (i + 1) chunks (Mix64 (hash XOR w)) }
      else Some hash)"
  by pat_completeness auto
termination by (relation "measure (\<lambda>(_, i, chunks, _). chunks - i)") auto

function or_tail :: "'c::len word list \<Rightarrow> nat \<Rightarrow> nat \<Rightarrow> u64 \<Rightarrow> u64 option" where
  "or_tail pTail j n tail =
     (if j < n then
        do { c \<leftarrow> rd pTail j;
             or_tail pTail (j + 1) n (tail OR push_bit (j * LENGTH('c)) (CharToUint64 c)) }
      else Some tail)"
  by pat_completeness auto
termination by (relation "measure (\<lambda>(_, j, n, _). n - j)") auto

declare hash_chunks.simps [simp del] or_tail.simps [simp del]

definition CalculateHash :: "'c::len word list \<Rightarrow> nat \<Rightarrow> u64 \<Rightarrow> u64 option" where
  "CalculateHash sText cchText PrevHash =
     (let chunks = (cchText * (LENGTH('c) div 8)) div 8;
          remainingChars = cchText - chunks * chars_per_block TYPE('c)
      in do { hash \<leftarrow> hash_chunks sText 0 chunks PrevHash;
              if remainingChars > 0 then
                do { tail \<leftarrow> or_tail (drop (chunks * chars_per_block TYPE('c)) sText) 0 remainingChars 0;
                     Some (Mix64 (hash XOR tail)) }
              else Some hash })"

section \<open>Constant blocks\<close>

text \<open>Multiplying a character by the unit block broadcasts it to every lane.\<close>

definition kLowBits :: "'c::len itself \<Rightarrow> u64" where
  "kLowBits _ = (if LENGTH('c) = 8 then 0x0101010101010101 else 0x0001000100010001)"

lemma broadcast:
  fixes c :: "'c::len word"
  assumes "tchar_ok TYPE('c)"
  shows "block_of (replicate (chars_per_block TYPE('c)) c) = kLowBits TYPE('c) * ucast c"
proof -
  consider "LENGTH('c) = 8" | "LENGTH('c) = 16"
    using assms by (auto simp: tchar_ok_def)
  then show ?thesis
  proof cases
    case 1
    then have "chars_per_block TYPE('c) = Suc (Suc (Suc (Suc (Suc (Suc (Suc (Suc 0)))))))"
      by (simp add: chars_per_block_def)
    then show ?thesis
      by (simp add: block_of_Cons_add 1 kLowBits_def algebra_simps del: block_of.simps)
        (simp add: block_of.simps(1))
  next
    case 2
    then have "chars_per_block TYPE('c) = Suc (Suc (Suc (Suc 0)))"
      by (simp add: chars_per_block_def)
    then show ?thesis
      by (simp add: block_of_Cons_add 2 kLowBits_def algebra_simps del: block_of.simps)
        (simp add: block_of.simps(1))
  qed
qed

lemma broadcast_nat:
  assumes "tchar_ok TYPE('c::len)" "v < 2 ^ LENGTH('c)"
  shows "block_of (replicate (chars_per_block TYPE('c)) (word_of_nat v :: 'c word)) = kLowBits TYPE('c) * word_of_nat v"
proof -
  have "(ucast (word_of_nat v :: 'c word) :: u64) = word_of_nat v"
    using assms(2) by (simp add: unsigned_of_nat take_bit_nat_eq_self)
  with broadcast [OF assms(1)] show ?thesis
    by simp
qed

section \<open>The ASCII test\<close>

lemma and_not_mask7_eq_0:
  fixes c :: "'c::len word"
  shows "c AND NOT (mask 7) = 0 \<longleftrightarrow> unat c < 128"
proof -
  have "c AND NOT (mask 7) = 0 \<longleftrightarrow> take_bit 7 c = c"
    by (auto simp: bit_eq_iff bit_simps not_less)
  also have "\<dots> \<longleftrightarrow> take_bit 7 (unat c) = unat c"
    by (simp add: word_unat_eq_iff unsigned_take_bit_eq)
  also have "\<dots> \<longleftrightarrow> unat c < 128"
    by (simp add: take_bit_nat_eq_self_iff)
  finally show ?thesis .
qed

lemma word_of_nat_top:
  "7 \<le> LENGTH('c::len) \<Longrightarrow> (word_of_nat (2 ^ LENGTH('c) - 128) :: 'c word) = NOT (mask 7)"
proof -
  assume "7 \<le> LENGTH('c)"
  then have "(2::nat) ^ 7 \<le> 2 ^ LENGTH('c)"
    by (rule power_increasing) simp
  then have "(word_of_nat (2 ^ LENGTH('c) - 128) :: 'c word) = 2 ^ LENGTH('c) - 128"
    by (simp add: of_nat_diff)
  also have "\<dots> = NOT (mask 7)"
    by (simp add: mask_eq_exp_minus_1 not_eq_complement)
  finally show ?thesis .
qed

lemma IsAsciiSWAR_block:
  fixes cs :: "'c::len word list"
  assumes ok: "tchar_ok TYPE('c)" and len: "length cs = chars_per_block TYPE('c)"
  shows "IsAsciiSWAR TYPE('c) (block_of cs) \<longleftrightarrow> (\<forall>c \<in> set cs. unat c < 128)"
proof -
  let ?k = "chars_per_block TYPE('c)"
  let ?m = "word_of_nat (2 ^ LENGTH('c) - 128) :: 'c word"
  have n7: "7 \<le> LENGTH('c)"
    using ok by (auto simp: tchar_ok_def)
  have mask: "IsAsciiSWAR TYPE('c) w \<longleftrightarrow> w AND block_of (replicate ?k ?m) = 0" for w
    using ok broadcast_nat [OF ok, of "2 ^ LENGTH('c) - 128"]
    by (auto simp: tchar_ok_def IsAsciiSWAR_def kLowBits_def)
  have "block_of cs AND block_of (replicate ?k ?m) = block_of (map (\<lambda>c. c AND ?m) cs)"
    using len by (simp add: block_of_and map2_map_map zip_replicate2 o_def)
  moreover have "block_of (replicate ?k (0 :: 'c word)) = 0"
    using broadcast [OF ok, of 0] by simp
  moreover have "block_of (map (\<lambda>c. c AND ?m) cs) = block_of (replicate ?k (0 :: 'c word)) \<longleftrightarrow>
      map (\<lambda>c. c AND ?m) cs = replicate ?k 0"
    using len chars_per_block_mult [OF ok] by (intro block_of_eq_iff) simp_all
  moreover have "map (\<lambda>c. c AND ?m) cs = replicate ?k 0 \<longleftrightarrow> (\<forall>c \<in> set cs. c AND ?m = 0)"
    using len by (auto simp: list_eq_iff_nth_eq all_set_conv_all_nth)
  ultimately show ?thesis
    by (simp add: mask and_not_mask7_eq_0 word_of_nat_top [OF n7])
qed

section \<open>Case folding of a block\<close>

lemma ToUpperFast_ascii:
  fixes c :: "'c::len word"
  assumes "tchar_ok TYPE('c)" "unat c < 128"
  shows "ToUpperFast up c = (if 97 \<le> unat c \<and> unat c \<le> 122 then c - 32 else c)"
  using assms by (auto simp: ToUpperFast_def tchar_ok_def word_le_nat_alt)

lemma and_and_exp:
  fixes x y :: "'c::len word"
  shows "x AND y AND 2 ^ m = (if bit x m \<and> bit y m then 2 ^ m else 0)"
  by (rule bit_eqI) (auto simp: bit_and_iff bit_exp_iff)

text \<open>The mark \<open>IsLower\<close> of one lane.\<close>

lemma lower_mark_lane:
  fixes c :: "'c::len word"
  assumes ok: "tchar_ok TYPE('c)" and ascii: "unat c < 128"
  defines "H \<equiv> 2 ^ (LENGTH('c) - 1) :: nat"
  shows "(c + word_of_nat (H - 97)) AND (word_of_nat (H + 122) - c) AND word_of_nat H =
     (if 97 \<le> unat c \<and> unat c \<le> 122 then 2 ^ (LENGTH('c) - 1) else 0)"
proof -
  let ?n = "LENGTH('c)"
  have n: "?n = 8 \<or> ?n = 16"
    using ok by (simp add: tchar_ok_def)
  have "unat (c + word_of_nat (H - 97)) = unat c + (H - 97)"
    using n ascii by (auto simp: unat_word_ariths H_def unsigned_of_nat take_bit_nat_eq_self)
  then have a: "bit (c + word_of_nat (H - 97)) (?n - 1) \<longleftrightarrow> 97 \<le> unat c"
    using n unfolding bit_top_iff by (auto simp: H_def)
  have "unat (word_of_nat (H + 122) - c) = H + 122 - unat c"
    using n ascii by (auto simp: unat_sub_if' H_def unsigned_of_nat take_bit_nat_eq_self)
  then have b: "bit (word_of_nat (H + 122) - c) (?n - 1) \<longleftrightarrow> unat c \<le> 122"
    using n unfolding bit_top_iff by (auto simp: H_def)
  have "word_of_nat H = (2 ^ (?n - 1) :: 'c word)"
    by (simp add: H_def)
  then show ?thesis
    using a b by (simp only: and_and_exp)
qed

lemma shifted_index:
  fixes i d n :: nat
  assumes "i mod n + d < n"
  shows "(d + i) div n = i div n" "(d + i) mod n = d + i mod n"
proof -
  have eq: "d + i = (d + i mod n) + n * (i div n)"
    by simp
  show "(d + i) div n = i div n"
    using assms by (subst eq, subst div_mult_self2) simp_all
  show "(d + i) mod n = d + i mod n"
    using assms by (subst eq, subst mod_mult_self2) simp
qed

lemma shifted_marks:
  fixes ls :: "'c::len word list"
  assumes marks: "\<forall>l \<in> set ls. l = 0 \<or> l = 2 ^ (LENGTH('c) - 1)"
    and d: "d < LENGTH('c)" and len: "length ls * LENGTH('c) \<le> 64"
  shows "drop_bit d (block_of ls) AND block_of (replicate (length ls) (2 ^ (LENGTH('c) - 1 - d) :: 'c word)) =
     block_of (map (drop_bit d) ls)"
proof (rule bit_eqI)
  fix i
  let ?n = "LENGTH('c)" and ?j = "i div LENGTH('c)"
  have rep: "bit (block_of (replicate (length ls) (2 ^ (?n - 1 - d) :: 'c word))) i \<longleftrightarrow>
      i < 64 \<and> ?j < length ls \<and> i mod ?n = ?n - 1 - d"
    using d by (auto simp: bit_block_of bit_exp_iff)
  have rhs: "bit (block_of (map (drop_bit d) ls)) i \<longleftrightarrow>
      i < 64 \<and> ?j < length ls \<and> bit (ls ! ?j) (d + i mod ?n)"
    by (auto simp: bit_block_of bit_drop_bit_eq)
  show "bit (drop_bit d (block_of ls) AND block_of (replicate (length ls) (2 ^ (?n - 1 - d) :: 'c word))) i =
      bit (block_of (map (drop_bit d) ls)) i"
  proof (cases "i < 64 \<and> ?j < length ls")
    case False
    then show ?thesis
      unfolding bit_and_iff rep rhs by blast
  next
    case True
    then have lane: "ls ! ?j = 0 \<or> ls ! ?j = 2 ^ (?n - 1)"
      using marks by (simp add: all_set_conv_all_nth)
    show ?thesis
    proof (cases "i mod ?n = ?n - 1 - d")
      case top: True
      then have m: "i mod ?n + d < ?n"
        using d by simp
      have "d + i < Suc ?j * ?n"
        using m div_mult_mod_eq [of i ?n] by (simp only: mult_Suc)
      also have "\<dots> \<le> length ls * ?n"
        using True by (intro mult_le_mono1) simp
      finally have "d + i < 64"
        using len by linarith
      then have "bit (block_of ls) (d + i) \<longleftrightarrow> bit (ls ! ?j) (d + i mod ?n)"
        using True by (simp add: bit_block_of shifted_index [OF m])
      then show ?thesis
        using True top unfolding bit_and_iff rep rhs bit_drop_bit_eq o_def by blast
    next
      case False
      then have "d + i mod ?n \<noteq> ?n - 1"
        by auto
      then have "\<not> bit (ls ! ?j) (d + i mod ?n)"
        using lane by (auto simp: bit_exp_iff)
      with False show ?thesis
        unfolding bit_and_iff rep rhs by blast
    qed
  qed
qed

lemma block_of_and_map:
  "block_of (map f cs) AND block_of (map g cs) = block_of (map (\<lambda>c. f c AND g c) cs)"
  by (simp add: block_of_and map2_map_map)

lemma block_of_and_replicate:
  "length cs = k \<Longrightarrow>
     block_of (map f cs) AND block_of (replicate k m) = block_of (map (\<lambda>c. f c AND m) cs)"
  by (simp add: block_of_and zip_replicate2 o_def)

text \<open>The two width-dependent constants of \<open>ToUpperSWAR\<close> as broadcasts.\<close>

definition fold_shift :: "'c::len itself \<Rightarrow> nat" where
  "fold_shift _ = (if LENGTH('c) = 8 then 2 else 10)"

lemma ToUpperSWAR_lanes:
  fixes w :: u64
  assumes ok: "tchar_ok TYPE('c::len)"
  defines "B \<equiv> \<lambda>v. block_of (replicate (chars_per_block TYPE('c)) (word_of_nat v :: 'c word))"
    and "H \<equiv> 2 ^ (LENGTH('c) - 1) :: nat"
  shows "ToUpperSWAR TYPE('c) w =
     w - (drop_bit (fold_shift TYPE('c))
            ((w + B (H - 97)) AND (B (H + 122) - w) AND B H) AND B 32)"
  using ok broadcast_nat [OF ok, of "H - 97"] broadcast_nat [OF ok, of "H + 122"]
    broadcast_nat [OF ok, of H] broadcast_nat [OF ok, of 32]
  by (auto simp: tchar_ok_def ToUpperSWAR_def fold_shift_def B_def H_def kLowBits_def)

theorem ToUpperSWAR_block:
  fixes cs :: "'c::len word list"
  assumes ok: "tchar_ok TYPE('c)" and len: "length cs = chars_per_block TYPE('c)"
    and ascii: "\<forall>c \<in> set cs. unat c < 128"
  shows "ToUpperSWAR TYPE('c) (block_of cs) = block_of (map (ToUpperFast up) cs)"
proof -
  let ?n = "LENGTH('c)" and ?k = "chars_per_block TYPE('c)"
  let ?R = "\<lambda>v. replicate ?k (word_of_nat v :: 'c word)"
  let ?H = "2 ^ (?n - 1) :: nat"
  define marks where "marks = map (\<lambda>c :: 'c word. if 97 \<le> unat c \<and> unat c \<le> 122 then 2 ^ (?n - 1) else 0 :: 'c word) cs"
  have n: "?n = 8 \<or> ?n = 16"
    using ok by (simp add: tchar_ok_def)
  have add: "block_of cs + block_of (?R (?H - 97)) = block_of (map (\<lambda>c. c + word_of_nat (?H - 97)) cs)"
  proof -
    have "unat (cs ! i) + unat (word_of_nat (?H - 97) :: 'c word) < 2 ^ ?n" if "i < length cs" for i
      using n ascii nth_mem [OF that] by (auto simp: unsigned_of_nat take_bit_nat_eq_self)
    then show ?thesis
      using len by (subst block_of_add) (simp_all add: zip_replicate2 o_def)
  qed
  have sub: "block_of (?R (?H + 122)) - block_of cs = block_of (map (\<lambda>c. word_of_nat (?H + 122) - c) cs)"
  proof -
    have "cs ! i \<le> word_of_nat (?H + 122)" if "i < length cs" for i
      using n ascii nth_mem [OF that] by (auto simp: word_le_nat_alt unsigned_of_nat take_bit_nat_eq_self)
    then show ?thesis
      using len by (subst block_of_diff) (simp_all add: zip_replicate1 o_def)
  qed
  have "(block_of cs + block_of (?R (?H - 97))) AND (block_of (?R (?H + 122)) - block_of cs) AND block_of (?R ?H)
      = block_of (map (\<lambda>c. (c + word_of_nat (?H - 97)) AND (word_of_nat (?H + 122) - c) AND word_of_nat ?H) cs)"
    unfolding add sub block_of_and_replicate [OF len] block_of_and_map ..
  also have "\<dots> = block_of marks"
    unfolding marks_def using lower_mark_lane [OF ok] ascii
    by (intro arg_cong [of _ _ block_of] map_cong refl) blast
  finally have lower: "(block_of cs + block_of (?R (?H - 97))) AND (block_of (?R (?H + 122)) - block_of cs) AND
      block_of (?R ?H) = block_of marks" .
  have "?n - 1 - fold_shift TYPE('c) = 5" and d: "fold_shift TYPE('c) < ?n"
    using n by (auto simp: fold_shift_def)
  then have R32: "?R 32 = replicate (length marks) (2 ^ (?n - 1 - fold_shift TYPE('c)))"
    using len by (simp add: marks_def)
  have shift: "drop_bit (fold_shift TYPE('c)) (block_of marks) AND block_of (?R 32) =
      block_of (map (drop_bit (fold_shift TYPE('c))) marks)"
    unfolding R32
  proof (rule shifted_marks [OF _ d])
    show "\<forall>l \<in> set marks. l = 0 \<or> l = 2 ^ (?n - 1)"
      by (auto simp: marks_def)
    show "length marks * ?n \<le> 64"
      using len chars_per_block_mult [OF ok] by (simp add: marks_def)
  qed
  have mark: "drop_bit (fold_shift TYPE('c)) (2 ^ (?n - 1) :: 'c word) = 32"
  proof (rule bit_word_eqI)
    fix i
    assume "i < ?n"
    moreover have "bit (2 ^ 5 :: 'c word) i \<longleftrightarrow> i < ?n \<and> i = 5"
      by (auto simp only: bit_exp_iff possible_bit_word)
    then have "bit (32 :: 'c word) i \<longleftrightarrow> i < ?n \<and> i = 5"
      by simp
    ultimately show "bit (drop_bit (fold_shift TYPE('c)) (2 ^ (?n - 1) :: 'c word)) i = bit (32 :: 'c word) i"
      using n by (auto simp: bit_drop_bit_eq bit_exp_iff fold_shift_def)
  qed
  note mark' = mark [unfolded One_nat_def]
  have fold: "c - drop_bit (fold_shift TYPE('c)) (if 97 \<le> unat c \<and> unat c \<le> 122 then 2 ^ (?n - 1) else 0)
      = ToUpperFast up c" if "c \<in> set cs" for c
    using that ascii by (simp add: ToUpperFast_ascii [OF ok] mark')
  have "drop_bit (fold_shift TYPE('c)) (marks ! i) \<le> cs ! i" if "i < length cs" for i
    using that n by (auto simp: marks_def mark' word_le_nat_alt)
  then have "block_of cs - block_of (map (drop_bit (fold_shift TYPE('c))) marks) =
      block_of (map2 (-) cs (map (drop_bit (fold_shift TYPE('c))) marks))"
    by (intro block_of_diff) (simp_all add: marks_def)
  also have "map2 (-) cs (map (drop_bit (fold_shift TYPE('c))) marks) = map (ToUpperFast up) cs"
    using fold by (simp add: marks_def list_eq_iff_nth_eq)
  finally show ?thesis
    unfolding ToUpperSWAR_lanes [OF ok] lower shift .
qed

section \<open>The block hash\<close>

text \<open>
  The reference: the text is consumed block by block, a shorter rest is zero-extended to a
  block of its own, and every block is mixed into the state.
\<close>

function block_hash :: "u64 \<Rightarrow> 'c::len word list \<Rightarrow> u64" where
  "block_hash h cs =
     (if 0 < chars_per_block TYPE('c) \<and> chars_per_block TYPE('c) \<le> length cs
      then block_hash (Mix64 (h XOR block_of (take (chars_per_block TYPE('c)) cs)))
             (drop (chars_per_block TYPE('c)) cs)
      else if cs = [] then h else Mix64 (h XOR block_of cs))"
  by pat_completeness auto
termination by (relation "measure (\<lambda>(_, cs). length cs)") auto

declare block_hash.simps [simp del]

lemma or_tail_eq:
  fixes cs :: "'c::len word list"
  assumes "n \<le> length cs" "j \<le> n"
  shows "or_tail cs j n (block_of (take j cs)) = Some (block_of (take n cs))"
  using assms(2)
proof (induction "n - j" arbitrary: j)
  case 0
  then show ?case by (simp add: or_tail.simps)
next
  case (Suc m)
  then have j: "j < n" and m: "m = n - Suc j" by linarith+
  have "block_of (take j cs) OR push_bit (j * LENGTH('c)) (ucast (cs ! j)) = block_of (take (Suc j) cs)"
  proof (rule bit_eqI)
    fix i
    show "bit (block_of (take j cs) OR push_bit (j * LENGTH('c)) (ucast (cs ! j))) i =
        bit (block_of (take (Suc j) cs)) i"
    proof (cases "i div LENGTH('c) = j")
      case True
      then have "j * LENGTH('c) \<le> i" "i - j * LENGTH('c) = i mod LENGTH('c)"
        by (auto simp flip: minus_div_mult_eq_mod)
      then show ?thesis
        using True j assms(1) by (auto simp: bit_or_iff bit_push_bit_iff bit_unsigned_iff bit_block_of)
    next
      case False
      then have "\<not> (j * LENGTH('c) \<le> i \<and> i - j * LENGTH('c) < LENGTH('c))"
        by (metis add_diff_inverse_nat add_mult_distrib2 div_mult_self3 div_less len_gt_0 less_not_refl2 linorder_not_less add.right_neutral)
      then show ?thesis
        using False j assms(1)
        by (auto simp: bit_or_iff bit_push_bit_iff bit_unsigned_iff bit_block_of nth_take less_Suc_eq
            dest: bit_imp_le_length)
    qed
  qed
  moreover have "or_tail cs (Suc j) n (block_of (take (Suc j) cs)) = Some (block_of (take n cs))"
    using Suc.hyps(1) [OF m] j by simp
  ultimately show ?case
    using j assms(1) by (subst or_tail.simps) (simp add: CharToUint64_def)
qed

lemma block_hash_Nil [simp]: "block_hash h [] = h"
  by (subst block_hash.simps) auto

lemma block_hash_short:
  "0 < length cs \<Longrightarrow> length cs < chars_per_block TYPE('c) \<Longrightarrow>
     block_hash h (cs :: 'c::len word list) = Mix64 (h XOR block_of cs)"
  by (subst block_hash.simps) auto

lemma block_hash_step:
  assumes "tchar_ok TYPE('c::len)" "length b = chars_per_block TYPE('c)"
  shows "block_hash h (b @ cs :: 'c word list) = block_hash (Mix64 (h XOR block_of b)) cs"
  using assms chars_per_block_pos [OF assms(1)] by (subst block_hash.simps) simp

lemma block_hash_append:
  fixes xs ys :: "'c::len word list"
  assumes ok: "tchar_ok TYPE('c)" and len: "length xs = m * chars_per_block TYPE('c)"
  shows "block_hash h (xs @ ys) = block_hash (block_hash h xs) ys"
  using len
proof (induction m arbitrary: h xs)
  case 0
  then show ?case by simp
next
  case (Suc m)
  let ?k = "chars_per_block TYPE('c)"
  have b: "length (take ?k xs) = ?k" and r: "length (drop ?k xs) = m * ?k"
    using Suc.prems by simp_all
  have xs: "xs = take ?k xs @ drop ?k xs"
    by simp
  show ?case
    using Suc.IH [OF r] block_hash_step [OF ok b]
    by (metis append.assoc xs)
qed

lemma hash_chunks_eq:
  fixes s :: "'c::len word list"
  assumes ok: "tchar_ok TYPE('c)" and fits: "m * chars_per_block TYPE('c) \<le> length s" and "i \<le> m"
  shows "hash_chunks s i m h =
     Some (block_hash h (take ((m - i) * chars_per_block TYPE('c)) (drop (i * chars_per_block TYPE('c)) s)))"
  using assms(3)
proof (induction "m - i" arbitrary: i h)
  case 0
  then show ?case by (simp add: hash_chunks.simps)
next
  case (Suc d)
  let ?k = "chars_per_block TYPE('c)"
  have i: "i < m" and d: "d = m - Suc i"
    using Suc.hyps(2) by linarith+
  have "Suc i * ?k \<le> m * ?k"
    using i by (intro mult_le_mono1) simp
  then have room: "i * ?k + ?k \<le> length s"
    using fits by simp
  have load: "load64 s (i * ?k) = Some (block_of (take ?k (drop (i * ?k) s)))"
    using room by (simp add: load64_def)
  have split: "take ((m - i) * ?k) (drop (i * ?k) s) =
      take ?k (drop (i * ?k) s) @ take ((m - Suc i) * ?k) (drop (Suc i * ?k) s)"
  proof -
    have "(m - i) * ?k = ?k + (m - Suc i) * ?k"
      using i by (simp add: Suc_diff_Suc [symmetric])
    then show ?thesis
      by (simp add: take_add add.commute)
  qed
  have "hash_chunks s (Suc i) m (Mix64 (h XOR block_of (take ?k (drop (i * ?k) s)))) =
      Some (block_hash h (take ((m - i) * ?k) (drop (i * ?k) s)))"
    using Suc.hyps(1) [OF d] i room by (simp add: split block_hash_step [OF ok])
  then show ?case
    using i load by (subst hash_chunks.simps) simp
qed

text \<open>\<open>CalculateHash\<close> stays inside the buffer and computes the block hash.\<close>

theorem CalculateHash_eq:
  fixes s :: "'c::len word list"
  assumes ok: "tchar_ok TYPE('c)" and n: "n \<le> length s"
  shows "CalculateHash s n h = Some (block_hash h (take n s))"
proof -
  let ?k = "chars_per_block TYPE('c)"
  let ?m = "n div ?k"
  have chunks: "(n * (LENGTH('c) div 8)) div 8 = ?m"
    using ok by (auto simp: tchar_ok_def chars_per_block_def)
  have k: "0 < ?k"
    by (rule chars_per_block_pos [OF ok])
  have le: "?m * ?k \<le> n"
    by simp
  then have fits: "?m * ?k \<le> length s"
    using n by linarith
  have head: "hash_chunks s 0 ?m h = Some (block_hash h (take (?m * ?k) s))"
    using hash_chunks_eq [OF ok fits, of 0] by simp
  have rest: "n - ?m * ?k < ?k"
    using k by (simp add: minus_div_mult_eq_mod)
  have "take n s = take (?m * ?k) s @ take (n - ?m * ?k) (drop (?m * ?k) s)"
    using le by (metis le_add_diff_inverse take_add)
  moreover have "length (take (?m * ?k) s) = ?m * ?k"
    using fits by simp
  ultimately have split: "block_hash h (take n s) =
      block_hash (block_hash h (take (?m * ?k) s)) (take (n - ?m * ?k) (drop (?m * ?k) s))"
    using block_hash_append [OF ok] by metis
  have tail: "or_tail (drop (?m * ?k) s) 0 (n - ?m * ?k) 0 = Some (block_of (take (n - ?m * ?k) (drop (?m * ?k) s)))"
    using or_tail_eq [of "n - ?m * ?k" "drop (?m * ?k) s" 0] n by simp
  show ?thesis
  proof (cases "n - ?m * ?k = 0")
    case True
    then show ?thesis
      using split head by (simp add: CalculateHash_def Let_def chunks)
  next
    case False
    then have "block_hash h' (take (n - ?m * ?k) (drop (?m * ?k) s)) =
        Mix64 (h' XOR block_of (take (n - ?m * ?k) (drop (?m * ?k) s)))" for h'
      using n rest by (intro block_hash_short) simp_all
    with False show ?thesis
      using split head tail by (simp add: CalculateHash_def Let_def chunks)
  qed
qed

section \<open>The portable 128-bit fold\<close>

text \<open>
  Writing the state as \<open>AL + 2^32 AH\<close> and the prime as \<open>BL + 2^32 BH\<close>, the fallback's
  \<open>lower\<close> and \<open>upper\<close> are the halves of the full product.
\<close>

lemma unat_high32: "unat (drop_bit 32 w :: u64) = unat w div 2 ^ 32"
proof -
  have "take_bit 64 (unat w) = unat w"
    using unsigned_less [of w] by (simp add: take_bit_nat_eq_self_iff)
  then show ?thesis
    unfolding unsigned_drop_bit_eq by (simp add: drop_bit_eq_div)
qed

lemma split32: "unat (w :: u64) = unat (ucast w :: u32) + 2 ^ 32 * unat (ucast (drop_bit 32 w) :: u32)"
proof -
  have "unat w < 2 ^ LENGTH(64)"
    by (rule unsigned_less)
  then have "unat w div 2 ^ 32 < 2 ^ 32"
    by (simp add: less_mult_imp_div_less)
  then show ?thesis
    by (simp add: unsigned_ucast_eq take_bit_eq_mod unat_high32 del: unsigned_drop_bit_eq)
qed

lemma unat_u32_less: "unat (a :: u32) \<le> 2 ^ 32 - 1"
proof -
  have "unat a < 2 ^ LENGTH(32)"
    by (rule unsigned_less)
  then show ?thesis by simp
qed

lemma unat_emulu: "unat (emulu a b) = unat a * unat b"
proof -
  have "unat a * unat b \<le> (2 ^ 32 - 1) * (2 ^ 32 - 1)"
    by (intro mult_le_mono unat_u32_less)
  then have "unat a * unat b < 2 ^ 64"
    by simp
  moreover have "unat (ucast x :: u64) = unat x" for x :: u32
    using unat_u32_less [of x] by (simp add: unsigned_ucast_eq take_bit_nat_eq_self)
  ultimately show ?thesis
    by (simp add: emulu_def unat_word_ariths)
qed

lemma unat_low32: "unat (ucast (w :: u64) :: u32) = unat w mod 2 ^ 32"
  by (simp add: unsigned_ucast_eq take_bit_eq_mod)

lemma unat_widen32: "unat (ucast (x :: u32) :: u64) = unat x"
  using unat_u32_less [of x] by (simp add: unsigned_ucast_eq take_bit_nat_eq_self)

lemma high32_nat: "drop_bit 32 (w :: u64) = word_of_nat (unat w div 2 ^ 32)"
  by (simp only: unat_high32 [symmetric] of_nat_unat ucast_id)

lemma low32_nat: "(ucast (ucast (w :: u64) :: u32) :: u64) = word_of_nat (unat w mod 2 ^ 32)"
  by (simp only: unat_low32 [symmetric] unat_widen32 [symmetric] of_nat_unat ucast_id)

text \<open>The schoolbook product in base \<open>2^32\<close>, on natural numbers.\<close>

lemma schoolbook_expand:
  fixes M :: nat
  shows "(al + M * ah) * (bl + M * bh) = al * bl + M * (ah * bl) + M * (al * bh) + M * M * (ah * bh)"
    and "(r1 + M * p1) + M * (r2 + M * p2) + M * (r3 + M * p3) + M * M * x =
      r1 + M * (p1 + r2 + r3) + M * M * (p2 + p3 + x)"
    and "r + M * (cm + M * cd) + M * M * (p2 + p3 + x) = (r + M * cm) + M * M * (p2 + p3 + cd + x)"
  by (simp_all add: algebra_simps)

lemma schoolbook:
  fixes al ah bl bh M :: nat
  defines "c \<equiv> al * bl div M + ah * bl mod M + al * bh mod M"
  shows "(al + M * ah) * (bl + M * bh) =
     (al * bl mod M + M * (c mod M)) + M * M * (ah * bl div M + al * bh div M + c div M + ah * bh)"
proof -
  have "(al + M * ah) * (bl + M * bh) = (al * bl mod M + M * (al * bl div M)) +
      M * (ah * bl mod M + M * (ah * bl div M)) + M * (al * bh mod M + M * (al * bh div M)) + M * M * (ah * bh)"
    unfolding mod_mult_div_eq by (rule schoolbook_expand)
  also have "\<dots> = al * bl mod M + M * c + M * M * (ah * bl div M + al * bh div M + ah * bh)"
    unfolding c_def by (rule schoolbook_expand)
  also have "M * c = M * (c mod M + M * (c div M))"
    unfolding mod_mult_div_eq ..
  finally show ?thesis
    unfolding schoolbook_expand(3) .
qed

theorem Mix64_fallback_eq: "Mix64_fallback w = Mix64 w"
proof -
  define al ah bl bh where "al = unat (ucast w :: u32)" and "ah = unat (ucast (drop_bit 32 w) :: u32)"
    and "bl = unat (ucast kPrime :: u32)" and "bh = unat (ucast (drop_bit 32 kPrime) :: u32)"
  note defs = al_def ah_def bl_def bh_def
  let ?M = "2 ^ 32 :: nat"
  define c where "c = al * bl div ?M + ah * bl mod ?M + al * bh mod ?M"
  define lo hi where "lo = al * bl mod ?M + ?M * (c mod ?M)"
    and "hi = ah * bl div ?M + al * bh div ?M + c div ?M + ah * bh"
  let ?LL = "emulu (ucast w) (ucast kPrime)" and ?HL = "emulu (ucast (drop_bit 32 w)) (ucast kPrime)"
    and ?LH = "emulu (ucast w) (ucast (drop_bit 32 kPrime))"
    and ?HH = "emulu (ucast (drop_bit 32 w)) (ucast (drop_bit 32 kPrime))"
  have e: "unat ?LL = al * bl" "unat ?HL = ah * bl" "unat ?LH = al * bh" "unat ?HH = ah * bh"
    by (simp_all only: unat_emulu defs)
  have prod: "unat w * unat kPrime = lo + 2 ^ 64 * hi"
  proof -
    have "unat w * unat kPrime = (al + ?M * ah) * (bl + ?M * bh)"
      by (simp only: defs flip: split32)
    also have "\<dots> = lo + ?M * ?M * hi"
      by (simp only: schoolbook lo_def hi_def c_def)
    finally show ?thesis by simp
  qed
  have lo: "lo < 2 ^ 64"
  proof -
    have "al * bl mod ?M \<le> ?M - 1" "c mod ?M \<le> ?M - 1"
      by simp_all
    then show ?thesis unfolding lo_def by simp
  qed
  have "c \<le> 3 * ?M"
  proof -
    have "al * bl < ?M * ?M"
      unfolding defs by (intro mult_strict_mono) (use unat_u32_less in \<open>simp_all add: less_Suc_eq_le [symmetric]\<close>)
    then have "al * bl div ?M < ?M"
      by (rule less_mult_imp_div_less)
    moreover have "ah * bl mod ?M < ?M" "al * bh mod ?M < ?M"
      by simp_all
    ultimately show ?thesis unfolding c_def by linarith
  qed
  then have uc: "unat (word_of_nat c :: u64) = c"
    by (simp add: unsigned_of_nat take_bit_nat_eq_self)
  have cross: "drop_bit 32 ?LL + ucast (ucast ?HL :: u32) + ucast (ucast ?LH :: u32) = (word_of_nat c :: u64)"
    by (simp only: c_def of_nat_add high32_nat [of ?LL] low32_nat [of ?HL] low32_nat [of ?LH] e)
  have upper: "drop_bit 32 ?HL + drop_bit 32 ?LH + drop_bit 32 (word_of_nat c :: u64) + ?HH = (word_of_nat hi :: u64)"
  proof -
    have "?HH = word_of_nat (ah * bh)"
      by (simp only: e(4) [symmetric] of_nat_unat ucast_id)
    then show ?thesis
      by (simp only: hi_def of_nat_add high32_nat [of ?HL] high32_nat [of ?LH] high32_nat [of "word_of_nat c"] e uc)
  qed
  have lower: "push_bit 32 (word_of_nat c) OR ucast (ucast ?LL :: u32) = (word_of_nat lo :: u64)"
  proof -
    have "push_bit 32 (word_of_nat c) AND ucast (ucast ?LL :: u32) = (0 :: u64)"
      by (rule bit_eqI) (auto simp: bit_and_iff bit_push_bit_iff bit_unsigned_iff dest: bit_imp_le_length)
    then have "push_bit 32 (word_of_nat c) OR ucast (ucast ?LL :: u32) =
        (push_bit 32 (word_of_nat c) + ucast (ucast ?LL :: u32) :: u64)"
      by (simp add: disjunctive_add_eq_or)
    also have "\<dots> = word_of_nat (c * ?M + al * bl mod ?M)"
      by (simp only: push_bit_eq_mult low32_nat e of_nat_add of_nat_mult) simp
    also have "c * ?M + al * bl mod ?M = lo + 2 ^ 64 * (c div ?M)"
    proof -
      have "c * ?M = ?M * (c mod ?M + ?M * (c div ?M))"
        unfolding mod_mult_div_eq by (rule mult.commute)
      then show ?thesis
        unfolding lo_def by (simp only: distrib_left) simp
    qed
    also have "(word_of_nat (lo + 2 ^ 64 * (c div ?M)) :: u64) = word_of_nat lo"
      unfolding word_of_nat_eq_iff take_bit_eq_mod by simp
    finally show ?thesis .
  qed
  have "(word_of_nat (unat w * unat kPrime) :: u64) = word_of_nat lo"
    unfolding prod word_of_nat_eq_iff take_bit_eq_mod by simp
  moreover have "unat w * unat kPrime div 2 ^ 64 = hi"
    unfolding prod using lo by simp
  ultimately have "Mix64 w = word_of_nat lo XOR word_of_nat hi"
    by (simp add: Mix64_def umul128_def)
  then show ?thesis
    unfolding Mix64_fallback_def Let_def cross upper lower by simp
qed

end
