(* ===== verification/Glob.thy ===== *)
theory Glob
  imports Main
begin

text \<open>
  The meaning of a pattern: a list of tokens, matched against a text. This is the abstract
  specification the wildcard state machine, the literal comparisons and the whole engine are
  proved against. It is parametric in how a literal fits a character (exact or case-folded)
  and in which characters a wildcard may not absorb (path separators under
  SCOPE_PATH_SEGMENT, none otherwise).
\<close>

section \<open>Tokens and matching\<close>

datatype 'p tok = TStar | TAny | TLit 'p

fun gmatch :: "('p \<Rightarrow> 'c \<Rightarrow> bool) \<Rightarrow> ('c \<Rightarrow> bool) \<Rightarrow> 'p tok list \<Rightarrow> 'c list \<Rightarrow> bool" where
  "gmatch fits blocked [] ts \<longleftrightarrow> ts = []"
| "gmatch fits blocked (TLit p # ps) [] \<longleftrightarrow> False"
| "gmatch fits blocked (TLit p # ps) (t # ts) \<longleftrightarrow> fits p t \<and> gmatch fits blocked ps ts"
| "gmatch fits blocked (TAny # ps) [] \<longleftrightarrow> False"
| "gmatch fits blocked (TAny # ps) (t # ts) \<longleftrightarrow> \<not> blocked t \<and> gmatch fits blocked ps ts"
| "gmatch fits blocked (TStar # ps) [] \<longleftrightarrow> gmatch fits blocked ps []"
| "gmatch fits blocked (TStar # ps) (t # ts) \<longleftrightarrow>
     gmatch fits blocked ps (t # ts) \<or> \<not> blocked t \<and> gmatch fits blocked (TStar # ps) ts"

text \<open>The number of characters a pattern consumes at least.\<close>

fun min_len :: "'p tok list \<Rightarrow> nat" where
  "min_len [] = 0"
| "min_len (TStar # ps) = min_len ps"
| "min_len (TAny # ps) = Suc (min_len ps)"
| "min_len (TLit p # ps) = Suc (min_len ps)"

lemma min_len_append [simp]: "min_len (xs @ ys) = min_len xs + min_len ys"
  by (induction xs rule: min_len.induct) simp_all

lemma min_len_le_length: "min_len xs \<le> length xs"
  by (induction xs rule: min_len.induct) simp_all

lemma min_len_lits [simp]: "min_len (map TLit xs) = length xs"
  by (induction xs) simp_all

lemma gmatch_min_len: "gmatch f b ps ts \<Longrightarrow> min_len ps \<le> length ts"
  by (induction f b ps ts rule: gmatch.induct) auto

lemma gmatch_too_short: "length ts < min_len ps \<Longrightarrow> \<not> gmatch f b ps ts"
  using gmatch_min_len by fastforce

lemma gmatch_Nil_iff: "gmatch f b ps [] \<longleftrightarrow> set ps \<subseteq> {TStar}"
proof (induction ps)
  case Nil
  then show ?case by simp
next
  case (Cons q qs)
  then show ?case by (cases q) auto
qed

lemma min_len_0_iff: "min_len ps = 0 \<longleftrightarrow> set ps \<subseteq> {TStar}"
  by (induction ps rule: min_len.induct) auto

lemma gmatch_only_star: "gmatch f b [TStar] ts \<longleftrightarrow> list_all (\<lambda>t. \<not> b t) ts"
  by (induction ts) auto

text \<open>A star absorbs a stretch of characters that are not blocked.\<close>

lemma gmatch_star:
  "gmatch f b (TStar # ps) ts \<longleftrightarrow>
     (\<exists>i\<le>length ts. (\<forall>k<i. \<not> b (ts ! k)) \<and> gmatch f b ps (drop i ts))"
proof (induction ts)
  case Nil
  then show ?case by simp
next
  case (Cons t ts)
  show ?case
  proof
    assume "gmatch f b (TStar # ps) (t # ts)"
    then consider "gmatch f b ps (t # ts)" | "\<not> b t" "gmatch f b (TStar # ps) ts"
      by auto
    then show "\<exists>i\<le>length (t # ts). (\<forall>k<i. \<not> b ((t # ts) ! k)) \<and> gmatch f b ps (drop i (t # ts))"
    proof cases
      case 1
      then show ?thesis by (intro exI [of _ 0]) simp
    next
      case 2
      then obtain i where "i \<le> length ts" "\<forall>k<i. \<not> b (ts ! k)" "gmatch f b ps (drop i ts)"
        using Cons.IH by auto
      with 2 show ?thesis
        by (intro exI [of _ "Suc i"]) (auto simp: less_Suc_eq_0_disj)
    qed
  next
    assume "\<exists>i\<le>length (t # ts). (\<forall>k<i. \<not> b ((t # ts) ! k)) \<and> gmatch f b ps (drop i (t # ts))"
    then obtain i where i: "i \<le> Suc (length ts)" "\<forall>k<i. \<not> b ((t # ts) ! k)"
        "gmatch f b ps (drop i (t # ts))"
      by auto
    show "gmatch f b (TStar # ps) (t # ts)"
    proof (cases i)
      case 0
      with i show ?thesis by simp
    next
      case (Suc j)
      then have "gmatch f b (TStar # ps) ts"
        using i Cons.IH by (auto intro!: exI [of _ j])
      then show ?thesis
        using i Suc by force
    qed
  qed
qed

lemma gmatch_star_star: "gmatch f b (TStar # TStar # ps) ts \<longleftrightarrow> gmatch f b (TStar # ps) ts"
  by (induction ts) auto

lemma gmatch_stars: "gmatch f b (TStar # replicate k TStar @ ps) ts \<longleftrightarrow> gmatch f b (TStar # ps) ts"
  by (induction k) (simp_all add: gmatch_star_star)

lemma min_len_stars [simp]: "min_len (replicate k TStar) = 0"
  by (induction k) simp_all

text \<open>Every literal of a matched pattern occurs in the text.\<close>

lemma gmatch_lit_occurs: "gmatch f b ps ts \<Longrightarrow> TLit p \<in> set ps \<Longrightarrow> \<exists>t \<in> set ts. f p t"
  by (induction f b ps ts rule: gmatch.induct) auto

text \<open>Renaming the literals of a pattern.\<close>

lemma gmatch_map_tok: "gmatch f b (map (map_tok g) ps) ts \<longleftrightarrow> gmatch (\<lambda>p. f (g p)) b ps ts"
  by (induction "\<lambda>p. f (g p)" b ps ts rule: gmatch.induct) simp_all

lemma min_len_map_tok [simp]: "min_len (map (map_tok g) ps) = min_len ps"
  by (induction ps rule: min_len.induct) simp_all

section \<open>Star-free chunks\<close>

fun tok_fits :: "('p \<Rightarrow> 'c \<Rightarrow> bool) \<Rightarrow> ('c \<Rightarrow> bool) \<Rightarrow> 'p tok \<Rightarrow> 'c \<Rightarrow> bool" where
  "tok_fits fits blocked TStar t \<longleftrightarrow> False"
| "tok_fits fits blocked TAny t \<longleftrightarrow> \<not> blocked t"
| "tok_fits fits blocked (TLit p) t \<longleftrightarrow> fits p t"

lemma gmatch_chunk:
  assumes "TStar \<notin> set ch"
  shows "gmatch f b (ch @ ps) ts \<longleftrightarrow>
     length ch \<le> length ts \<and> list_all2 (tok_fits f b) ch (take (length ch) ts) \<and>
     gmatch f b ps (drop (length ch) ts)"
  using assms
proof (induction ch arbitrary: ts)
  case Nil
  then show ?case by simp
next
  case (Cons c ch)
  then show ?case
    by (cases ts; cases c) auto
qed

lemma gmatch_lits:
  "gmatch f b (map TLit xs @ ps) ts \<longleftrightarrow>
     length xs \<le> length ts \<and> list_all2 f xs (take (length xs) ts) \<and> gmatch f b ps (drop (length xs) ts)"
  by (subst gmatch_chunk) (auto simp: list_all2_map1)

text \<open>A trailing run of literals is matched by the end of the text.\<close>

lemma gmatch_snoc_lits:
  "gmatch f b (ps @ map TLit xs) ts \<longleftrightarrow>
     length xs \<le> length ts \<and> list_all2 f xs (drop (length ts - length xs) ts) \<and>
     gmatch f b ps (take (length ts - length xs) ts)"
proof (induction f b ps ts rule: gmatch.induct)
  case (1 f b ts)
  then show ?case
    using gmatch_lits [of f b xs "[]" ts] by (auto dest: list_all2_lengthD)
next
  case (2 f b p ps)
  then show ?case by auto
next
  case (3 f b p ps t ts)
  then show ?case
    by (cases "length xs \<le> length ts") (auto simp: Suc_diff_le dest: list_all2_lengthD)
next
  case (4 f b ps)
  then show ?case by auto
next
  case (5 f b ps t ts)
  then show ?case
    by (cases "length xs \<le> length ts") (auto simp: Suc_diff_le dest: list_all2_lengthD)
next
  case (6 f b ps)
  then show ?case by auto
next
  case (7 f b ps t ts)
  then show ?case
    by (cases "length xs \<le> length ts") (auto simp: Suc_diff_le dest: list_all2_lengthD)
qed

section \<open>The interface of an alphabet, and committing to the leftmost chunk\<close>

text \<open>
  The law an alphabet owes the matcher: a literal that fits a blocked character fits blocked
  characters only. Under it, backtracking to the last star is complete: once the chunk after
  a star has been placed at its leftmost position, no later placement can succeed where that
  one fails.
\<close>

locale glob_alphabet =
  fixes fits :: "'p \<Rightarrow> 'c \<Rightarrow> bool" and blocked :: "'c \<Rightarrow> bool"
  assumes fits_blocked: "fits p c \<Longrightarrow> blocked c \<Longrightarrow> fits p d \<Longrightarrow> blocked d"
begin

lemma tok_fits_blocked:
  "tok_fits fits blocked q c \<Longrightarrow> blocked c \<Longrightarrow> tok_fits fits blocked q d \<Longrightarrow> blocked d"
  by (cases q) (auto intro: fits_blocked)

lemma later_placement_unblocked:
  assumes left: "list_all2 (tok_fits fits blocked) ch (take (length ch) ts)"
    and later: "list_all2 (tok_fits fits blocked) ch (take (length ch) (drop i ts))"
    and free: "\<forall>k<i. \<not> blocked (ts ! k)" and i: "0 < i" "i + length ch \<le> length ts"
    and k: "k < length ch"
  shows "\<not> blocked (ts ! (i + k))"
  using k
proof (induction k rule: less_induct)
  case (less k)
  have fk: "tok_fits fits blocked (ch ! k) (ts ! k)"
    using left less.prems i by (auto simp: list_all2_conv_all_nth)
  have fik: "tok_fits fits blocked (ch ! k) (ts ! (i + k))"
    using later less.prems i by (auto simp: list_all2_conv_all_nth)
  show ?case
  proof
    assume bl: "blocked (ts ! (i + k))"
    then have bk: "blocked (ts ! k)"
      using tok_fits_blocked fk fik by blast
    then have "i \<le> k"
      using free linorder_not_le by blast
    then have "\<not> blocked (ts ! (i + (k - i)))"
      using less.IH [of "k - i"] less.prems i by simp
    with bk \<open>i \<le> k\<close> show False by simp
  qed
qed

lemma commit_leftmost:
  assumes ch: "TStar \<notin> set ch" and len: "length ch \<le> length ts"
    and left: "list_all2 (tok_fits fits blocked) ch (take (length ch) ts)"
  shows "gmatch fits blocked (TStar # ch @ TStar # ps) ts \<longleftrightarrow>
     gmatch fits blocked (TStar # ps) (drop (length ch) ts)"
proof
  assume "gmatch fits blocked (TStar # ps) (drop (length ch) ts)"
  then have "gmatch fits blocked (ch @ TStar # ps) ts"
    using gmatch_chunk [OF ch] len left by blast
  then show "gmatch fits blocked (TStar # ch @ TStar # ps) ts"
    by (cases ts) auto
next
  let ?n = "length ch"
  assume "gmatch fits blocked (TStar # ch @ TStar # ps) ts"
  then obtain i where i: "i \<le> length ts" and free: "\<forall>k<i. \<not> blocked (ts ! k)"
      and "gmatch fits blocked (ch @ TStar # ps) (drop i ts)"
    unfolding gmatch_star [of _ _ "ch @ TStar # ps"] by blast
  then have len': "i + ?n \<le> length ts"
      and later: "list_all2 (tok_fits fits blocked) ch (take ?n (drop i ts))"
      and "gmatch fits blocked (TStar # ps) (drop (i + ?n) ts)"
    using i by (auto simp: gmatch_chunk [OF ch] add.commute)
  then obtain j where j: "j \<le> length ts - (i + ?n)"
      and freej: "\<forall>k<j. \<not> blocked (ts ! (i + ?n + k))"
      and rest: "gmatch fits blocked ps (drop (i + ?n + j) ts)"
    by (auto simp: gmatch_star add.commute)
  have "\<not> blocked (ts ! (?n + k))" if k: "k < i + j" for k
  proof -
    consider "?n + k < i" | "i \<le> ?n + k" "k < i" | "i \<le> k"
      by linarith
    then show ?thesis
    proof cases
      case 1
      then show ?thesis using free by blast
    next
      case 2
      have "?n + k - i < ?n" and idx: "i + (?n + k - i) = ?n + k"
        using 2 by linarith+
      moreover have "0 < i"
        using 2 by linarith
      ultimately have "\<not> blocked (ts ! (i + (?n + k - i)))"
        using later_placement_unblocked [OF left later free] len' by blast
      then show ?thesis unfolding idx .
    next
      case 3
      then have "k - i < j" and idx: "i + ?n + (k - i) = ?n + k"
        using k by linarith+
      then have "\<not> blocked (ts ! (i + ?n + (k - i)))"
        using freej by blast
      then show ?thesis unfolding idx .
    qed
  qed
  moreover have "i + j \<le> length (drop ?n ts)"
    using j len' by simp
  moreover have "gmatch fits blocked ps (drop (i + j) (drop ?n ts))"
    using rest by (simp add: add.commute add.left_commute)
  ultimately show "gmatch fits blocked (TStar # ps) (drop ?n ts)"
    unfolding gmatch_star using len by auto
qed

end

section \<open>Looking for the next candidate\<close>

text \<open>
  The reference scan: among the first \<open>n\<close> characters, the position of the first that
  satisfies \<open>P\<close>, unless a blocked character comes before it.
\<close>

fun seek :: "('c \<Rightarrow> bool) \<Rightarrow> ('c \<Rightarrow> bool) \<Rightarrow> nat \<Rightarrow> 'c list \<Rightarrow> nat option" where
  "seek P blocked 0 ts = None"
| "seek P blocked (Suc n) [] = None"
| "seek P blocked (Suc n) (t # ts) =
     (if P t then Some 0 else if blocked t then None else map_option Suc (seek P blocked n ts))"

lemma seek_less: "seek P b n ts = Some i \<Longrightarrow> i < n \<and> i < length ts \<and> P (ts ! i)"
  by (induction P b n ts arbitrary: i rule: seek.induct) (auto split: if_splits)

lemma seek_Some_gmatch:
  "seek (fits p) b n ts = Some i \<Longrightarrow>
     gmatch fits b (TStar # TLit p # ps) ts \<longleftrightarrow> gmatch fits b (TStar # TLit p # ps) (drop i ts)"
  by (induction "fits p" b n ts arbitrary: i rule: seek.induct) (auto split: if_splits)

lemma seek_None_gmatch:
  "seek (fits p) b n ts = None \<Longrightarrow> length ts < n + Suc (min_len ps) \<Longrightarrow>
     \<not> gmatch fits b (TStar # TLit p # ps) ts"
proof (induction "fits p" b n ts rule: seek.induct)
  case (1 b ts)
  then show ?case
    by (intro gmatch_too_short) simp
next
  case (2 b n)
  then show ?case by simp
next
  case (3 b n t ts)
  then show ?case
    by (auto split: if_splits)
qed

end
