(* ===== verification/FastForward.thy ===== *)
theory FastForward
  imports CharOps Glob
begin

text \<open>
  The \<open>fastForward\<close> lambda of \<open>KmStringPatternMatch::WildCardMatch\<close>: a scan for the next
  position at which the literal after a star can match, by 64-bit blocks, by a four-way
  unrolled loop, or character by character. The theorem is that on every template
  instantiation it stays in bounds, stops, and finds what the reference scan \<open>seek\<close> finds.
\<close>

section \<open>The scans of the code\<close>

definition matchChar :: "('c::len word \<Rightarrow> 'c word) \<Rightarrow> bool \<Rightarrow> 'c word \<Rightarrow> 'c word \<Rightarrow> bool" where
  "matchChar up ci patChar strChar \<longleftrightarrow>
     (if ci then patChar = ToUpperFast up strChar else patChar = strChar)"

definition checkChar :: "('c::len word \<Rightarrow> 'c word) \<Rightarrow> bool \<Rightarrow> 'c word \<Rightarrow> 'c word \<Rightarrow> bool" where
  "checkChar up ci target c \<longleftrightarrow> (if ci then ToUpperFast up c = target else c = target)"

definition kHighBits :: "'c::len itself \<Rightarrow> u64" where
  "kHighBits _ = (if LENGTH('c) = 8 then 0x8080808080808080 else 0x8000800080008000)"

definition kSepMask :: "'c::len itself \<Rightarrow> u64" where
  "kSepMask _ = (if LENGTH('c) = 8 then 0x5C5C5C5C5C5C5C5C else 0x005C005C005C005C)"

text \<open>
  The outcome of a scan: it found the target, it met a separator the wildcard may not pass,
  or it ran out of its range and stands at the given position.
\<close>

datatype scan = Found nat | Blocked | Missed nat

text \<open>One character: \<open>checkChar(s[i])\<close>, then the separator test of the limited scope.\<close>

definition probe :: "('c::len word \<Rightarrow> 'c word) \<Rightarrow> bool \<Rightarrow> bool \<Rightarrow> 'c word \<Rightarrow> 'c word list \<Rightarrow> nat \<Rightarrow> scan option" where
  "probe up ci lim target t i =
     do { c \<leftarrow> rd t i;
          Some (if checkChar up ci target c then Found i
                else if lim \<and> IsPathSeparator c then Blocked
                else Missed (i + 1)) }"

fun found :: "scan \<Rightarrow> nat option" where
  "found (Found i) = Some i"
| "found Blocked = None"
| "found (Missed s) = None"

definition on_miss :: "scan option \<Rightarrow> (nat \<Rightarrow> scan option) \<Rightarrow> scan option" where
  "on_miss r k = do { x \<leftarrow> r; case x of Missed s \<Rightarrow> k s | _ \<Rightarrow> Some x }"

text \<open>The lanes of one folded block, against the target and the separator.\<close>

definition ff_lanes :: "'c::len itself \<Rightarrow> bool \<Rightarrow> u64 \<Rightarrow> u64 \<Rightarrow> nat \<Rightarrow> scan option" where
  "ff_lanes T lim targetMask w s =
     (let diff = w XOR targetMask;
          hasMatch = (diff - kLowBits T) AND NOT diff AND kHighBits T
      in if lim then
           let sepDiff = w XOR kSepMask T;
               hasSep = (sepDiff - kLowBits T) AND NOT sepDiff AND kHighBits T;
               combined = hasMatch OR hasSep
           in if combined = 0 then Some (Missed (s + chars_per_block T))
              else do { bitIndex \<leftarrow> BitScanForward64 combined;
                        Some (if bit_test64 hasMatch bitIndex then Found (s + bitIndex div LENGTH('c))
                              else Blocked) }
         else if hasMatch = 0 then Some (Missed (s + chars_per_block T))
         else do { bitIndex \<leftarrow> BitScanForward64 hasMatch;
                   Some (Found (s + bitIndex div LENGTH('c))) })"

text \<open>The scalar loop over a block that is not ASCII.\<close>

fun ff_fallback :: "('c::len word \<Rightarrow> 'c word) \<Rightarrow> bool \<Rightarrow> bool \<Rightarrow> 'c word \<Rightarrow> 'c word list \<Rightarrow> nat \<Rightarrow> nat \<Rightarrow> scan option" where
  "ff_fallback up ci lim target t i 0 = Some (Missed i)"
| "ff_fallback up ci lim target t i (Suc n) =
     on_miss (probe up ci lim target t i) (\<lambda>j. ff_fallback up ci lim target t j n)"

definition ff_block :: "('c::len word \<Rightarrow> 'c word) \<Rightarrow> bool \<Rightarrow> bool \<Rightarrow> 'c word \<Rightarrow> u64 \<Rightarrow> 'c word list \<Rightarrow> nat \<Rightarrow> scan option" where
  "ff_block up ci lim target targetMask t s =
     do { w \<leftarrow> load64 t s;
          if \<not> ci then ff_lanes TYPE('c) lim targetMask w s
          else if IsAsciiSWAR TYPE('c) w
          then ff_lanes TYPE('c) lim targetMask (ToUpperSWAR TYPE('c) w) s
          else ff_fallback up ci lim target t s (chars_per_block TYPE('c)) }"

partial_function (option) ff_swar ::
  "('c::len word \<Rightarrow> 'c word) \<Rightarrow> bool \<Rightarrow> bool \<Rightarrow> 'c word \<Rightarrow> u64 \<Rightarrow> 'c word list \<Rightarrow> int \<Rightarrow> nat \<Rightarrow> scan option" where
  "ff_swar up ci lim target targetMask t SearchEnd s =
     (if int (s + chars_per_block TYPE('c)) \<le> SearchEnd then
        do { r \<leftarrow> ff_block up ci lim target targetMask t s;
             case r of Missed s' \<Rightarrow> ff_swar up ci lim target targetMask t SearchEnd s'
                     | Found i \<Rightarrow> Some r | Blocked \<Rightarrow> Some r }
      else Some (Missed s))"

partial_function (option) ff_unrolled ::
  "('c::len word \<Rightarrow> 'c word) \<Rightarrow> bool \<Rightarrow> bool \<Rightarrow> 'c word \<Rightarrow> 'c word list \<Rightarrow> int \<Rightarrow> nat \<Rightarrow> scan option" where
  "ff_unrolled up ci lim target t SearchEnd s =
     (if int (s + 3) < SearchEnd then
        do { r \<leftarrow> on_miss (on_miss (on_miss (probe up ci lim target t s)
               (\<lambda>_. probe up ci lim target t (s + 1)))
               (\<lambda>_. probe up ci lim target t (s + 2)))
               (\<lambda>_. probe up ci lim target t (s + 3));
             case r of Missed _ \<Rightarrow> ff_unrolled up ci lim target t SearchEnd (s + 4)
                     | Found i \<Rightarrow> Some r | Blocked \<Rightarrow> Some r }
      else Some (Missed s))"

partial_function (option) ff_tail ::
  "('c::len word \<Rightarrow> 'c word) \<Rightarrow> bool \<Rightarrow> bool \<Rightarrow> 'c word \<Rightarrow> 'c word list \<Rightarrow> int \<Rightarrow> nat \<Rightarrow> scan option" where
  "ff_tail up ci lim target t SearchEnd s =
     (if int s < SearchEnd then
        do { r \<leftarrow> probe up ci lim target t s;
             case r of Missed s' \<Rightarrow> ff_tail up ci lim target t SearchEnd s'
                     | Found i \<Rightarrow> Some r | Blocked \<Rightarrow> Some r }
      else Some (Missed s))"

declare ff_swar.simps [code] ff_unrolled.simps [code] ff_tail.simps [code]

text \<open>
  The whole scan from position \<open>s\<close>: \<open>Some (Some s')\<close> is the code's \<open>true\<close> with the cursor at
  \<open>s'\<close>, \<open>Some None\<close> its \<open>false\<close>.
\<close>

definition fastForward ::
  "('c::len word \<Rightarrow> 'c word) \<Rightarrow> bool \<Rightarrow> bool \<Rightarrow> 'c word \<Rightarrow> u64 \<Rightarrow> 'c word list \<Rightarrow> nat \<Rightarrow> nat \<Rightarrow> nat option option" where
  "fastForward up ci lim target targetMask t remainingMinLength s =
     (let SearchEnd = int (length t) - int (sub32 remainingMinLength 1)
      in do { r \<leftarrow> on_miss
                (if LENGTH('c) = 8 \<or> ci then ff_swar up ci lim target targetMask t SearchEnd s
                 else ff_unrolled up ci lim target t SearchEnd s)
                (\<lambda>s'. ff_tail up ci lim target t SearchEnd s');
              Some (found r) })"

section \<open>The reference scan from a position\<close>

definition seek_at :: "('a \<Rightarrow> bool) \<Rightarrow> ('a \<Rightarrow> bool) \<Rightarrow> 'a list \<Rightarrow> nat \<Rightarrow> nat \<Rightarrow> nat option" where
  "seek_at P b t E s = map_option ((+) s) (seek P b (E - s) (drop s t))"

lemma seek_at_step:
  assumes "s < E" "E \<le> length t"
  shows "seek_at P b t E s =
     (if P (t ! s) then Some s else if b (t ! s) then None else seek_at P b t E (Suc s))"
proof -
  have "E - s = Suc (E - Suc s)" "drop s t = t ! s # drop (Suc s) t"
    using assms by (simp_all add: drop_Cons_nth)
  then show ?thesis
    by (auto simp: seek_at_def option.map_comp o_def intro!: option.map_cong0)
qed

lemma seek_at_end: "E \<le> s \<Longrightarrow> seek_at P b t E s = None"
  by (simp add: seek_at_def)

lemma seek_at_skip:
  assumes "s + j \<le> E" "E \<le> length t" "\<forall>i<j. \<not> P (t ! (s + i)) \<and> \<not> b (t ! (s + i))"
  shows "seek_at P b t E s = seek_at P b t E (s + j)"
  using assms
proof (induction j)
  case 0
  then show ?case by simp
next
  case (Suc j)
  then have "seek_at P b t E s = seek_at P b t E (s + j)"
    by simp
  also have "\<dots> = seek_at P b t E (s + Suc j)"
    using Suc.prems by (subst seek_at_step) auto
  finally show ?case .
qed

text \<open>What a scan outcome says about the search from where it started.\<close>

fun resolve :: "('a \<Rightarrow> bool) \<Rightarrow> ('a \<Rightarrow> bool) \<Rightarrow> 'a list \<Rightarrow> nat \<Rightarrow> scan \<Rightarrow> nat option" where
  "resolve P b t E (Found i) = Some i"
| "resolve P b t E Blocked = None"
| "resolve P b t E (Missed s) = seek_at P b t E s"

text \<open>
  \<open>scans P b t E s n r\<close>: the scan result \<open>r\<close> is defined, it settles the search from \<open>s\<close>, and
  when it found nothing the cursor has moved by \<open>n\<close>.
\<close>

definition scans :: "('a \<Rightarrow> bool) \<Rightarrow> ('a \<Rightarrow> bool) \<Rightarrow> 'a list \<Rightarrow> nat \<Rightarrow> nat \<Rightarrow> nat \<Rightarrow> scan option \<Rightarrow> bool" where
  "scans P b t E s n r \<longleftrightarrow>
     (\<exists>x. r = Some x \<and> resolve P b t E x = seek_at P b t E s \<and> (\<forall>s'. x = Missed s' \<longrightarrow> s' = s + n))"

lemma scans_on_miss:
  assumes "scans P b t E s m r" "scans P b t E (s + m) n (k (s + m))"
  shows "scans P b t E s (m + n) (on_miss r k)"
  using assms by (auto simp: scans_def on_miss_def add.assoc split: scan.split)

lemma probe_scans:
  assumes "s < E" "E \<le> length t"
  shows "scans (checkChar up ci target) (\<lambda>c. lim \<and> IsPathSeparator c) t E s 1
     (probe up ci lim target t s)"
  using assms by (auto simp: scans_def probe_def seek_at_step)

lemma ff_fallback_scans:
  assumes "s + n \<le> E" "E \<le> length t"
  shows "scans (checkChar up ci target) (\<lambda>c. lim \<and> IsPathSeparator c) t E s n
     (ff_fallback up ci lim target t s n)"
  using assms
proof (induction n arbitrary: s)
  case 0
  then show ?case by (simp add: scans_def)
next
  case (Suc n)
  then have "scans (checkChar up ci target) (\<lambda>c. lim \<and> IsPathSeparator c) t E s (1 + n)
     (on_miss (probe up ci lim target t s) (\<lambda>j. ff_fallback up ci lim target t j n))"
    by (intro scans_on_miss probe_scans) simp_all
  then show ?case by simp
qed

section \<open>The lanes of a block\<close>

lemma block_masks:
  assumes "tchar_ok TYPE('c::len)"
  shows "kLowBits TYPE('c) = block_of (replicate (chars_per_block TYPE('c)) (1 :: 'c word))"
    and "kHighBits TYPE('c) = block_of (replicate (chars_per_block TYPE('c)) (2 ^ (LENGTH('c) - 1) :: 'c word))"
    and "kSepMask TYPE('c) = block_of (replicate (chars_per_block TYPE('c)) (92 :: 'c word))"
proof -
  show "kLowBits TYPE('c) = block_of (replicate (chars_per_block TYPE('c)) (1 :: 'c word))"
    using broadcast [OF assms, of 1] by simp
  show "kHighBits TYPE('c) = block_of (replicate (chars_per_block TYPE('c)) (2 ^ (LENGTH('c) - 1) :: 'c word))"
    using assms broadcast_nat [OF assms, of "2 ^ (LENGTH('c) - 1)"]
    by (auto simp: tchar_ok_def kHighBits_def kLowBits_def)
  show "kSepMask TYPE('c) = block_of (replicate (chars_per_block TYPE('c)) (92 :: 'c word))"
    using assms broadcast_nat [OF assms, of 92]
    by (auto simp: tchar_ok_def kSepMask_def kLowBits_def)
qed

lemma lane_search:
  fixes cs :: "'c::len word list" and m :: "'c word"
  assumes ok: "tchar_ok TYPE('c)" and len: "length cs = chars_per_block TYPE('c)"
  defines "d \<equiv> block_of cs XOR block_of (replicate (chars_per_block TYPE('c)) m)"
  shows "lowest_mark LENGTH('c) ((d - kLowBits TYPE('c)) AND NOT d AND kHighBits TYPE('c))
     (first_index (\<lambda>c. c = m) cs)"
proof -
  let ?xs = "map (\<lambda>c. c XOR m) cs"
  have d: "d = block_of ?xs"
    unfolding d_def using len by (simp add: block_of_xor zip_replicate2 o_def)
  have lx: "length ?xs = chars_per_block TYPE('c)"
    using len by simp
  have "length ?xs * LENGTH('c) \<le> 64"
    using chars_per_block_mult [OF ok] by (simp add: len)
  from zero_lanes_lowest [OF this]
  have "lowest_mark LENGTH('c) ((d - kLowBits TYPE('c)) AND NOT d AND kHighBits TYPE('c))
      (first_index (\<lambda>x. x = 0) ?xs)"
    unfolding zero_lanes_def lx d block_masks [OF ok] .
  moreover have "c XOR m = 0 \<longleftrightarrow> c = m" for c :: "'c word"
    by (metis xor.assoc xor.left_neutral xor.right_neutral xor_self_eq)
  then have "first_index (\<lambda>x. x = 0) ?xs = first_index (\<lambda>c. c = m) cs"
    by (simp add: first_index_map o_def)
  ultimately show ?thesis by simp
qed

lemma ff_lanes_eq:
  fixes cs :: "'c::len word list" and target :: "'c word"
  assumes ok: "tchar_ok TYPE('c)" and len: "length cs = chars_per_block TYPE('c)"
  defines "a \<equiv> first_index (\<lambda>c. c = target) cs" and "b \<equiv> first_index (\<lambda>c. c = 92) cs"
  shows "ff_lanes TYPE('c) lim (kLowBits TYPE('c) * ucast target) (block_of cs) s =
     Some (case (if lim then min_opt a b else a) of
             None \<Rightarrow> Missed (s + chars_per_block TYPE('c))
           | Some j \<Rightarrow> if a = Some j then Found (s + j) else Blocked)"
proof -
  let ?w = "block_of cs"
  let ?d = "?w XOR kLowBits TYPE('c) * ucast target"
  let ?hm = "(?d - kLowBits TYPE('c)) AND NOT ?d AND kHighBits TYPE('c)"
  let ?e = "?w XOR kSepMask TYPE('c)"
  let ?hs = "(?e - kLowBits TYPE('c)) AND NOT ?e AND kHighBits TYPE('c)"
  have n: "0 < LENGTH('c)"
    by simp
  have hm: "lowest_mark LENGTH('c) ?hm a"
    using lane_search [OF ok len, of target] unfolding broadcast [OF ok] a_def .
  have hs: "lowest_mark LENGTH('c) ?hs b"
    using lane_search [OF ok len, of 92] unfolding block_masks(3) [OF ok, symmetric] b_def .
  show ?thesis
  proof (cases lim)
    case False
    show ?thesis
    proof (cases a)
      case None
      with hm False show ?thesis
        by (simp add: ff_lanes_def Let_def)
    next
      case (Some j)
      with False lowest_mark_scan [OF hm [unfolded Some] n] lane_of_mark [OF n, of j] show ?thesis
        by (simp add: ff_lanes_def Let_def)
    qed
  next
    case True
    have both: "lowest_mark LENGTH('c) (?hm OR ?hs) (min_opt a b)"
      by (rule lowest_mark_or [OF hm hs n])
    show ?thesis
    proof (cases "min_opt a b")
      case None
      then have "?hm OR ?hs = 0"
        using both by simp
      with None True show ?thesis
        by (simp add: ff_lanes_def Let_def)
    next
      case (Some j)
      have "bit_test64 ?hm (LENGTH('c) * j + (LENGTH('c) - 1)) \<longleftrightarrow> a = Some j"
      proof (cases a)
        case None
        with hm show ?thesis by (simp add: bit_test64_def)
      next
        case a: (Some j1)
        have "j < j1 \<or> j = j1"
          using Some a by (cases b) auto
        from lowest_mark_bit_other [OF hm [unfolded a] this n] show ?thesis
          by (auto simp: bit_test64_def a)
      qed
      with Some True lowest_mark_scan [OF both [unfolded Some] n] lane_of_mark [OF n, of j] show ?thesis
        by (simp add: ff_lanes_def Let_def)
    qed
  qed
qed

text \<open>A block whose lanes are the folded characters settles the search up to its end.\<close>

lemma ff_lanes_scans:
  fixes cs t :: "'c::len word list"
  assumes ok: "tchar_ok TYPE('c)" and len: "length cs = chars_per_block TYPE('c)"
    and E: "s + chars_per_block TYPE('c) \<le> E" "E \<le> length t"
    and P: "\<forall>i < chars_per_block TYPE('c). P (t ! (s + i)) \<longleftrightarrow> cs ! i = target"
    and sep: "\<forall>i < chars_per_block TYPE('c). IsPathSeparator (t ! (s + i)) \<longleftrightarrow> cs ! i = 92"
  shows "scans P (\<lambda>c. lim \<and> IsPathSeparator c) t E s (chars_per_block TYPE('c))
     (ff_lanes TYPE('c) lim (kLowBits TYPE('c) * ucast target) (block_of cs) s)"
proof -
  let ?k = "chars_per_block TYPE('c)" and ?b = "\<lambda>c. lim \<and> IsPathSeparator c"
  let ?fa = "first_index (\<lambda>c. c = target) cs" and ?fb = "first_index (\<lambda>c. c = 92) cs"
  have faN: "\<forall>i<?k. \<not> P (t ! (s + i))" if "?fa = None"
    using that P by (simp add: first_index_None all_set_conv_all_nth len)
  have fbN: "\<forall>i<?k. \<not> IsPathSeparator (t ! (s + i))" if "?fb = None"
    using that sep by (simp add: first_index_None all_set_conv_all_nth len)
  have faS: "j < ?k \<and> P (t ! (s + j)) \<and> (\<forall>i<j. \<not> P (t ! (s + i)))" if "?fa = Some j" for j
    using that P by (auto simp: first_index_Some len)
  have fbS: "j < ?k \<and> IsPathSeparator (t ! (s + j)) \<and> (\<forall>i<j. \<not> IsPathSeparator (t ! (s + i)))"
    if "?fb = Some j" for j
    using that sep by (auto simp: first_index_Some len)
  show ?thesis
  proof (cases "if lim then min_opt ?fa ?fb else ?fa")
    case None
    then have "?fa = None" "lim \<Longrightarrow> ?fb = None"
      by (cases lim; cases ?fa; cases ?fb; simp)+
    then have "\<forall>i<?k. \<not> P (t ! (s + i)) \<and> \<not> ?b (t ! (s + i))"
      using faN fbN by blast
    then have "seek_at P ?b t E s = seek_at P ?b t E (s + ?k)"
      by (intro seek_at_skip E)
    then show ?thesis
      unfolding ff_lanes_eq [OF ok len] None by (simp add: scans_def)
  next
    case (Some j)
    then consider (hit) "?fa = Some j" "\<forall>j'. lim \<longrightarrow> ?fb = Some j' \<longrightarrow> j \<le> j'"
      | (stop) "?fa \<noteq> Some j" "lim" "?fb = Some j" "\<forall>j'. ?fa = Some j' \<longrightarrow> j < j'"
      by (cases lim; cases ?fa; cases ?fb) (auto simp: min_def split: if_splits)
    then show ?thesis
    proof cases
      case hit
      have "\<forall>i<j. \<not> P (t ! (s + i)) \<and> \<not> ?b (t ! (s + i))"
        using faS [OF hit(1)] hit(2) fbN fbS by (cases ?fb) force+
      moreover have "j < ?k" "P (t ! (s + j))"
        using faS [OF hit(1)] by blast+
      ultimately have "seek_at P ?b t E s = Some (s + j)"
        using E seek_at_skip [of s j E t P ?b] by (simp add: seek_at_step)
      then show ?thesis
        unfolding ff_lanes_eq [OF ok len] Some using hit by (simp add: scans_def)
    next
      case stop
      have "\<forall>i\<le>j. \<not> P (t ! (s + i))"
        using stop(4) fbS [OF stop(3)] faN faS by (cases ?fa) force+
      moreover have "j < ?k" "?b (t ! (s + j))" "\<forall>i<j. \<not> ?b (t ! (s + i))"
        using fbS [OF stop(3)] stop(2) by blast+
      ultimately have "seek_at P ?b t E s = None"
        using E seek_at_skip [of s j E t P ?b] by (simp add: seek_at_step)
      then show ?thesis
        unfolding ff_lanes_eq [OF ok len] Some using stop by (simp add: scans_def)
    qed
  qed
qed

section \<open>The whole scan\<close>

lemma ToUpperFast_separator:
  fixes c :: "'c::len word"
  assumes "tchar_ok TYPE('c)" "unat c < 128"
  shows "ToUpperFast up c = 92 \<longleftrightarrow> c = 92"
proof -
  have n: "unat (92 :: 'c word) = 92" "unat (32 :: 'c word) = 32"
    using assms(1) by (auto simp: tchar_ok_def)
  have "c - 32 \<noteq> 92" if "97 \<le> unat c" "unat c \<le> 122"
  proof
    assume "c - 32 = 92"
    moreover have "unat (c - 32) = unat c - 32"
      using that n by (simp add: unat_sub_if')
    ultimately have "unat c - 32 = 92"
      using n by simp
    with that show False by simp
  qed
  then show ?thesis
    using n by (auto simp: ToUpperFast_ascii [OF assms])
qed

lemma ff_block_scans:
  fixes t :: "'c::len word list"
  assumes ok: "tchar_ok TYPE('c)" and E: "s + chars_per_block TYPE('c) \<le> E" "E \<le> length t"
  shows "scans (checkChar up ci target) (\<lambda>c. lim \<and> IsPathSeparator c) t E s (chars_per_block TYPE('c))
     (ff_block up ci lim target (kLowBits TYPE('c) * ucast target) t s)"
proof -
  let ?k = "chars_per_block TYPE('c)"
  define cs where "cs = take ?k (drop s t)"
  have len: "length cs = ?k" and nth: "\<forall>i<?k. cs ! i = t ! (s + i)"
    using E by (simp_all add: cs_def)
  have load: "load64 t s = Some (block_of cs)"
    using E by (simp add: load64_def cs_def)
  consider (exact) "\<not> ci" | (ascii) "ci" "\<forall>c \<in> set cs. unat c < 128"
    | (other) "ci" "\<not> IsAsciiSWAR TYPE('c) (block_of cs)"
    using IsAsciiSWAR_block [OF ok len] by blast
  then show ?thesis
  proof cases
    case exact
    have "scans (checkChar up ci target) (\<lambda>c. lim \<and> IsPathSeparator c) t E s ?k
        (ff_lanes TYPE('c) lim (kLowBits TYPE('c) * ucast target) (block_of cs) s)"
      using exact nth by (intro ff_lanes_scans [OF ok len E]) (auto simp: checkChar_def IsPathSeparator_def)
    with exact show ?thesis by (simp add: ff_block_def load)
  next
    case ascii
    have lanes: "\<forall>i<?k. unat (t ! (s + i)) < 128"
      using ascii(2) nth len by (auto simp: all_set_conv_all_nth)
    have "scans (checkChar up ci target) (\<lambda>c. lim \<and> IsPathSeparator c) t E s ?k
        (ff_lanes TYPE('c) lim (kLowBits TYPE('c) * ucast target) (block_of (map (ToUpperFast up) cs)) s)"
      using ascii nth lanes ToUpperFast_separator [OF ok] len
      by (intro ff_lanes_scans [OF ok _ E]) (auto simp: checkChar_def IsPathSeparator_def)
    with ascii show ?thesis
      by (simp add: ff_block_def load IsAsciiSWAR_block [OF ok len] ToUpperSWAR_block [OF ok len, of up])
  next
    case other
    then show ?thesis
      using ff_fallback_scans [OF E] by (simp add: ff_block_def load)
  qed
qed

lemma scan_loop_end: "scans P b t E s n (Some (Missed s)) \<Longrightarrow> n = 0"
  by (simp add: scans_def)

text \<open>The loops: each settles the search from where it starts.\<close>

definition settles :: "('a \<Rightarrow> bool) \<Rightarrow> ('a \<Rightarrow> bool) \<Rightarrow> 'a list \<Rightarrow> nat \<Rightarrow> nat \<Rightarrow> scan option \<Rightarrow> bool" where
  "settles P b t E s r \<longleftrightarrow> (\<exists>x. r = Some x \<and> resolve P b t E x = seek_at P b t E s)"

lemma settles_step:
  assumes "scans P b t E s n r" "settles P b t E (s + n) (k (s + n))"
  shows "settles P b t E s
     (do { x \<leftarrow> r; case x of Missed s' \<Rightarrow> k s' | Found i \<Rightarrow> Some x | Blocked \<Rightarrow> Some x })"
  using assms by (auto simp: settles_def scans_def split: scan.split)

lemma ff_swar_settles:
  fixes t :: "'c::len word list"
  assumes ok: "tchar_ok TYPE('c)" and E: "int E = SearchEnd" "E \<le> length t"
  shows "settles (checkChar up ci target) (\<lambda>c. lim \<and> IsPathSeparator c) t E s
     (ff_swar up ci lim target (kLowBits TYPE('c) * ucast target) t SearchEnd s)"
proof (induction "E - s" arbitrary: s rule: less_induct)
  case less
  let ?k = "chars_per_block TYPE('c)"
  show ?case
  proof (cases "s + ?k \<le> E")
    case True
    then have "E - (s + ?k) < E - s"
      using chars_per_block_pos [OF ok] by linarith
    note next_block = less.hyps [OF this]
    show ?thesis
      using True E(1) settles_step [OF ff_block_scans [OF ok True E(2)],
        where k = "ff_swar up ci lim target (kLowBits TYPE('c) * ucast target) t SearchEnd", OF next_block]
      by (subst ff_swar.simps) simp
  next
    case False
    then show ?thesis
      using E(1) by (subst ff_swar.simps) (auto simp: settles_def)
  qed
qed

lemma ff_unrolled_settles:
  assumes E: "int E = SearchEnd" "E \<le> length t"
  shows "settles (checkChar up ci target) (\<lambda>c. lim \<and> IsPathSeparator c) t E s
     (ff_unrolled up ci lim target t SearchEnd s)"
proof (induction "E - s" arbitrary: s rule: less_induct)
  case less
  show ?case
  proof (cases "s + 3 < E")
    case True
    have "scans (checkChar up ci target) (\<lambda>c. lim \<and> IsPathSeparator c) t E s (1 + 1 + 1 + 1)
       (on_miss (on_miss (on_miss (probe up ci lim target t s)
               (\<lambda>_. probe up ci lim target t (s + 1)))
               (\<lambda>_. probe up ci lim target t (s + 2)))
               (\<lambda>_. probe up ci lim target t (s + 3)))"
      using True E(2) probe_scans [of "s + 1" E t] probe_scans [of "s + 2" E t] probe_scans [of "s + 3" E t]
      by (intro scans_on_miss probe_scans) (simp_all add: numeral_2_eq_2 numeral_3_eq_3)
    then have step: "scans (checkChar up ci target) (\<lambda>c. lim \<and> IsPathSeparator c) t E s 4
       (on_miss (on_miss (on_miss (probe up ci lim target t s)
               (\<lambda>_. probe up ci lim target t (s + 1)))
               (\<lambda>_. probe up ci lim target t (s + 2)))
               (\<lambda>_. probe up ci lim target t (s + 3)))"
      by (simp add: numeral_Bit0)
    have "E - (s + 4) < E - s"
      using True by linarith
    from less.hyps [OF this] step True E(1) show ?thesis
      by (subst ff_unrolled.simps) (auto simp: settles_def scans_def split: scan.split)
  next
    case False
    then show ?thesis
      using E(1) by (subst ff_unrolled.simps) (auto simp: settles_def)
  qed
qed

lemma ff_tail_settles:
  assumes E: "int E = SearchEnd" "E \<le> length t"
  shows "map_option found (ff_tail up ci lim target t SearchEnd s) =
     Some (seek_at (checkChar up ci target) (\<lambda>c. lim \<and> IsPathSeparator c) t E s)"
proof (induction "E - s" arbitrary: s rule: less_induct)
  case less
  show ?case
  proof (cases "s < E")
    case True
    then have "E - (s + 1) < E - s"
      by linarith
    from less.hyps [OF this] True E(1)
      probe_scans [OF True E(2), of up ci target lim, unfolded scans_def]
    show ?thesis
      by (subst ff_tail.simps) (auto split: scan.split)
  next
    case False
    then show ?thesis
      using E(1) by (subst ff_tail.simps) (simp add: seek_at_end)
  qed
qed

text \<open>
  The range of the scan when fewer characters are left than the pattern needs is empty: then
  \<open>SearchEnd\<close> may lie before the cursor, and nothing is found.
\<close>

lemma scan_before_start:
  assumes "SearchEnd < int s"
  shows "ff_swar up ci lim target tm t SearchEnd s = Some (Missed s)"
    and "ff_unrolled up ci lim target t SearchEnd s = Some (Missed s)"
    and "ff_tail up ci lim target t SearchEnd s = Some (Missed s)"
  using assms by (subst ff_swar.simps ff_unrolled.simps ff_tail.simps, simp)+

lemma settles_then_tail:
  assumes "settles P b t E s r" "\<And>s'. map_option found (k s') = Some (seek_at P b t E s')"
  shows "do { x \<leftarrow> on_miss r k; Some (found x) } = Some (seek_at P b t E s)"
proof -
  obtain x where x: "r = Some x" "resolve P b t E x = seek_at P b t E s"
    using assms(1) by (auto simp: settles_def)
  show ?thesis
  proof (cases x)
    case (Missed s')
    obtain y where "k s' = Some y" "found y = seek_at P b t E s'"
      using assms(2) [of s'] by auto
    with x Missed show ?thesis by (simp add: on_miss_def)
  qed (use x in \<open>auto simp: on_miss_def\<close>)
qed

theorem fastForward_eq:
  fixes t :: "'c::len word list"
  assumes ok: "tchar_ok TYPE('c)" and r: "1 \<le> rem" "rem < 2 ^ 32" and s: "s \<le> length t"
    and tm: "tm = kLowBits TYPE('c) * ucast target"
  shows "fastForward up ci lim target tm t rem s =
     Some (map_option ((+) s) (seek (checkChar up ci target) (\<lambda>c. lim \<and> IsPathSeparator c)
       (length t - s - (rem - 1)) (drop s t)))"
proof -
  let ?P = "checkChar up ci target" and ?b = "\<lambda>c. lim \<and> IsPathSeparator c"
  let ?SE = "int (length t) - int (sub32 rem 1)"
  have sub: "sub32 rem 1 = rem - 1"
    using r by (simp add: sub32_eq)
  define E where "E = length t - (rem - 1)"
  have n: "length t - s - (rem - 1) = E - s"
    by (simp add: E_def)
  have goal: "seek_at ?P ?b t E s = map_option ((+) s) (seek ?P ?b (E - s) (drop s t))"
    by (simp add: seek_at_def)
  show ?thesis
  proof (cases "rem - 1 \<le> length t")
    case True
    then have E: "int E = ?SE" "E \<le> length t"
      unfolding sub by (simp_all add: E_def of_nat_diff)
    have "settles ?P ?b t E s
        (if LENGTH('c) = 8 \<or> ci then ff_swar up ci lim target tm t ?SE s
         else ff_unrolled up ci lim target t ?SE s)"
      using ff_swar_settles [OF ok E] ff_unrolled_settles [OF E] by (simp add: tm)
    moreover have "map_option found (ff_tail up ci lim target t ?SE s') = Some (seek_at ?P ?b t E s')" for s'
      by (rule ff_tail_settles [OF E])
    ultimately show ?thesis
      unfolding n goal [symmetric] fastForward_def Let_def by (rule settles_then_tail)
  next
    case False
    then have before: "?SE < int s" and "E - s = 0"
      unfolding sub by (simp_all add: E_def)
    then show ?thesis
      unfolding n fastForward_def Let_def
      by (simp add: on_miss_def scan_before_start [OF before] del: One_nat_def)
  qed
qed

end
