(* ===== verification/WildCardMatch.thy ===== *)
theory WildCardMatch
  imports FastForward
begin

text \<open>
  \<open>KmStringPatternMatch::WildCardMatch\<close>: the non-recursive wildcard state machine. Its local
  variables are the record \<open>wstate\<close>, its loop body is \<open>wild_step\<close>, and its loop is a
  \<^theory_text>\<open>partial_function\<close>, so a result \<open>Some r\<close> says that no read was out of bounds and that
  the loop stopped. The theorem \<open>WildCardMatch_eq\<close> identifies the result with the meaning
  of the pattern (theory \<open>Glob\<close>).
\<close>

section \<open>The tokens of a pattern\<close>

text \<open>
  An escape makes the special character after it a literal; before any other character, and
  at the end, it stands for itself.
\<close>

definition is_special :: "'c::len word \<Rightarrow> bool" where
  "is_special c \<longleftrightarrow> c = kStar \<or> c = kQuestion \<or> c = kEscape"

fun tokens :: "'c::len word list \<Rightarrow> 'c word tok list" where
  "tokens [] = []"
| "tokens [c] = [if c = kStar then TStar else if c = kQuestion then TAny else TLit c]"
| "tokens (c # d # cs) =
     (if c = kStar then TStar # tokens (d # cs)
      else if c = kQuestion then TAny # tokens (d # cs)
      else if c = kEscape \<and> is_special d then TLit d # tokens cs
      else TLit c # tokens (d # cs))"

section \<open>The machine\<close>

record 'tchar wstate =
  ws :: nat
  wp :: nat
  lastStarP :: "nat option"
  lastStarS :: "nat option"
  starRemainingMinLength :: nat
  starTarget :: "'tchar"
  starTargetMask :: u64
  starCanFastForward :: bool
  wrem :: nat

datatype 'tchar wstep = WReturn bool | WContinue "'tchar wstate"

definition initial_state :: "nat \<Rightarrow> 'c::len word wstate" where
  "initial_state remainingMinLength =
     \<lparr>ws = 0, wp = 0, lastStarP = None, lastStarS = None, starRemainingMinLength = 0,
      starTarget = 0, starTargetMask = 0, starCanFastForward = False,
      wrem = remainingMinLength\<rparr>"

text \<open>The label \<open>HandleMismatch\<close>: resume one character after the last star's position.\<close>

definition HandleMismatch ::
  "('c::len word \<Rightarrow> 'c word) \<Rightarrow> bool \<Rightarrow> bool \<Rightarrow> 'c word list \<Rightarrow> 'c word wstate \<Rightarrow> 'c word wstep option" where
  "HandleMismatch up ci lim sText st =
     (case lastStarP st of
        None \<Rightarrow> Some (WReturn False)
      | Some starP \<Rightarrow>
          do { starS \<leftarrow> lastStarS st;
               atSep \<leftarrow> (if lim then do { c \<leftarrow> rd sText starS; Some (IsPathSeparator c) } else Some False);
               if atSep then Some (WReturn False)
               else
                 let s = starS + 1;
                     st' = st\<lparr>wp := starP, ws := s, wrem := starRemainingMinLength st\<rparr>
                 in if sub32 (length sText) s < wrem st' then Some (WReturn False)
                    else if starCanFastForward st' then
                      do { r \<leftarrow> fastForward up ci lim (starTarget st') (starTargetMask st') sText (wrem st') s;
                           case r of None \<Rightarrow> Some (WReturn False)
                           | Some s' \<Rightarrow> Some (WContinue (st'\<lparr>ws := s', lastStarS := Some s'\<rparr>)) }
                    else Some (WContinue (st'\<lparr>lastStarS := Some s\<rparr>)) })"

function skip_stars :: "'c::len word list \<Rightarrow> nat \<Rightarrow> nat" where
  "skip_stars sPattern p =
     (if p < length sPattern \<and> sPattern ! p = kStar then skip_stars sPattern (p + 1) else p)"
  by pat_completeness auto
termination by (relation "measure (\<lambda>(cs, p). length cs - p)") auto

function no_separator :: "'c::len word list \<Rightarrow> nat \<Rightarrow> bool" where
  "no_separator sText s =
     (if s < length sText then
        if IsPathSeparator (sText ! s) then False else no_separator sText (s + 1)
      else True)"
  by pat_completeness auto
termination by (relation "measure (\<lambda>(cs, s). length cs - s)") auto

declare skip_stars.simps [simp del] no_separator.simps [simp del]

text \<open>The target of the scan after a star: the literal the pattern goes on with at \<open>p\<close>.\<close>

definition star_literal :: "'c::len word list \<Rightarrow> nat \<Rightarrow> 'c word option" where
  "star_literal sPattern p =
     do { c \<leftarrow> rd sPattern p;
          if c = kEscape \<and> p + 1 < length sPattern then
            do { d \<leftarrow> rd sPattern (p + 1); Some (if is_special d then d else c) }
          else Some c }"

text \<open>\<open>case kStar\<close>, entered with \<open>*p == kStar\<close>.\<close>

definition StarStep ::
  "('c::len word \<Rightarrow> 'c word) \<Rightarrow> bool \<Rightarrow> bool \<Rightarrow> 'c word list \<Rightarrow> 'c word list \<Rightarrow> 'c word wstate \<Rightarrow> 'c word wstep option" where
  "StarStep up ci lim sPattern sText st =
     (let p = skip_stars sPattern (wp st + 1)
      in if p = length sPattern then Some (WReturn (\<not> lim \<or> no_separator sText (ws st)))
         else
           let st' = st\<lparr>wp := p, lastStarP := Some p, starRemainingMinLength := wrem st,
                        starTarget := 0, starTargetMask := 0, starCanFastForward := False\<rparr>
           in do { c \<leftarrow> rd sPattern p;
                   if c \<noteq> kQuestion then
                     do { target \<leftarrow> star_literal sPattern p;
                          let mask = kLowBits TYPE('c) * ucast target;
                          r \<leftarrow> fastForward up ci lim target mask sText (wrem st') (ws st');
                          case r of None \<Rightarrow> Some (WReturn False)
                          | Some s' \<Rightarrow>
                              Some (WContinue (st'\<lparr>starTarget := target, starTargetMask := mask,
                                starCanFastForward := True, ws := s', lastStarS := Some s'\<rparr>)) }
                   else Some (WContinue (st'\<lparr>lastStarS := Some (ws st')\<rparr>)) })"

text \<open>Consuming one character of the text and \<open>n\<close> characters of the pattern.\<close>

definition advance :: "nat \<Rightarrow> 'c::len word wstate \<Rightarrow> 'c word wstate" where
  "advance n st = st\<lparr>wp := wp st + n, ws := ws st + 1, wrem := sub32 (wrem st) 1\<rparr>"

text \<open>One iteration of the loop, entered with \<open>s < StringEnd\<close>.\<close>

definition wild_step ::
  "('c::len word \<Rightarrow> 'c word) \<Rightarrow> bool \<Rightarrow> bool \<Rightarrow> 'c word list \<Rightarrow> 'c word list \<Rightarrow> 'c word wstate \<Rightarrow> 'c word wstep option" where
  "wild_step up ci lim sPattern sText st =
     (let mismatch = HandleMismatch up ci lim sText st
      in if sub32 (length sText) (ws st) < wrem st then mismatch
         else if wp st < length sPattern then
           do { pc \<leftarrow> rd sPattern (wp st);
                c \<leftarrow> rd sText (ws st);
                if pc = kStar then StarStep up ci lim sPattern sText st
                else if pc = kQuestion then
                  (if lim \<and> IsPathSeparator c then mismatch else Some (WContinue (advance 1 st)))
                else if pc = kEscape then
                  (if wp st + 1 < length sPattern then
                     do { pc1 \<leftarrow> rd sPattern (wp st + 1);
                          if is_special pc1 then
                            (if matchChar up ci pc1 c then Some (WContinue (advance 2 st)) else mismatch)
                          else
                            (if matchChar up ci pc c then Some (WContinue (advance 1 st)) else mismatch) }
                   else
                     (if matchChar up ci pc c then Some (WContinue (advance 1 st)) else mismatch))
                else
                  (if matchChar up ci pc c then Some (WContinue (advance 1 st)) else mismatch) }
         else mismatch)"

partial_function (option) wild_loop ::
  "('c::len word \<Rightarrow> 'c word) \<Rightarrow> bool \<Rightarrow> bool \<Rightarrow> 'c word list \<Rightarrow> 'c word list \<Rightarrow> 'c word wstate \<Rightarrow> bool option" where
  "wild_loop up ci lim sPattern sText st =
     (if ws st < length sText then
        do { r \<leftarrow> wild_step up ci lim sPattern sText st;
             case r of WReturn b \<Rightarrow> Some b
                     | WContinue st' \<Rightarrow> wild_loop up ci lim sPattern sText st' }
      else Some (skip_stars sPattern (wp st) = length sPattern))"

declare wild_loop.simps [code]

definition WildCardMatch ::
  "('c::len word \<Rightarrow> 'c word) \<Rightarrow> bool \<Rightarrow> bool \<Rightarrow> 'c word list \<Rightarrow> 'c word list \<Rightarrow> nat \<Rightarrow> bool option" where
  "WildCardMatch up ci lim sPattern sText remainingMinLength =
     wild_loop up ci lim sPattern sText (initial_state remainingMinLength)"

section \<open>Tokens at a position\<close>

abbreviation toks :: "'c::len word list \<Rightarrow> nat \<Rightarrow> 'c word tok list" where
  "toks pat p \<equiv> tokens (drop p pat)"

abbreviation gm :: "('c::len word \<Rightarrow> 'c word) \<Rightarrow> bool \<Rightarrow> bool \<Rightarrow> 'c word tok list \<Rightarrow> 'c word list \<Rightarrow> bool" where
  "gm up ci lim \<equiv> gmatch (matchChar up ci) (\<lambda>c. lim \<and> IsPathSeparator c)"

lemma toks_star: "p < length pat \<Longrightarrow> pat ! p = kStar \<Longrightarrow> toks pat p = TStar # toks pat (p + 1)"
  by (cases "drop (Suc p) pat") (simp_all add: drop_Cons_nth)

lemma toks_question:
  "p < length pat \<Longrightarrow> pat ! p \<noteq> kStar \<Longrightarrow> pat ! p = kQuestion \<Longrightarrow> toks pat p = TAny # toks pat (p + 1)"
  by (cases "drop (Suc p) pat") (simp_all add: drop_Cons_nth)

lemma toks_escaped:
  assumes "p + 1 < length pat" "pat ! p \<noteq> kStar" "pat ! p \<noteq> kQuestion" "pat ! p = kEscape" "is_special (pat ! (p + 1))"
  shows "toks pat p = TLit (pat ! (p + 1)) # toks pat (p + 2)"
proof -
  have "drop p pat = pat ! p # pat ! (p + 1) # drop (p + 2) pat"
    using assms(1) by (simp add: Cons_nth_drop_Suc)
  then show ?thesis using assms by simp
qed

lemma toks_lit:
  assumes "p < length pat" "pat ! p \<noteq> kStar" "pat ! p \<noteq> kQuestion"
    "\<not> (pat ! p = kEscape \<and> p + 1 < length pat \<and> is_special (pat ! (p + 1)))"
  shows "toks pat p = TLit (pat ! p) # toks pat (p + 1)"
proof (cases "p + 1 < length pat")
  case True
  then have "drop p pat = pat ! p # pat ! (p + 1) # drop (p + 2) pat" "drop (p + 1) pat = pat ! (p + 1) # drop (p + 2) pat"
    by (simp_all add: Cons_nth_drop_Suc)
  then show ?thesis using assms True by auto
next
  case False
  then have "drop p pat = [pat ! p]" "drop (p + 1) pat = []"
    using assms(1) by (simp_all add: drop_Cons_nth)
  then show ?thesis using assms by simp
qed

lemma length_tokens: "length (tokens cs) \<le> length cs"
  by (induction cs rule: tokens.induct) auto

lemma min_len_toks: "min_len (toks pat p) \<le> length pat"
  using min_len_le_length [of "toks pat p"] length_tokens [of "drop p pat"] by simp

lemma skip_stars_props:
  assumes "p \<le> length pat"
  shows "p \<le> skip_stars pat p \<and> skip_stars pat p \<le> length pat \<and>
     (skip_stars pat p < length pat \<longrightarrow> pat ! skip_stars pat p \<noteq> kStar) \<and>
     toks pat p = replicate (skip_stars pat p - p) TStar @ toks pat (skip_stars pat p)"
  using assms
proof (induction pat p rule: skip_stars.induct)
  case (1 pat p)
  show ?case
  proof (cases "p < length pat \<and> pat ! p = kStar")
    case True
    define q where "q = skip_stars pat (p + 1)"
    have IH: "p + 1 \<le> q" "q \<le> length pat" "q < length pat \<longrightarrow> pat ! q \<noteq> kStar"
        "toks pat (p + 1) = replicate (q - (p + 1)) TStar @ toks pat q"
      using 1 True unfolding q_def by auto
    have "skip_stars pat p = q"
      using True unfolding q_def by (subst skip_stars.simps) simp
    moreover have "toks pat p = TStar # toks pat (p + 1)"
      using True toks_star by blast
    moreover have "q - p = Suc (q - (p + 1))"
      using IH(1) by simp
    ultimately show ?thesis
      using IH by simp
  next
    case False
    then have "skip_stars pat p = p"
      by (subst skip_stars.simps) auto
    then show ?thesis
      using 1 False by auto
  qed
qed

lemma toks_head_not_star:
  assumes "q < length pat" "pat ! q \<noteq> kStar"
  shows "\<exists>a ps. toks pat q = a # ps \<and> a \<noteq> TStar"
  using toks_question [OF assms] toks_escaped [of q pat] toks_lit [OF assms] assms(2) by blast

lemma skip_stars_all:
  assumes "p \<le> length pat"
  shows "skip_stars pat p = length pat \<longleftrightarrow> set (toks pat p) \<subseteq> {TStar}"
proof -
  let ?q = "skip_stars pat p"
  note q = skip_stars_props [OF assms]
  show ?thesis
  proof
    assume "?q = length pat"
    then have "toks pat p = replicate (?q - p) TStar"
      using q by simp
    then show "set (toks pat p) \<subseteq> {TStar}"
      by (auto split: if_splits)
  next
    assume all: "set (toks pat p) \<subseteq> {TStar}"
    show "?q = length pat"
    proof (rule ccontr)
      assume "?q \<noteq> length pat"
      then obtain a ps where "toks pat ?q = a # ps" "a \<noteq> TStar"
        using q toks_head_not_star [of ?q pat] by auto
      then show False
        using q all by (metis Un_iff in_set_conv_decomp_first set_append singletonD subsetD append_Nil)
    qed
  qed
qed

lemma star_literal_toks:
  assumes "p < length pat" "pat ! p \<noteq> kStar" "pat ! p \<noteq> kQuestion"
  shows "\<exists>x ps. star_literal pat p = Some x \<and> toks pat p = TLit x # ps"
  using assms toks_escaped [of p pat] toks_lit [of p pat] by (auto simp: star_literal_def)

lemma no_separator_iff: "no_separator t s \<longleftrightarrow> list_all (\<lambda>c. \<not> IsPathSeparator c) (drop s t)"
proof (induction t s rule: no_separator.induct)
  case (1 t s)
  then show ?case
    by (subst no_separator.simps) (auto simp: list_all_drop_Suc)
qed

section \<open>The scan after a star\<close>

lemma checkChar_matchChar: "checkChar up ci target = matchChar up ci target"
  by (auto simp: checkChar_def matchChar_def fun_eq_iff)

text \<open>The scan skips only positions at which the rest of the pattern cannot start.\<close>

lemma fastForward_goal:
  fixes t :: "'c::len word list"
  assumes ok: "tchar_ok TYPE('c)" and s: "s \<le> length t" and toks: "ts = TLit x # ps"
    and r: "min_len ts < 2 ^ 32"
  shows "\<exists>r. fastForward up ci lim x (kLowBits TYPE('c) * ucast x) t (min_len ts) s = Some r \<and>
     (case r of None \<Rightarrow> \<not> gm up ci lim (TStar # ts) (drop s t)
      | Some s' \<Rightarrow> s \<le> s' \<and> s' < length t \<and>
          (gm up ci lim (TStar # ts) (drop s t) \<longleftrightarrow> gm up ci lim (TStar # ts) (drop s' t)))"
proof -
  let ?b = "\<lambda>c. lim \<and> IsPathSeparator c"
  define n where "n = length t - s - min_len ps"
  have len: "length (drop s t) < n + Suc (min_len ps)"
    by (simp add: n_def)
  have "fastForward up ci lim x (kLowBits TYPE('c) * ucast x) t (min_len ts) s =
      Some (map_option ((+) s) (seek (matchChar up ci x) ?b n (drop s t)))"
    using fastForward_eq [OF ok _ r s refl, of up ci lim x] by (simp add: toks n_def checkChar_matchChar)
  moreover have "\<not> gm up ci lim (TStar # ts) (drop s t)"
    if "seek (matchChar up ci x) ?b n (drop s t) = None"
    using seek_None_gmatch [where fits = "matchChar up ci" and b = ?b, OF that len] by (simp add: toks)
  moreover have "i < length t - s \<and>
      (gm up ci lim (TStar # ts) (drop s t) \<longleftrightarrow> gm up ci lim (TStar # ts) (drop (s + i) t))"
    if "seek (matchChar up ci x) ?b n (drop s t) = Some i" for i
    using seek_Some_gmatch [where fits = "matchChar up ci" and b = ?b and ps = ps, OF that] seek_less [OF that]
    by (simp add: toks add.commute)
  ultimately show ?thesis
    by (cases "seek (matchChar up ci x) ?b n (drop s t)") (auto simp: less_diff_conv)
qed

section \<open>The invariant of the machine\<close>

text \<open>
  \<open>G\<close> is the answer the run has to give. Before the first star, what is left of the pattern
  has to match what is left of the text. After one, the chunk of the pattern between the
  star and the cursor matches the text between the star's position and the cursor, and
  the answer is whether the star and all that follows match from the star's position.
\<close>

definition star_inv ::
  "('c::len word \<Rightarrow> 'c word) \<Rightarrow> bool \<Rightarrow> bool \<Rightarrow> 'c word list \<Rightarrow> 'c word list \<Rightarrow> bool \<Rightarrow> nat \<Rightarrow> 'c word wstate \<Rightarrow> nat \<Rightarrow> 'c word tok list \<Rightarrow> bool" where
  "star_inv up ci lim pat t G q st ls ch \<longleftrightarrow>
     lastStarS st = Some ls \<and> ls < length t \<and> q < length pat \<and> q \<le> wp st \<and>
     starRemainingMinLength st = min_len (toks pat q) \<and> 0 < min_len (toks pat q) \<and>
     (starCanFastForward st \<longrightarrow>
        (\<exists>ps. toks pat q = TLit (starTarget st) # ps) \<and>
        starTargetMask st = kLowBits TYPE('c) * ucast (starTarget st)) \<and>
     toks pat q = ch @ toks pat (wp st) \<and> TStar \<notin> set ch \<and> ws st = ls + length ch \<and>
     list_all2 (tok_fits (matchChar up ci) (\<lambda>c. lim \<and> IsPathSeparator c)) ch (take (length ch) (drop ls t)) \<and>
     (G \<longleftrightarrow> gm up ci lim (TStar # toks pat q) (drop ls t))"

definition wild_inv ::
  "('c::len word \<Rightarrow> 'c word) \<Rightarrow> bool \<Rightarrow> bool \<Rightarrow> 'c word list \<Rightarrow> 'c word list \<Rightarrow> bool \<Rightarrow> 'c word wstate \<Rightarrow> bool" where
  "wild_inv up ci lim pat t G st \<longleftrightarrow>
     wp st \<le> length pat \<and> ws st \<le> length t \<and> wrem st = min_len (toks pat (wp st)) \<and>
     (case lastStarP st of
        None \<Rightarrow> G \<longleftrightarrow> gm up ci lim (toks pat (wp st)) (drop (ws st) t)
      | Some q \<Rightarrow> \<exists>ls ch. star_inv up ci lim pat t G q st ls ch)"

text \<open>Each iteration moves to a later star, or places it later, or consumes pattern.\<close>

definition wild_order :: "'c::len word list \<Rightarrow> 'c word list \<Rightarrow> ('c word wstate \<times> 'c word wstate) set" where
  "wild_order pat t = measures
     [\<lambda>st. case lastStarP st of None \<Rightarrow> Suc (length pat) | Some q \<Rightarrow> length pat - q,
      \<lambda>st. case lastStarS st of None \<Rightarrow> 0 | Some ls \<Rightarrow> length t - ls,
      \<lambda>st. length pat - wp st]"

lemma wf_wild_order: "wf (wild_order pat t)"
  by (simp add: wild_order_def)

definition step_ok ::
  "('c::len word \<Rightarrow> 'c word) \<Rightarrow> bool \<Rightarrow> bool \<Rightarrow> 'c word list \<Rightarrow> 'c word list \<Rightarrow> bool \<Rightarrow> 'c word wstate \<Rightarrow> 'c word wstep option \<Rightarrow> bool" where
  "step_ok up ci lim pat t G st r \<longleftrightarrow>
     r = Some (WReturn G) \<or>
     (\<exists>st'. r = Some (WContinue st') \<and> wild_inv up ci lim pat t G st' \<and> (st', st) \<in> wild_order pat t)"

lemma step_okI:
  "r = Some (WReturn G) \<Longrightarrow> step_ok up ci lim pat t G st r"
  "r = Some (WContinue st') \<Longrightarrow> wild_inv up ci lim pat t G st' \<Longrightarrow> (st', st) \<in> wild_order pat t \<Longrightarrow>
     step_ok up ci lim pat t G st r"
  by (auto simp: step_ok_def)

text \<open>What the cursor has to match, given that the chunk before it is placed.\<close>

lemma star_inv_here:
  assumes "star_inv up ci lim pat t G q st ls ch" "ws st \<le> length t"
  shows "gm up ci lim (toks pat q) (drop ls t) \<longleftrightarrow> gm up ci lim (toks pat (wp st)) (drop (ws st) t)"
  using assms by (auto simp: star_inv_def gmatch_chunk add.commute)

text \<open>A star placed at \<open>s\<close>, with nothing matched behind it yet.\<close>

lemma star_placed:
  assumes "wp st = q" "lastStarP st = Some q" "starRemainingMinLength st = min_len (toks pat q)" "wrem st = min_len (toks pat q)"
    and "lastStarS st = Some s" "ws st = s" "s < length t" "q < length pat" "0 < min_len (toks pat q)"
    and "starCanFastForward st \<longrightarrow> (\<exists>ps. toks pat q = TLit (starTarget st) # ps) \<and>
      starTargetMask st = kLowBits TYPE('c) * ucast (starTarget st)"
    and "G \<longleftrightarrow> gm up ci lim (TStar # toks pat q) (drop s t)"
  shows "wild_inv up ci lim pat (t :: 'c::len word list) G st"
proof -
  have "star_inv up ci lim pat t G q st s []"
    using assms by (simp add: star_inv_def)
  then show ?thesis
    using assms by (auto simp: wild_inv_def)
qed

text \<open>Running the scan for the literal that follows the star, and placing the star where it stops.\<close>

lemma scan_ok:
  fixes t :: "'c::len word list"
  assumes ok: "tchar_ok TYPE('c)" and pat: "length pat < 2 ^ 32" and s: "s \<le> length t" and ps: "toks pat q = TLit x # ps"
    and G: "G \<longleftrightarrow> gm up ci lim (TStar # toks pat q) (drop s t)"
    and place: "\<And>s'. s \<le> s' \<Longrightarrow> s' < length t \<Longrightarrow> G \<longleftrightarrow> gm up ci lim (TStar # toks pat q) (drop s' t) \<Longrightarrow>
      step_ok up ci lim pat t G st (Some (WContinue (f s')))"
  shows "step_ok up ci lim pat t G st
    (do { r \<leftarrow> fastForward up ci lim x (kLowBits TYPE('c) * ucast x) t (min_len (toks pat q)) s;
          case r of None \<Rightarrow> Some (WReturn False) | Some s' \<Rightarrow> Some (WContinue (f s')) })"
proof -
  have "min_len (toks pat q) < 2 ^ 32"
    using min_len_toks [of q pat] pat by linarith
  from fastForward_goal [OF ok s ps this, of up ci lim]
  obtain r where r: "fastForward up ci lim x (kLowBits TYPE('c) * ucast x) t (min_len (toks pat q)) s = Some r"
    "case r of None \<Rightarrow> \<not> gm up ci lim (TStar # toks pat q) (drop s t)
     | Some s' \<Rightarrow> s \<le> s' \<and> s' < length t \<and>
         (gm up ci lim (TStar # toks pat q) (drop s t) \<longleftrightarrow> gm up ci lim (TStar # toks pat q) (drop s' t))"
    by auto
  show ?thesis
  proof (cases r)
    case None
    then show ?thesis
      using r G by (intro step_okI(1)) simp
  next
    case (Some s')
    then show ?thesis
      using r G place [of s'] by simp
  qed
qed

text \<open>
  A mismatch behind a star: the star takes one more character, unless that is a separator or too
  little text is left.
\<close>

lemma mismatch_goal:
  fixes t :: "'c::len word list"
  assumes si: "star_inv up ci lim pat t G q st ls ch" and inv: "ws st \<le> length t"
    and no: "\<not> gm up ci lim (toks pat (wp st)) (drop (ws st) t)"
  shows "(lim \<and> IsPathSeparator (t ! ls)) \<or> length t - (ls + 1) < min_len (toks pat q) \<Longrightarrow> \<not> G"
    and "\<not> (lim \<and> IsPathSeparator (t ! ls)) \<Longrightarrow> G \<longleftrightarrow> gm up ci lim (TStar # toks pat q) (drop (ls + 1) t)"
proof -
  have ls: "ls < length t" and G: "G \<longleftrightarrow> gm up ci lim (TStar # toks pat q) (drop ls t)"
    using si unfolding star_inv_def by blast+
  have "\<not> gm up ci lim (toks pat q) (drop ls t)"
    using star_inv_here [OF si inv] no by simp
  moreover have "drop ls t = t ! ls # drop (ls + 1) t"
    using ls by (simp add: drop_Cons_nth)
  ultimately have *: "G \<longleftrightarrow> \<not> (lim \<and> IsPathSeparator (t ! ls)) \<and> gm up ci lim (TStar # toks pat q) (drop (ls + 1) t)"
    using G by simp
  then show "\<not> (lim \<and> IsPathSeparator (t ! ls)) \<Longrightarrow> G \<longleftrightarrow> gm up ci lim (TStar # toks pat q) (drop (ls + 1) t)"
    by blast
  have "\<not> gm up ci lim (TStar # toks pat q) (drop (ls + 1) t)" if "length t - (ls + 1) < min_len (toks pat q)"
    using that by (intro gmatch_too_short) simp
  with * show "(lim \<and> IsPathSeparator (t ! ls)) \<or> length t - (ls + 1) < min_len (toks pat q) \<Longrightarrow> \<not> G"
    by blast
qed

lemma HandleMismatch_ok:
  fixes t :: "'c::len word list"
  assumes ok: "tchar_ok TYPE('c)" and lens: "length pat < 2 ^ 32" "length t < 2 ^ 32"
    and inv: "wild_inv up ci lim pat t G st" and no: "\<not> gm up ci lim (toks pat (wp st)) (drop (ws st) t)"
  shows "step_ok up ci lim pat t G st (HandleMismatch up ci lim t st)"
proof (cases "lastStarP st")
  case None
  then show ?thesis
    using inv no by (auto simp: wild_inv_def HandleMismatch_def intro!: step_okI(1))
next
  case (Some q)
  then obtain ls ch where si: "star_inv up ci lim pat t G q st ls ch" and ws: "ws st \<le> length t"
    using inv by (auto simp: wild_inv_def)
  have qs: "ls < length t" "lastStarS st = Some ls" "q < length pat" "starRemainingMinLength st = min_len (toks pat q)"
      "0 < min_len (toks pat q)" and ff: "starCanFastForward st \<longrightarrow> (\<exists>ps. toks pat q = TLit (starTarget st) # ps) \<and>
        starTargetMask st = kLowBits TYPE('c) * ucast (starTarget st)"
    using si [unfolded star_inv_def] by blast+
  note goal = mismatch_goal [OF si ws no]
  define f where "f = (\<lambda>s. st\<lparr>wp := q, wrem := starRemainingMinLength st, ws := s, lastStarS := Some s\<rparr>)"
  have place: "step_ok up ci lim pat t G st (Some (WContinue (f s)))"
    if s: "ls < s" "s < length t" "G \<longleftrightarrow> gm up ci lim (TStar # toks pat q) (drop s t)" for s
  proof (rule step_okI(2) [OF refl])
    show "wild_inv up ci lim pat t G (f s)"
      using Some qs ff s by (intro star_placed [of _ q _ s]) (simp_all add: f_def)
    show "(f s, st) \<in> wild_order pat t"
      using s qs Some by (simp add: wild_order_def f_def diff_less_mono2)
  qed
  have HM: "HandleMismatch up ci lim t st =
      (if lim \<and> IsPathSeparator (t ! ls) then Some (WReturn False)
       else if length t - (ls + 1) < min_len (toks pat q) then Some (WReturn False)
       else if starCanFastForward st then
         do { r \<leftarrow> fastForward up ci lim (starTarget st) (starTargetMask st) t (min_len (toks pat q)) (ls + 1);
              case r of None \<Rightarrow> Some (WReturn False) | Some s' \<Rightarrow> Some (WContinue (f s')) }
       else Some (WContinue (f (ls + 1))))"
    using Some qs lens by (simp add: HandleMismatch_def Let_def f_def sub32_eq)
  show ?thesis
  proof (cases "lim \<and> IsPathSeparator (t ! ls) \<or> length t - (ls + 1) < min_len (toks pat q)")
    case True
    then show ?thesis
      using goal(1) unfolding HM by (intro step_okI(1)) auto
  next
    case go: False
    then have G1: "G \<longleftrightarrow> gm up ci lim (TStar # toks pat q) (drop (ls + 1) t)" and room: "ls + 1 < length t"
      using goal(2) qs by linarith+
    show ?thesis
    proof (cases "starCanFastForward st")
      case False
      with go place [of "ls + 1"] G1 room show ?thesis
        unfolding HM by auto
    next
      case True
      then obtain ps where ps: "toks pat q = TLit (starTarget st) # ps"
          and mask: "starTargetMask st = kLowBits TYPE('c) * ucast (starTarget st)"
        using ff by blast
      have "step_ok up ci lim pat t G st
          (do { r \<leftarrow> fastForward up ci lim (starTarget st) (starTargetMask st) t (min_len (toks pat q)) (ls + 1);
                case r of None \<Rightarrow> Some (WReturn False) | Some s' \<Rightarrow> Some (WContinue (f s')) })"
        unfolding mask using room by (intro scan_ok [OF ok lens(1) _ ps G1] place) simp_all
      then show ?thesis
        using go True unfolding HM by auto
    qed
  qed
qed

text \<open>
  A new star: what came before it is settled. With an earlier star this is the point where
  committing to the leftmost placement of the chunk between the two is sound.
\<close>

lemma new_star_goal:
  assumes alpha: "glob_alphabet (matchChar up ci) (\<lambda>c. lim \<and> IsPathSeparator c)"
    and inv: "wild_inv up ci lim pat t G st" and here: "toks pat (wp st) = TStar # ps"
  shows "G \<longleftrightarrow> gm up ci lim (TStar # ps) (drop (ws st) t)"
proof (cases "lastStarP st")
  case None
  then show ?thesis using inv here by (simp add: wild_inv_def)
next
  case (Some q)
  then obtain ls ch where si: "star_inv up ci lim pat t G q st ls ch"
    using inv by (auto simp: wild_inv_def)
  then have len: "length ch \<le> length (drop ls t)"
    using inv by (auto simp: wild_inv_def star_inv_def)
  have "G \<longleftrightarrow> gm up ci lim (TStar # ch @ TStar # ps) (drop ls t)"
    using si here by (simp add: star_inv_def)
  also have "\<dots> \<longleftrightarrow> gm up ci lim (TStar # ps) (drop (length ch) (drop ls t))"
    using si len by (intro glob_alphabet.commit_leftmost [OF alpha]) (auto simp: star_inv_def)
  finally show ?thesis
    using si by (simp add: star_inv_def add.commute)
qed

lemma StarStep_ok:
  fixes t :: "'c::len word list"
  assumes ok: "tchar_ok TYPE('c)" and lens: "length pat < 2 ^ 32" "length t < 2 ^ 32"
    and alpha: "glob_alphabet (matchChar up ci) (\<lambda>c. lim \<and> IsPathSeparator c)"
    and inv: "wild_inv up ci lim pat t G st" and s: "ws st < length t"
    and p: "wp st < length pat" "pat ! wp st = kStar"
  shows "step_ok up ci lim pat t G st (StarStep up ci lim pat t st)"
proof -
  define q where "q = skip_stars pat (wp st + 1)"
  have q: "wp st < q" "q \<le> length pat" "q < length pat \<longrightarrow> pat ! q \<noteq> kStar"
      and skip: "toks pat (wp st + 1) = replicate (q - (wp st + 1)) TStar @ toks pat q"
    using skip_stars_props [of "wp st + 1" pat] p unfolding q_def by auto
  have here: "toks pat (wp st) = TStar # toks pat (wp st + 1)"
    by (rule toks_star [OF p])
  have G: "G \<longleftrightarrow> gm up ci lim (TStar # toks pat q) (drop (ws st) t)"
    using new_star_goal [OF alpha inv here] by (simp only: skip gmatch_stars)
  have rem: "wrem st = min_len (toks pat q)"
    using inv here skip by (simp add: wild_inv_def)
  show ?thesis
  proof (cases "q = length pat")
    case True
    then have "G \<longleftrightarrow> \<not> lim \<or> no_separator t (ws st)"
      using G by (auto simp: gmatch_only_star no_separator_iff list_all_iff)
    with True show ?thesis
      unfolding StarStep_def q_def [symmetric] by (intro step_okI(1)) simp
  next
    case False
    then have ql: "q < length pat" "pat ! q \<noteq> kStar"
      using q by auto
    then have pos: "0 < min_len (toks pat q)"
      using toks_head_not_star [OF ql] by (metis min_len.simps(3,4) tok.exhaust zero_less_Suc)
    define st1 where "st1 = st\<lparr>wp := q, lastStarP := Some q, starRemainingMinLength := wrem st,
        starTarget := 0, starTargetMask := 0, starCanFastForward := False\<rparr>"
    have later: "(st', st) \<in> wild_order pat t" if "lastStarP st' = Some q" for st'
    proof -
      have "r \<le> wp st" if "lastStarP st = Some r" for r
        using inv that by (auto simp: wild_inv_def star_inv_def)
      then show ?thesis
        using that q(1) ql(1) by (auto simp: wild_order_def split: option.splits)
    qed
    show ?thesis
    proof (cases "pat ! q = kQuestion")
      case True
      have "wild_inv up ci lim pat t G (st1\<lparr>lastStarS := Some (ws st)\<rparr>)"
        using rem s ql pos G by (intro star_placed [of _ q _ "ws st"]) (simp_all add: st1_def)
      then show ?thesis
        using True ql False later [of "st1\<lparr>lastStarS := Some (ws st)\<rparr>"] unfolding StarStep_def q_def [symmetric]
        by (intro step_okI(2) [of _ "st1\<lparr>lastStarS := Some (ws st)\<rparr>"]) (simp_all add: st1_def Let_def)
    next
      case notq: False
      obtain x ps where x: "star_literal pat q = Some x" and ps: "toks pat q = TLit x # ps"
        using star_literal_toks [OF ql notq] by blast
      let ?f = "\<lambda>s'. st1\<lparr>starTarget := x, starTargetMask := kLowBits TYPE('c) * ucast x, starCanFastForward := True,
        ws := s', lastStarS := Some s'\<rparr>"
      have "step_ok up ci lim pat t G st (Some (WContinue (?f s')))"
        if "s' < length t" "G \<longleftrightarrow> gm up ci lim (TStar # toks pat q) (drop s' t)" for s'
        using that rem ql pos ps later by (intro step_okI(2) [OF refl] star_placed [of _ q _ s']) (simp_all add: st1_def)
      then have "step_ok up ci lim pat t G st
          (do { r \<leftarrow> fastForward up ci lim x (kLowBits TYPE('c) * ucast x) t (min_len (toks pat q)) (ws st);
                case r of None \<Rightarrow> Some (WReturn False) | Some s' \<Rightarrow> Some (WContinue (?f s')) })"
        using s by (intro scan_ok [OF ok lens(1) _ ps G]) simp_all
      then show ?thesis
        using notq ql False x unfolding StarStep_def q_def [symmetric] st1_def rem by (simp add: Let_def rem cong: option.case_cong)
    qed
  qed
qed

text \<open>A token that is not a star, against the current character.\<close>

lemma advance_ok:
  fixes t :: "'c::len word list"
  assumes lens: "length pat < 2 ^ 32" and inv: "wild_inv up ci lim pat t G st" and s: "ws st < length t"
    and a: "toks pat (wp st) = a # toks pat (wp st + n)" "a \<noteq> TStar" "wp st + n \<le> length pat" "0 < n"
    and fits: "tok_fits (matchChar up ci) (\<lambda>c. lim \<and> IsPathSeparator c) a (t ! ws st)"
  shows "step_ok up ci lim pat t G st (Some (WContinue (advance n st)))"
proof (rule step_okI(2) [OF refl])
  let ?st = "advance n st"
  have dt: "drop (ws st) t = t ! ws st # drop (ws st + 1) t"
    using s by (simp add: drop_Cons_nth)
  have "wrem st = min_len (a # toks pat (wp st + n))"
    using inv a by (simp add: wild_inv_def)
  then have "wrem st = Suc (min_len (toks pat (wp st + n)))"
    using a(2) by (cases a) simp_all
  moreover have "wrem st < 2 ^ 32"
    using inv min_len_toks [of "wp st" pat] lens by (simp add: wild_inv_def)
  ultimately have rem: "wrem ?st = min_len (toks pat (wp ?st))"
    by (simp add: advance_def sub32_eq)
  show "wild_inv up ci lim pat t G ?st"
  proof (cases "lastStarP st")
    case None
    have "gm up ci lim (a # toks pat (wp st + n)) (t ! ws st # drop (ws st + 1) t) \<longleftrightarrow>
        gm up ci lim (toks pat (wp st + n)) (drop (ws st + 1) t)"
      using fits by (cases a) simp_all
    with None rem inv a s dt show ?thesis
      by (simp add: wild_inv_def advance_def)
  next
    case (Some q)
    then obtain ls ch where si: "star_inv up ci lim pat t G q st ls ch"
      using inv by (auto simp: wild_inv_def)
    then have ws: "ws st = ls + length ch" and tk: "take (Suc (length ch)) (drop ls t) = take (length ch) (drop ls t) @ [t ! ws st]"
      using s by (auto simp: star_inv_def take_Suc_conv_app_nth)
    have parts: "lastStarS st = Some ls" "ls < length t" "q < length pat" "q \<le> wp st"
        "starRemainingMinLength st = min_len (toks pat q)" "0 < min_len (toks pat q)"
        "starCanFastForward st \<longrightarrow> (\<exists>ps. toks pat q = TLit (starTarget st) # ps) \<and>
          starTargetMask st = kLowBits TYPE('c) * ucast (starTarget st)"
        "TStar \<notin> set ch" "G \<longleftrightarrow> gm up ci lim (TStar # toks pat q) (drop ls t)"
        "list_all2 (tok_fits (matchChar up ci) (\<lambda>c. lim \<and> IsPathSeparator c)) ch (take (length ch) (drop ls t))"
      and eq: "toks pat q = ch @ toks pat (wp st)"
      using si unfolding star_inv_def by blast+
    have eq': "toks pat q = (ch @ [a]) @ toks pat (wp ?st)"
      using eq a(1) by (simp add: advance_def)
    have "star_inv up ci lim pat t G q ?st ls (ch @ [a])"
      unfolding star_inv_def
      by (intro conjI eq') (use parts ws tk a fits in \<open>simp_all add: advance_def list_all2_appendI\<close>)
    with Some rem inv a s show ?thesis
      by (auto simp: wild_inv_def advance_def)
  qed
  show "(?st, st) \<in> wild_order pat t"
    using a by (simp add: wild_order_def advance_def)
qed

lemma wild_step_ok:
  fixes t :: "'c::len word list"
  assumes ok: "tchar_ok TYPE('c)" and lens: "length pat < 2 ^ 32" "length t < 2 ^ 32"
    and alpha: "glob_alphabet (matchChar up ci) (\<lambda>c. lim \<and> IsPathSeparator c)"
    and inv: "wild_inv up ci lim pat t G st" and s: "ws st < length t"
  shows "step_ok up ci lim pat t G st (wild_step up ci lim pat t st)"
proof -
  let ?b = "\<lambda>c. lim \<and> IsPathSeparator c"
  let ?c = "t ! ws st" and ?pc = "pat ! wp st"
  let ?HM = "HandleMismatch up ci lim t st"
  have dt: "drop (ws st) t = ?c # drop (ws st + 1) t"
    using s by (simp add: drop_Cons_nth)
  have sub: "sub32 (length t) (ws st) = length t - ws st"
    using s lens by (simp add: sub32_eq)
  have mismatch: "step_ok up ci lim pat t G st ?HM" if "\<not> gm up ci lim (toks pat (wp st)) (drop (ws st) t)"
    by (rule HandleMismatch_ok [OF ok lens inv that])
  have token: "step_ok up ci lim pat t G st (if m then Some (WContinue (advance n st)) else ?HM)"
    if "toks pat (wp st) = a # toks pat (wp st + n)" "a \<noteq> TStar" "wp st + n \<le> length pat" "0 < n"
      "m \<longleftrightarrow> tok_fits (matchChar up ci) ?b a ?c" for a n m
  proof (cases m)
    case True
    then show ?thesis using that advance_ok [OF lens(1) inv s that(1-4)] by simp
  next
    case False
    then have "\<not> gm up ci lim (toks pat (wp st)) (drop (ws st) t)"
      unfolding that(1) dt using that(2,5) by (cases a) auto
    with False mismatch show ?thesis by simp
  qed
  consider (short) "length t - ws st < wrem st" | (over) "length pat \<le> wp st"
    | (go) "wrem st \<le> length t - ws st" "wp st < length pat"
    by linarith
  then show ?thesis
  proof cases
    case short
    then have "\<not> gm up ci lim (toks pat (wp st)) (drop (ws st) t)"
      using inv by (intro gmatch_too_short) (simp add: wild_inv_def)
    with short mismatch show ?thesis
      by (simp add: wild_step_def Let_def sub)
  next
    case over
    then have "toks pat (wp st) = []"
      by simp
    with over mismatch show ?thesis
      by (simp add: wild_step_def Let_def dt)
  next
    case go
    have reads: "wild_step up ci lim pat t st =
        (if ?pc = kStar then StarStep up ci lim pat t st
         else if ?pc = kQuestion then (if \<not> ?b ?c then Some (WContinue (advance 1 st)) else ?HM)
         else if ?pc = kEscape \<and> wp st + 1 < length pat \<and> is_special (pat ! (wp st + 1)) then
           (if matchChar up ci (pat ! (wp st + 1)) ?c then Some (WContinue (advance 2 st)) else ?HM)
         else (if matchChar up ci ?pc ?c then Some (WContinue (advance 1 st)) else ?HM))"
      using go s by (simp add: wild_step_def Let_def sub)
    consider (star) "?pc = kStar" | (any) "?pc \<noteq> kStar" "?pc = kQuestion"
      | (esc) "?pc \<noteq> kStar" "?pc \<noteq> kQuestion" "?pc = kEscape" "wp st + 1 < length pat" "is_special (pat ! (wp st + 1))"
      | (lit) "?pc \<noteq> kStar" "?pc \<noteq> kQuestion" "\<not> (?pc = kEscape \<and> wp st + 1 < length pat \<and> is_special (pat ! (wp st + 1)))"
      by blast
    then show ?thesis
    proof cases
      case star
      then show ?thesis
        unfolding reads using StarStep_ok [OF ok lens alpha inv s go(2)] by simp
    next
      case any
      then show ?thesis
        unfolding reads using token [OF toks_question [OF go(2) any]] go(2) by simp
    next
      case esc
      then show ?thesis
        unfolding reads using token [OF toks_escaped [OF esc(4,1,2,3,5)]] by simp
    next
      case lit
      then show ?thesis
        unfolding reads if_not_P [OF lit(1)] if_not_P [OF lit(2)] if_not_P [OF lit(3)]
        using token [OF toks_lit [OF go(2) lit]] go(2) by simp
    qed
  qed
qed

lemma wild_end_ok:
  assumes inv: "wild_inv up ci lim pat t G st" and s: "ws st = length t"
  shows "G \<longleftrightarrow> skip_stars pat (wp st) = length pat"
proof -
  have stars: "gm up ci lim (toks pat (wp st)) [] \<longleftrightarrow> skip_stars pat (wp st) = length pat"
    using inv skip_stars_all by (auto simp: wild_inv_def gmatch_Nil_iff)
  show ?thesis
  proof (cases "lastStarP st")
    case None
    then show ?thesis using inv s stars by (simp add: wild_inv_def)
  next
    case (Some q)
    then obtain ls ch where si: "star_inv up ci lim pat t G q st ls ch"
      using inv by (auto simp: wild_inv_def)
    have len: "length (drop ls t) = length ch"
      using si s by (auto simp: star_inv_def)
    have star: "TStar \<notin> set ch" and eq: "toks pat q = ch @ toks pat (wp st)"
      using si unfolding star_inv_def by blast+
    have "gm up ci lim (TStar # toks pat q) (drop ls t) \<longleftrightarrow> gm up ci lim (toks pat q) (drop ls t)"
    proof
      assume "gm up ci lim (TStar # toks pat q) (drop ls t)"
      then obtain i where "i \<le> length ch" and "gm up ci lim (toks pat q) (drop i (drop ls t))"
        unfolding gmatch_star len by blast
      moreover from this have "length ch \<le> length (drop i (drop ls t))"
        unfolding eq gmatch_chunk [OF star] by blast
      then have "length ch \<le> length ch - i"
        by (simp only: length_drop [of i] len)
      ultimately show "gm up ci lim (toks pat q) (drop ls t)"
        by (cases i) auto
    next
      assume "gm up ci lim (toks pat q) (drop ls t)"
      then show "gm up ci lim (TStar # toks pat q) (drop ls t)"
        unfolding gmatch_star by (intro exI [of _ 0]) simp
    qed
    also have "\<dots> \<longleftrightarrow> gm up ci lim (toks pat (wp st)) (drop (ws st) t)"
      using star_inv_here [OF si] s by simp
    also have "\<dots> \<longleftrightarrow> skip_stars pat (wp st) = length pat"
      using stars s by simp
    finally show ?thesis
      using si by (simp add: star_inv_def)
  qed
qed

lemma wild_loop_ok:
  fixes t :: "'c::len word list"
  assumes ok: "tchar_ok TYPE('c)" and lens: "length pat < 2 ^ 32" "length t < 2 ^ 32"
    and alpha: "glob_alphabet (matchChar up ci) (\<lambda>c. lim \<and> IsPathSeparator c)"
  shows "wild_inv up ci lim pat t G st \<Longrightarrow> wild_loop up ci lim pat t st = Some G"
proof (induction st rule: wf_induct_rule [OF wf_wild_order [of pat t]])
  case (1 st)
  show ?case
  proof (cases "ws st < length t")
    case True
    from wild_step_ok [OF ok lens alpha 1(2) True] True 1(1) show ?thesis
      by (subst wild_loop.simps) (auto simp: step_ok_def)
  next
    case False
    then have "ws st = length t"
      using 1(2) by (simp add: wild_inv_def)
    with wild_end_ok [OF 1(2) this] False show ?thesis
      by (subst wild_loop.simps) simp
  qed
qed

text \<open>
  The state machine decides the meaning of the pattern: no read is out of bounds, it stops,
  and its answer is the match of the tokens against the text.
\<close>

theorem WildCardMatch_eq:
  fixes t :: "'c::len word list"
  assumes "tchar_ok TYPE('c)" "length pat < 2 ^ 32" "length t < 2 ^ 32"
    and "glob_alphabet (matchChar up ci) (\<lambda>c. lim \<and> IsPathSeparator c)"
    and "r = min_len (tokens pat)"
  shows "WildCardMatch up ci lim pat t r = Some (gm up ci lim (tokens pat) t)"
  unfolding WildCardMatch_def
  using assms by (intro wild_loop_ok) (simp_all add: wild_inv_def initial_state_def)

end
