(* ===== verification/PatternParse.thy ===== *)
theory PatternParse
  imports WildCardMatch
begin

text \<open>
  The parsing loops of \<open>KmStringPatternMatch::AddPattern\<close>: splitting a pattern into its
  unescaped literal prefix, its wildcard part and its unescaped literal tail, with the
  lengths the search filters on. Each loop is a recursive function over the same indices.
  The theorems relate every result to the tokens of the pattern.
\<close>

section \<open>The loops of \<open>AddPattern\<close>\<close>

definition fold_char :: "('c::len word \<Rightarrow> 'c word) \<Rightarrow> bool \<Rightarrow> 'c word \<Rightarrow> 'c word" where
  "fold_char up ci c = (if ci then ToUpperFast up c else c)"

text \<open>An escape at \<open>i\<close>: \<open>w[i] == kEscape && i + 1 < n\<close> and the next character is special.\<close>

definition escape_at :: "'c::len word list \<Rightarrow> nat \<Rightarrow> nat \<Rightarrow> bool" where
  "escape_at w n i \<longleftrightarrow> w ! i = kEscape \<and> i + 1 < n \<and> is_special (w ! (i + 1))"

text \<open>Phase 1: raw and unescaped length of the literal prefix.\<close>

function parse_prefix :: "'c::len word list \<Rightarrow> nat \<Rightarrow> nat \<Rightarrow> nat \<times> nat" where
  "parse_prefix sPattern prefixRawLen prefixUnescapedLen =
     (if prefixRawLen < length sPattern then
        let c = sPattern ! prefixRawLen
        in if c = kStar \<or> c = kQuestion then (prefixRawLen, prefixUnescapedLen)
           else if escape_at sPattern (length sPattern) prefixRawLen
           then parse_prefix sPattern (prefixRawLen + 2) (prefixUnescapedLen + 1)
           else parse_prefix sPattern (prefixRawLen + 1) (prefixUnescapedLen + 1)
      else (prefixRawLen, prefixUnescapedLen))"
  by pat_completeness auto
termination by (relation "measure (\<lambda>(cs, i, _). length cs - i)") auto

text \<open>The characters written to the stable buffer: the unescaped prefix, then the rest as it is.\<close>

function copy_prefix :: "('c::len word \<Rightarrow> 'c word) \<Rightarrow> bool \<Rightarrow> 'c word list \<Rightarrow> nat \<Rightarrow> nat \<Rightarrow> 'c word list" where
  "copy_prefix up ci sPattern prefixRawLen srcIdx =
     (if srcIdx < prefixRawLen then
        if escape_at sPattern prefixRawLen srcIdx
        then fold_char up ci (sPattern ! (srcIdx + 1)) # copy_prefix up ci sPattern prefixRawLen (srcIdx + 2)
        else fold_char up ci (sPattern ! srcIdx) # copy_prefix up ci sPattern prefixRawLen (srcIdx + 1)
      else [])"
  by pat_completeness auto
termination by (relation "measure (\<lambda>(_, _, _, n, i). n - i)") auto

definition copy_suffix :: "('c::len word \<Rightarrow> 'c word) \<Rightarrow> bool \<Rightarrow> 'c word list \<Rightarrow> nat \<Rightarrow> 'c word list" where
  "copy_suffix up ci sPattern prefixRawLen =
     map (\<lambda>i. fold_char up ci (sPattern ! (prefixRawLen + i))) [0..<length sPattern - prefixRawLen]"

text \<open>Minimum match length of the wildcard part.\<close>

function suffix_min_length :: "'c::len word list \<Rightarrow> nat \<Rightarrow> nat \<Rightarrow> nat" where
  "suffix_min_length w i suffixMinLength =
     (if i < length w then
        if escape_at w (length w) i then suffix_min_length w (i + 2) (suffixMinLength + 1)
        else suffix_min_length w (i + 1) (if w ! i \<noteq> kStar then suffixMinLength + 1 else suffixMinLength)
      else suffixMinLength)"
  by pat_completeness auto
termination by (relation "measure (\<lambda>(w, i, _). length w - i)") auto

text \<open>Tail anchoring: one past the last wildcard, and the literal tail behind it.\<close>

function last_wildcard_end :: "'c::len word list \<Rightarrow> nat \<Rightarrow> nat \<Rightarrow> nat" where
  "last_wildcard_end w i lastWildcardEnd =
     (if i < length w then
        if escape_at w (length w) i then last_wildcard_end w (i + 2) lastWildcardEnd
        else last_wildcard_end w (i + 1)
               (if w ! i = kStar \<or> w ! i = kQuestion then i + 1 else lastWildcardEnd)
      else lastWildcardEnd)"
  by pat_completeness auto
termination by (relation "measure (\<lambda>(w, i, _). length w - i)") auto

function tail_unescaped_len :: "'c::len word list \<Rightarrow> nat \<Rightarrow> nat \<Rightarrow> nat" where
  "tail_unescaped_len w i tailUnescapedLen =
     (if i < length w then
        if escape_at w (length w) i then tail_unescaped_len w (i + 2) (tailUnescapedLen + 1)
        else tail_unescaped_len w (i + 1) (tailUnescapedLen + 1)
      else tailUnescapedLen)"
  by pat_completeness auto
termination by (relation "measure (\<lambda>(w, i, _). length w - i)") auto

function copy_tail :: "'c::len word list \<Rightarrow> nat \<Rightarrow> 'c word list" where
  "copy_tail w i =
     (if i < length w then
        if escape_at w (length w) i then w ! (i + 1) # copy_tail w (i + 2)
        else w ! i # copy_tail w (i + 1)
      else [])"
  by pat_completeness auto
termination by (relation "measure (\<lambda>(w, i). length w - i)") auto

text \<open>
  \<open>FirstLiteralChar\<close> of a slow-path entry, \<open>0\<close> when there is none: \<open>w\<close> is the trimmed
  wildcard suffix.
\<close>

function first_literal_char :: "'c::len word list \<Rightarrow> nat \<Rightarrow> bool \<Rightarrow> bool \<Rightarrow> 'c word" where
  "first_literal_char w i bSeenStar bSeenQuestion =
     (if i < length w then
        let c = w ! i
        in if c = kEscape \<and> i + 1 < length w then
             (if bSeenStar \<and> bSeenQuestion then
                (if is_special (w ! (i + 1)) then w ! (i + 1) else c)
              else 0)
           else if c = kStar then first_literal_char w (i + 1) True bSeenQuestion
           else if c = kQuestion then first_literal_char w (i + 1) bSeenStar True
           else if bSeenStar \<and> bSeenQuestion then c else 0
      else 0)"
  by pat_completeness auto
termination by (relation "measure (\<lambda>(w, i, _). length w - i)") auto

declare parse_prefix.simps [simp del] copy_prefix.simps [simp del] suffix_min_length.simps [simp del]
  last_wildcard_end.simps [simp del] tail_unescaped_len.simps [simp del] copy_tail.simps [simp del]
  first_literal_char.simps [simp del]

section \<open>Walking over a pattern token by token\<close>

lemma special_distinct:
  assumes "tchar_ok TYPE('c::len)"
  shows "(kStar :: 'c word) \<noteq> kQuestion" "(kStar :: 'c word) \<noteq> kEscape" "(kQuestion :: 'c word) \<noteq> kEscape"
proof -
  have "unat (kStar :: 'c word) = 42" "unat (kQuestion :: 'c word) = 63" "unat (kEscape :: 'c word) = 124"
    using assms by (auto simp: tchar_ok_def kStar_def kQuestion_def kEscape_def)
  then show "(kStar :: 'c word) \<noteq> kQuestion" "(kStar :: 'c word) \<noteq> kEscape" "(kQuestion :: 'c word) \<noteq> kEscape"
    by (auto dest: arg_cong [where f = unat])
qed

definition tok1 :: "'c::len word \<Rightarrow> 'c word tok" where
  "tok1 c = (if c = kStar then TStar else if c = kQuestion then TAny else TLit c)"

lemma tokens_plain:
  "\<not> (c = kEscape \<and> (\<exists>d ds. cs = d # ds \<and> is_special d)) \<Longrightarrow> tokens (c # cs) = tok1 c # tokens cs"
  by (cases cs) (auto simp: tok1_def)

lemma tokens_escape:
  "tchar_ok TYPE('c::len) \<Longrightarrow> is_special (d :: 'c word) \<Longrightarrow> tokens (kEscape # d # cs) = TLit d # tokens cs"
  using special_distinct by (metis tokens.simps(3))

lemma drop_escape:
  "escape_at w (length w) i \<Longrightarrow> drop i w = kEscape # w ! (i + 1) # drop (i + 2) w \<and> is_special (w ! (i + 1))"
  by (simp add: escape_at_def Cons_nth_drop_Suc flip: Cons_nth_drop_Suc)

lemma toks_escape:
  fixes w :: "'c::len word list"
  assumes "tchar_ok TYPE('c)" "escape_at w (length w) i"
  shows "toks w i = TLit (w ! (i + 1)) # toks w (i + 2)"
  using drop_escape [OF assms(2)] tokens_escape [OF assms(1)] by simp

lemma toks_plain:
  assumes "i < length w" "\<not> escape_at w (length w) i"
  shows "toks w i = tok1 (w ! i) # toks w (i + 1)"
proof -
  have "\<not> (w ! i = kEscape \<and> (\<exists>d ds. drop (i + 1) w = d # ds \<and> is_special d))"
    using assms by (auto simp: escape_at_def dest: nth_via_drop)
  then show ?thesis
    using tokens_plain assms(1) by (simp add: drop_Cons_nth)
qed

text \<open>
  \<open>cut w i r\<close>: walking over whole tokens leads from position \<open>i\<close> to position \<open>r\<close>, so the
  pattern may be cut at \<open>r\<close> without splitting an escape.
\<close>

inductive cut :: "'c::len word list \<Rightarrow> nat \<Rightarrow> nat \<Rightarrow> bool" for w :: "'c word list" where
  cut_end: "r \<le> length w \<Longrightarrow> cut w r r"
| cut_escape: "escape_at w (length w) i \<Longrightarrow> cut w (i + 2) r \<Longrightarrow> cut w i r"
| cut_plain: "i < length w \<Longrightarrow> \<not> escape_at w (length w) i \<Longrightarrow> cut w (i + 1) r \<Longrightarrow> cut w i r"

inductive_cases cut_cases: "cut w i r"

lemma cut_bounds: "cut w i r \<Longrightarrow> i \<le> r \<and> r \<le> length w"
  by (induction rule: cut.induct) auto

lemma cut_tokens:
  fixes w :: "'c::len word list"
  assumes ok: "tchar_ok TYPE('c)"
  shows "cut w i r \<Longrightarrow> toks w i = tokens (take (r - i) (drop i w)) @ toks w r"
proof (induction rule: cut.induct)
  case (cut_end r)
  then show ?case by simp
next
  case (cut_escape i r)
  then have "i + 2 \<le> r"
    using cut_bounds by blast
  then have n: "r - i = Suc (Suc (r - (i + 2)))"
    by simp
  from drop_escape [OF cut_escape(1)]
  have "take (r - i) (drop i w) = kEscape # w ! (i + 1) # take (r - (i + 2)) (drop (i + 2) w)"
    unfolding n by simp
  then show ?case
    using cut_escape drop_escape [OF cut_escape(1)] tokens_escape [OF ok] toks_escape [OF ok] by simp
next
  case (cut_plain i r)
  then have "i + 1 \<le> r"
    using cut_bounds by blast
  then have n: "r - i = Suc (r - (i + 1))"
    by simp
  define rest where "rest = take (r - (i + 1)) (drop (i + 1) w)"
  have seg: "take (r - i) (drop i w) = w ! i # rest"
    unfolding n rest_def using cut_plain(1) by (simp add: drop_Cons_nth)
  have "\<not> (w ! i = kEscape \<and> (\<exists>d ds. rest = d # ds \<and> is_special d))"
  proof
    assume a: "w ! i = kEscape \<and> (\<exists>d ds. rest = d # ds \<and> is_special d)"
    then obtain d ds where d: "rest = d # ds" "is_special d"
      by blast
    then have "0 < length rest"
      by simp
    then have "i + 1 < length w" and "rest ! 0 = w ! (i + 1)"
      unfolding rest_def by auto
    with a d cut_plain(2) show False
      by (simp add: escape_at_def)
  qed
  then show ?case
    unfolding seg tokens_plain [of "w ! i" rest] using cut_plain toks_plain [of i w]
    by (simp add: tokens_plain rest_def)
qed

lemma cut_escape_at:
  assumes "cut w i r" "i < r"
  shows "escape_at w r i \<longleftrightarrow> escape_at w (length w) i"
proof
  assume "escape_at w (length w) i"
  moreover from this assms have "cut w (i + 2) r"
    by (auto elim: cut_cases)
  then have "i + 2 \<le> r"
    using cut_bounds by blast
  ultimately show "escape_at w r i"
    by (simp add: escape_at_def)
next
  assume "escape_at w r i"
  then show "escape_at w (length w) i"
    using cut_bounds [OF assms(1)] by (auto simp: escape_at_def)
qed

section \<open>What the loops compute\<close>

abbreviation lits :: "'c::len word list \<Rightarrow> 'c word tok list" where
  "lits cs \<equiv> map TLit cs"

lemma tok1_lit: "c \<noteq> kStar \<Longrightarrow> c \<noteq> kQuestion \<Longrightarrow> tok1 c = TLit c"
  by (simp add: tok1_def)

lemma parse_prefix_cases:
  "length p \<le> i \<Longrightarrow> parse_prefix p i u = (i, u)"
  "i < length p \<Longrightarrow> p ! i = kStar \<or> p ! i = kQuestion \<Longrightarrow> parse_prefix p i u = (i, u)"
  "i < length p \<Longrightarrow> p ! i \<noteq> kStar \<Longrightarrow> p ! i \<noteq> kQuestion \<Longrightarrow> escape_at p (length p) i \<Longrightarrow>
     parse_prefix p i u = parse_prefix p (i + 2) (u + 1)"
  "i < length p \<Longrightarrow> p ! i \<noteq> kStar \<Longrightarrow> p ! i \<noteq> kQuestion \<Longrightarrow> \<not> escape_at p (length p) i \<Longrightarrow>
     parse_prefix p i u = parse_prefix p (i + 1) (u + 1)"
  by (subst parse_prefix.simps, simp add: Let_def)+

lemma parse_prefix_walk:
  fixes p :: "'c::len word list"
  assumes ok: "tchar_ok TYPE('c)"
  shows "i \<le> length p \<Longrightarrow> parse_prefix p i u = (raw, u') \<Longrightarrow>
     cut p i raw \<and> (raw = length p \<or> p ! raw = kStar \<or> p ! raw = kQuestion) \<and>
     (\<exists>ls. toks p i = lits ls @ toks p raw \<and> u' = u + length ls)"
proof (induction "length p - i" arbitrary: i u rule: less_induct)
  case less
  consider (over) "length p \<le> i" | (stop) "i < length p" "p ! i = kStar \<or> p ! i = kQuestion"
    | (esc) "i < length p" "p ! i \<noteq> kStar" "p ! i \<noteq> kQuestion" "escape_at p (length p) i"
    | (lit) "i < length p" "p ! i \<noteq> kStar" "p ! i \<noteq> kQuestion" "\<not> escape_at p (length p) i"
    by linarith
  then show ?case
  proof cases
    case over
    then have "raw = i" "u' = u" "raw = length p"
      using less.prems parse_prefix_cases(1) [of p i u] by auto
    then show ?thesis
      by (auto intro: cut_end)
  next
    case stop
    then have "raw = i" "u' = u"
      using less.prems parse_prefix_cases(2) [of i p u] by auto
    with stop show ?thesis
      by (auto intro: cut_end)
  next
    case esc
    have bound: "i + 2 \<le> length p" "length p - (i + 2) < length p - i"
      using esc by (auto simp: escape_at_def)
    from less.hyps [OF bound(2,1)] less.prems(2) obtain ls where
      IH: "cut p (i + 2) raw" "raw = length p \<or> p ! raw = kStar \<or> p ! raw = kQuestion"
        "toks p (i + 2) = lits ls @ toks p raw" "u' = u + 1 + length ls"
      unfolding parse_prefix_cases(3) [OF esc] by blast
    have "toks p i = lits (p ! (i + 1) # ls) @ toks p raw"
      using toks_escape [OF ok esc(4)] IH(3) by simp
    moreover have "u' = u + length (p ! (i + 1) # ls)"
      using IH(4) by simp
    ultimately show ?thesis
      using cut_escape [OF esc(4) IH(1)] IH(2) by blast
  next
    case lit
    have bound: "i + 1 \<le> length p" "length p - (i + 1) < length p - i"
      using lit by auto
    from less.hyps [OF bound(2,1)] less.prems(2) obtain ls where
      IH: "cut p (i + 1) raw" "raw = length p \<or> p ! raw = kStar \<or> p ! raw = kQuestion"
        "toks p (i + 1) = lits ls @ toks p raw" "u' = u + 1 + length ls"
      unfolding parse_prefix_cases(4) [OF lit] by blast
    have "toks p i = lits (p ! i # ls) @ toks p raw"
      using toks_plain [OF lit(1,4)] tok1_lit [OF lit(2,3)] IH(3) by simp
    moreover have "u' = u + length (p ! i # ls)"
      using IH(4) by simp
    ultimately show ?thesis
      using cut_plain [OF lit(1,4) IH(1)] IH(2) by blast
  qed
qed

lemma copy_prefix_walk:
  fixes p :: "'c::len word list"
  assumes ok: "tchar_ok TYPE('c)"
  shows "cut p i raw \<Longrightarrow> toks p i = lits ls @ toks p raw \<Longrightarrow>
     copy_prefix up ci p raw i = map (fold_char up ci) ls"
proof (induction i raw arbitrary: ls rule: cut.induct)
  case (cut_end r)
  then show ?case by (subst copy_prefix.simps) simp
next
  case (cut_escape i r)
  have c: "cut p i r"
    using cut_escape(1,2) by (rule cut.cut_escape)
  have "i < r"
    using cut_bounds [OF cut_escape(2)] by simp
  with c cut_escape(1) have e: "escape_at p r i"
    using cut_escape_at by blast
  have bound: "length (toks p r) < length (toks p i)"
    using cut_tokens [OF ok cut_escape(2)] toks_escape [OF ok cut_escape(1)] by simp
  then obtain l ls' where ls: "ls = l # ls'"
    using cut_escape(4) by (cases ls) auto
  then have "l = p ! (i + 1)" "toks p (i + 2) = lits ls' @ toks p r"
    using cut_escape(4) toks_escape [OF ok cut_escape(1)] by simp_all
  with cut_escape(3) e \<open>i < r\<close> show ?case
    by (subst copy_prefix.simps) (simp add: ls)
next
  case (cut_plain i r)
  have c: "cut p i r"
    using cut_plain(1-3) by (rule cut.cut_plain)
  have "i < r"
    using cut_bounds [OF cut_plain(3)] by simp
  with c cut_plain(2) have e: "\<not> escape_at p r i"
    using cut_escape_at by blast
  have bound: "length (toks p r) < length (toks p i)"
    using cut_tokens [OF ok cut_plain(3)] toks_plain [OF cut_plain(1,2)] by simp
  then obtain l ls' where ls: "ls = l # ls'"
    using cut_plain(5) by (cases ls) auto
  then have "l = p ! i" "toks p (i + 1) = lits ls' @ toks p r"
    using cut_plain(5) toks_plain [OF cut_plain(1,2)] by (simp_all add: tok1_def split: if_splits)
  with cut_plain(4) e \<open>i < r\<close> show ?case
    by (subst copy_prefix.simps) (simp add: ls)
qed

text \<open>The split of a pattern into its literal prefix and the rest.\<close>

theorem parse_prefix_split:
  fixes p :: "'c::len word list"
  assumes "tchar_ok TYPE('c)" "parse_prefix p 0 0 = (raw, u)"
  shows "raw \<le> length p" "length (copy_prefix up ci p raw 0) = u" "u \<le> raw"
    "map (map_tok (fold_char up ci)) (tokens p) =
       lits (copy_prefix up ci p raw 0) @ map (map_tok (fold_char up ci)) (tokens (drop raw p))"
    "raw < length p \<Longrightarrow> p ! raw = kStar \<or> p ! raw = kQuestion"
proof -
  obtain ls where w: "cut p 0 raw" "raw = length p \<or> p ! raw = kStar \<or> p ! raw = kQuestion"
      "toks p 0 = lits ls @ toks p raw" "u = length ls"
    using parse_prefix_walk [OF assms(1) _ assms(2)] by auto
  have copy: "copy_prefix up ci p raw 0 = map (fold_char up ci) ls"
    by (rule copy_prefix_walk [OF assms(1) w(1,3)])
  show "raw \<le> length p"
    using cut_bounds [OF w(1)] by simp
  show "length (copy_prefix up ci p raw 0) = u"
    by (simp add: copy w(4))
  show "map (map_tok (fold_char up ci)) (tokens p) =
       lits (copy_prefix up ci p raw 0) @ map (map_tok (fold_char up ci)) (tokens (drop raw p))"
    using w(3) by (simp add: copy)
  show "raw < length p \<Longrightarrow> p ! raw = kStar \<or> p ! raw = kQuestion"
    using w(2) by auto
  have "lits ls = tokens (take raw p)"
    using cut_tokens [OF assms(1) w(1)] w(3) by simp
  then have "length ls \<le> length (take raw p)"
    using length_tokens [of "take raw p"] by (metis length_map)
  then show "u \<le> raw"
    by (simp add: w(4))
qed

section \<open>The wildcard part\<close>

theorem suffix_min_length_eq:
  fixes w :: "'c::len word list"
  assumes ok: "tchar_ok TYPE('c)"
  shows "suffix_min_length w i n = n + min_len (toks w i)"
proof (induction w i n rule: suffix_min_length.induct)
  case (1 w i n)
  consider (over) "length w \<le> i" | (esc) "i < length w" "escape_at w (length w) i"
    | (plain) "i < length w" "\<not> escape_at w (length w) i"
    by linarith
  then show ?case
  proof cases
    case over
    then show ?thesis by (subst suffix_min_length.simps) simp
  next
    case esc
    then show ?thesis
      using 1(1) toks_escape [OF ok esc(2)] by (subst suffix_min_length.simps) simp
  next
    case plain
    then show ?thesis
      using 1(2) toks_plain [OF plain] by (subst suffix_min_length.simps) (simp add: tok1_def)
  qed
qed

lemma copy_tail_lits:
  fixes w :: "'c::len word list"
  assumes ok: "tchar_ok TYPE('c)"
  shows "toks w i = lits ls \<Longrightarrow> copy_tail w i = ls"
proof (induction w i arbitrary: ls rule: copy_tail.induct)
  case (1 w i)
  consider (over) "length w \<le> i" | (esc) "i < length w" "escape_at w (length w) i"
    | (plain) "i < length w" "\<not> escape_at w (length w) i"
    by linarith
  then show ?case
  proof cases
    case over
    then show ?thesis using 1(3) by (subst copy_tail.simps) simp
  next
    case esc
    then obtain ls' where "ls = w ! (i + 1) # ls'" "toks w (i + 2) = lits ls'"
      using 1(3) toks_escape [OF ok esc(2)] by (cases ls) auto
    then show ?thesis
      using 1(1) esc by (subst copy_tail.simps) simp
  next
    case plain
    then obtain ls' where "ls = w ! i # ls'" "toks w (i + 1) = lits ls'"
      using 1(3) toks_plain [OF plain] by (cases ls) (auto simp: tok1_def split: if_splits)
    then show ?thesis
      using 1(2) plain by (subst copy_tail.simps) simp
  qed
qed

theorem tail_unescaped_len_eq: "tail_unescaped_len w i n = n + length (copy_tail w i)"
proof (induction w i n rule: tail_unescaped_len.induct)
  case (1 w i n)
  then show ?case
    by (subst tail_unescaped_len.simps, subst copy_tail.simps) simp
qed

text \<open>
  From position \<open>i\<close> on: either no wildcard is left, or the result is one past the last one,
  a position at which the pattern may be cut, with literals behind it only.
\<close>

definition all_lits :: "'c::len word tok list \<Rightarrow> bool" where
  "all_lits ts \<longleftrightarrow> (\<exists>ls. ts = lits ls)"

lemma all_lits_simps [simp]:
  "all_lits []" "all_lits (TLit c # ts) \<longleftrightarrow> all_lits ts" "\<not> all_lits (TStar # ts)" "\<not> all_lits (TAny # ts)"
proof -
  show "all_lits (TLit c # ts) \<longleftrightarrow> all_lits ts"
    unfolding all_lits_def by (metis list.simps(9) map_eq_Cons_D tok.inject)
qed (auto simp: all_lits_def)

definition wild_end :: "'c::len word list \<Rightarrow> nat \<Rightarrow> nat \<Rightarrow> nat \<Rightarrow> bool" where
  "wild_end w i e r \<longleftrightarrow>
     r = e \<and> all_lits (toks w i) \<or> i < r \<and> cut w i r \<and> all_lits (toks w r)"

lemma wild_end_escape:
  assumes "tchar_ok TYPE('c::len)" "escape_at (w :: 'c word list) (length w) i" "wild_end w (i + 2) e r"
  shows "wild_end w i e r"
  using assms(3) toks_escape [OF assms(1,2)] cut_escape [OF assms(2), of r] by (auto simp: wild_end_def)

lemma wild_end_plain:
  assumes "i < length w" "\<not> escape_at w (length w) i"
    and "wild_end w (i + 1) (if w ! i = kStar \<or> w ! i = kQuestion then i + 1 else e) r"
  shows "wild_end w i e r"
proof (cases "w ! i = kStar \<or> w ! i = kQuestion")
  case True
  have "cut w i (i + 1)"
    using assms(1) by (intro cut_plain [OF assms(1,2) cut_end]) simp
  with True show ?thesis
    using assms(3) cut_plain [OF assms(1,2), of r] by (auto simp: wild_end_def)
next
  case False
  then show ?thesis
    using assms(3) toks_plain [OF assms(1,2)] cut_plain [OF assms(1,2), of r]
    by (auto simp: wild_end_def tok1_lit)
qed

lemma last_wildcard_end_walk:
  fixes w :: "'c::len word list"
  assumes ok: "tchar_ok TYPE('c)"
  shows "wild_end w i e (last_wildcard_end w i e)"
proof (induction w i e rule: last_wildcard_end.induct)
  case (1 w i e)
  consider (over) "length w \<le> i" | (esc) "i < length w" "escape_at w (length w) i"
    | (plain) "i < length w" "\<not> escape_at w (length w) i"
    by linarith
  then show ?case
  proof cases
    case over
    then show ?thesis by (subst last_wildcard_end.simps) (simp add: wild_end_def)
  next
    case esc
    then show ?thesis
      using wild_end_escape [OF ok esc(2) 1(1)] by (subst last_wildcard_end.simps) simp
  next
    case plain
    then show ?thesis
      using wild_end_plain [OF plain 1(2)] by (subst last_wildcard_end.simps) simp
  qed
qed

text \<open>The trimmed suffix and the tail anchor together are the wildcard part.\<close>

theorem last_wildcard_end_split:
  fixes w :: "'c::len word list"
  assumes ok: "tchar_ok TYPE('c)"
  defines "e \<equiv> last_wildcard_end w 0 0"
  shows "e \<le> length w" "tokens w = tokens (take e w) @ lits (copy_tail w e)"
    and "w \<noteq> [] \<Longrightarrow> w ! 0 = kStar \<or> w ! 0 = kQuestion \<Longrightarrow> 0 < e"
proof -
  have walk: "wild_end w 0 0 e"
    using last_wildcard_end_walk [OF ok, of w 0 0] by (simp add: e_def)
  then have c: "cut w 0 e" and lits: "all_lits (toks w e)"
    by (auto simp: wild_end_def intro: cut_end)
  show "e \<le> length w"
    using cut_bounds [OF c] by simp
  obtain ls where ls: "toks w e = lits ls"
    using lits by (auto simp: all_lits_def)
  show "tokens w = tokens (take e w) @ lits (copy_tail w e)"
    using cut_tokens [OF ok c] ls copy_tail_lits [OF ok ls] by simp
  show "0 < e" if "w \<noteq> []" "w ! 0 = kStar \<or> w ! 0 = kQuestion"
  proof (rule ccontr)
    assume "\<not> 0 < e"
    then have "all_lits (toks w 0)"
      using walk by (simp add: wild_end_def)
    moreover have "\<not> escape_at w (length w) 0"
      using that special_distinct [OF ok] by (auto simp: escape_at_def)
    then have "toks w 0 = tok1 (w ! 0) # toks w 1"
      using toks_plain [of 0 w] that by simp
    ultimately show False
      using that by (auto simp: tok1_def split: if_splits)
  qed
qed

section \<open>Case folding and the special characters\<close>

text \<open>
  What is relied on of \<open>RtlUpcaseUnicodeChar\<close>: it maps no character above 127 to an operator
  of the pattern language or to the path separator. It matters only where the code calls it,
  for 16-bit characters with case folding.
\<close>

definition upcase_ok :: "('c::len word \<Rightarrow> 'c word) \<Rightarrow> bool" where
  "upcase_ok up \<longleftrightarrow> (\<forall>c. 127 < unat c \<longrightarrow> \<not> is_special (up c) \<and> \<not> IsPathSeparator (up c))"

definition case_table_ok :: "('c::len word \<Rightarrow> 'c word) \<Rightarrow> bool \<Rightarrow> bool" where
  "case_table_ok up ci \<longleftrightarrow> (ci \<longrightarrow> LENGTH('c) = 8 \<or> upcase_ok up)"

lemma upcase_ok_id:
  assumes "tchar_ok TYPE('c::len)"
  shows "upcase_ok (id :: 'c word \<Rightarrow> 'c word)"
proof -
  have "unat (kStar :: 'c word) = 42" "unat (kQuestion :: 'c word) = 63" "unat (kEscape :: 'c word) = 124"
      "unat (92 :: 'c word) = 92"
    using assms by (auto simp: tchar_ok_def kStar_def kQuestion_def kEscape_def)
  then show ?thesis
    by (auto simp: upcase_ok_def is_special_def IsPathSeparator_def)
qed

lemma ToUpperFast_fixed:
  fixes c v :: "'c::len word"
  assumes ok: "tchar_ok TYPE('c)" and table: "LENGTH('c) = 8 \<or> upcase_ok up"
    and v: "is_special v \<or> IsPathSeparator v"
  shows "ToUpperFast up c = v \<longleftrightarrow> c = v"
proof -
  have uv: "unat v \<in> {42, 63, 124, 92}"
    using ok v by (auto simp: tchar_ok_def is_special_def IsPathSeparator_def kStar_def kQuestion_def kEscape_def)
  show ?thesis
  proof (cases "unat c < 128")
    case True
    have "unat (32 :: 'c word) = 32"
      using ok by (auto simp: tchar_ok_def)
    then have "unat (c - 32) = unat c - 32" if "97 \<le> unat c"
      using that by (simp add: unat_sub_if')
    then have "c - 32 \<noteq> v" "c \<noteq> v" if "97 \<le> unat c" "unat c \<le> 122"
      using that uv by auto
    then show ?thesis
      by (auto simp: ToUpperFast_ascii [OF ok True])
  next
    case False
    then have "c \<noteq> v"
      using uv by auto
    moreover have "ToUpperFast up c \<noteq> v"
    proof (cases "LENGTH('c) = 8")
      case True
      have "unat (122 :: 'c word) = 122" "unat (97 :: 'c word) = 97"
        using ok by (auto simp: tchar_ok_def)
      then have "\<not> c \<le> 122"
        using False by (simp add: word_le_nat_alt)
      with True \<open>c \<noteq> v\<close> show ?thesis
        by (simp add: ToUpperFast_def)
    next
      case wide: False
      have "unat (127 :: 'c word) = 127"
        using ok by (auto simp: tchar_ok_def)
      then have "\<not> c \<le> 127"
        using False by (simp add: word_le_nat_alt)
      then have "ToUpperFast up c = up c"
        using wide by (simp add: ToUpperFast_def)
      moreover have "\<not> is_special (up c) \<and> \<not> IsPathSeparator (up c)"
        using wide table False by (auto simp: upcase_ok_def)
      ultimately show ?thesis
        using v by auto
    qed
    ultimately show ?thesis by simp
  qed
qed

lemma fold_char_fixed:
  fixes c v :: "'c::len word"
  assumes "tchar_ok TYPE('c)" "case_table_ok up ci" "is_special v \<or> IsPathSeparator v"
  shows "fold_char up ci c = v \<longleftrightarrow> c = v"
  using assms ToUpperFast_fixed by (auto simp: fold_char_def case_table_ok_def)

lemma fold_char_special:
  fixes c :: "'c::len word"
  assumes "tchar_ok TYPE('c)" "case_table_ok up ci"
  shows "is_special (fold_char up ci c) \<longleftrightarrow> is_special c"
    and "is_special c \<Longrightarrow> fold_char up ci c = c"
  using fold_char_fixed [OF assms] by (auto simp: is_special_def)

lemma tokens_fold:
  fixes w :: "'c::len word list"
  assumes ok: "tchar_ok TYPE('c)" "case_table_ok up ci"
  shows "tokens (map (fold_char up ci) w) = map (map_tok (fold_char up ci)) (tokens w)"
proof -
  have sp: "is_special (kStar :: 'c word)" "is_special (kQuestion :: 'c word)" "is_special (kEscape :: 'c word)"
    by (simp_all add: is_special_def)
  note eqs = sp [THEN disjI1, THEN fold_char_fixed [OF ok]]
  show ?thesis
    by (induction w rule: tokens.induct)
      (simp_all add: eqs fold_char_special [OF ok])
qed

text \<open>
  The alphabet of the engine satisfies the matcher's law: without case folding, for 8-bit
  characters, for 16-bit characters under a sane case table, and without a scope.
\<close>

lemma matchChar_fold: "matchChar up ci p c \<longleftrightarrow> p = fold_char up ci c"
  by (simp add: matchChar_def fold_char_def)

lemma alphabet_ok:
  assumes "tchar_ok TYPE('c::len)" "case_table_ok up ci"
  shows "glob_alphabet (matchChar up ci :: 'c word \<Rightarrow> 'c word \<Rightarrow> bool) (\<lambda>c. lim \<and> IsPathSeparator c)"
proof
  fix p c d :: "'c word"
  assume a: "matchChar up ci p c" "lim \<and> IsPathSeparator c" "matchChar up ci p d"
  have sep: "IsPathSeparator (92 :: 'c word)"
    by (simp add: IsPathSeparator_def)
  have "fold_char up ci d = 92"
    using a fold_char_fixed [OF assms, of 92 c] sep by (simp add: matchChar_fold IsPathSeparator_def)
  then show "lim \<and> IsPathSeparator d"
    using a fold_char_fixed [OF assms, of 92 d] sep by (simp add: IsPathSeparator_def)
qed

interpretation exact_alphabet: glob_alphabet "matchChar up False" "\<lambda>c. lim \<and> IsPathSeparator c"
  for up :: "'c::len word \<Rightarrow> 'c word" and lim
  by unfold_locales (simp add: matchChar_def)

interpretation ansi_alphabet: glob_alphabet "matchChar up ci" "\<lambda>c. lim \<and> IsPathSeparator c"
  for up :: "u8 \<Rightarrow> u8" and ci lim
  by (rule alphabet_ok) (simp_all add: case_table_ok_def)

section \<open>The slow-path filter\<close>

lemma first_literal_char_occurs:
  fixes w :: "'c::len word list"
  assumes ok: "tchar_ok TYPE('c)"
  shows "first_literal_char w i st qu \<noteq> 0 \<Longrightarrow> TLit (first_literal_char w i st qu) \<in> set (toks w i)"
proof (induction w i st qu rule: first_literal_char.induct)
  case (1 w i st qu)
  show ?case
  proof (cases "i < length w")
    case False
    then show ?thesis
      using 1(3) by (subst (asm) first_literal_char.simps) simp
  next
    case i: True
    consider (esc) "w ! i = kEscape" "i + 1 < length w" | (star) "w ! i = kStar"
      | (any) "w ! i = kQuestion" "w ! i \<noteq> kStar"
      | (lit) "\<not> (w ! i = kEscape \<and> i + 1 < length w)" "w ! i \<noteq> kStar" "w ! i \<noteq> kQuestion"
      by blast
    then show ?thesis
    proof cases
      case esc
      then have v: "first_literal_char w i st qu =
          (if st \<and> qu then (if is_special (w ! (i + 1)) then w ! (i + 1) else w ! i) else 0)"
        using i by (subst first_literal_char.simps) simp
      show ?thesis
      proof (cases "is_special (w ! (i + 1))")
        case True
        then show ?thesis
          using 1(3) v toks_escape [OF ok, of w i] esc by (auto simp: escape_at_def split: if_splits)
      next
        case False
        then show ?thesis
          using 1(3) v toks_plain [OF i] esc special_distinct [OF ok]
          by (auto simp: escape_at_def tok1_def split: if_splits)
      qed
    next
      case star
      then have ne: "\<not> (w ! i = kEscape \<and> i + 1 < length w)"
        using special_distinct [OF ok] by auto
      then have "first_literal_char w i st qu = first_literal_char w (i + 1) True qu"
        using i star special_distinct [OF ok] by (subst first_literal_char.simps) (simp add: Let_def)
      moreover have "toks w i = tok1 (w ! i) # toks w (i + 1)"
        using ne by (intro toks_plain [OF i]) (auto simp: escape_at_def)
      ultimately show ?thesis
        using 1(1) [OF i refl ne star] 1(3) by simp
    next
      case any
      then have ne: "\<not> (w ! i = kEscape \<and> i + 1 < length w)"
        using special_distinct [OF ok] by auto
      then have "first_literal_char w i st qu = first_literal_char w (i + 1) st True"
        using i any special_distinct [OF ok] by (subst first_literal_char.simps) (simp add: Let_def)
      moreover have "toks w i = tok1 (w ! i) # toks w (i + 1)"
        using ne by (intro toks_plain [OF i]) (auto simp: escape_at_def)
      ultimately show ?thesis
        using 1(2) [OF i refl ne any(2,1)] 1(3) by simp
    next
      case lit
      then have "first_literal_char w i st qu = (if st \<and> qu then w ! i else 0)"
        using i by (subst first_literal_char.simps) (auto simp: Let_def)
      moreover have "toks w i = tok1 (w ! i) # toks w (i + 1)"
        using lit by (intro toks_plain [OF i]) (auto simp: escape_at_def)
      ultimately show ?thesis
        using 1(3) lit by (auto simp: tok1_def split: if_splits)
    qed
  qed
qed

end
