(* ===== verification/LiteralMatch.thy ===== *)
theory LiteralMatch
  imports PatternParse
begin

text \<open>
  The literal comparisons of the engine, \<open>EvaluatePrefixMatch\<close> and \<open>EvaluateTailMatch\<close>: by
  64-bit blocks, with one overlapping block for the remainder, and character by character
  for short literals and blocks that are not ASCII. The pattern side is already case-folded.
  Both are shown to stay in bounds and to decide equality with the folded text.
\<close>

section \<open>The comparison\<close>

text \<open>The scalar loops: \<open>n\<close> characters from index \<open>i\<close> on.\<close>

fun cmp_chars :: "('c::len word \<Rightarrow> 'c word) \<Rightarrow> bool \<Rightarrow> 'c word list \<Rightarrow> 'c word list \<Rightarrow> nat \<Rightarrow> nat \<Rightarrow> bool option" where
  "cmp_chars up ci B T i 0 = Some True"
| "cmp_chars up ci B T i (Suc n) =
     do { p \<leftarrow> rd B i;
          c \<leftarrow> rd T i;
          if p \<noteq> fold_char up ci c then Some False else cmp_chars up ci B T (i + 1) n }"

text \<open>One block at index \<open>i\<close>.\<close>

definition cmp_block :: "('c::len word \<Rightarrow> 'c word) \<Rightarrow> bool \<Rightarrow> 'c word list \<Rightarrow> 'c word list \<Rightarrow> nat \<Rightarrow> bool option" where
  "cmp_block up ci B T i =
     do { wPat \<leftarrow> load64 B i;
          wTxt \<leftarrow> load64 T i;
          if ci then
            if IsAsciiSWAR TYPE('c) wTxt then Some (wPat = ToUpperSWAR TYPE('c) wTxt)
            else cmp_chars up ci B T i (chars_per_block TYPE('c))
          else Some (wPat = wTxt) }"

fun cmp_chunks :: "('c::len word \<Rightarrow> 'c word) \<Rightarrow> bool \<Rightarrow> 'c word list \<Rightarrow> 'c word list \<Rightarrow> nat \<Rightarrow> nat \<Rightarrow> bool option" where
  "cmp_chunks up ci B T i 0 = Some True"
| "cmp_chunks up ci B T i (Suc chunks) =
     do { same \<leftarrow> cmp_block up ci B T (i * chars_per_block TYPE('c));
          if \<not> same then Some False else cmp_chunks up ci B T (i + 1) chunks }"

text \<open>The whole comparison of \<open>n\<close> characters, the body the two functions share.\<close>

definition compare_literal :: "('c::len word \<Rightarrow> 'c word) \<Rightarrow> bool \<Rightarrow> 'c word list \<Rightarrow> 'c word list \<Rightarrow> nat \<Rightarrow> bool option" where
  "compare_literal up ci B T n =
     (let K = chars_per_block TYPE('c)
      in if n \<ge> K then
           do { same \<leftarrow> cmp_chunks up ci B T 0 (n div K);
                if \<not> same then Some False
                else if n AND (K - 1) \<noteq> 0 then cmp_block up ci B T (n - K)
                else Some True }
         else cmp_chars up ci B T 0 n)"

definition EvaluatePrefixMatch ::
  "('c::len word \<Rightarrow> 'c word) \<Rightarrow> bool \<Rightarrow> 'c word list \<Rightarrow> 'c word list \<Rightarrow> nat \<Rightarrow> bool option" where
  "EvaluatePrefixMatch up ci LiteralPrefix sText cchLength =
     compare_literal up ci LiteralPrefix sText cchLength"

definition EvaluateTailMatch ::
  "('c::len word \<Rightarrow> 'c word) \<Rightarrow> bool \<Rightarrow> 'c word list \<Rightarrow> 'c word list \<Rightarrow> nat \<Rightarrow> bool option" where
  "EvaluateTailMatch up ci TailAnchor sText cchText =
     (if length TailAnchor = 0 then Some True
      else compare_literal up ci TailAnchor (drop (sub32 cchText (length TailAnchor)) sText)
             (length TailAnchor))"

section \<open>What it decides\<close>

lemma cmp_chars_eq:
  "i + n \<le> length B \<Longrightarrow> i + n \<le> length T \<Longrightarrow>
     cmp_chars up ci B T i n =
       Some (take n (drop i B) = map (fold_char up ci) (take n (drop i T)))"
proof (induction n arbitrary: i)
  case 0
  then show ?case by simp
next
  case (Suc n)
  then have "drop i B = B ! i # drop (i + 1) B" "drop i T = T ! i # drop (i + 1) T"
    by (simp_all add: drop_Cons_nth)
  with Suc show ?case by simp
qed

lemma fold_char_ascii_block:
  fixes cs :: "'c::len word list"
  assumes "tchar_ok TYPE('c)" "length cs = chars_per_block TYPE('c)" "IsAsciiSWAR TYPE('c) (block_of cs)"
  shows "ToUpperSWAR TYPE('c) (block_of cs) = block_of (map (fold_char up True) cs)"
  using ToUpperSWAR_block [OF assms(1,2), of up] IsAsciiSWAR_block [OF assms(1,2)] assms(3)
  by (simp add: fold_char_def cong: map_cong)

lemma cmp_block_eq:
  fixes B T :: "'c::len word list"
  assumes ok: "tchar_ok TYPE('c)"
    and "i + chars_per_block TYPE('c) \<le> length B" "i + chars_per_block TYPE('c) \<le> length T"
  shows "cmp_block up ci B T i =
     Some (take (chars_per_block TYPE('c)) (drop i B) =
           map (fold_char up ci) (take (chars_per_block TYPE('c)) (drop i T)))"
proof -
  let ?K = "chars_per_block TYPE('c)"
  let ?b = "take ?K (drop i B)" and ?t = "take ?K (drop i T)"
  have len: "length ?b = ?K" "length ?t = ?K"
    using assms by simp_all
  have load: "load64 B i = Some (block_of ?b)" "load64 T i = Some (block_of ?t)"
    using assms by (simp_all add: load64_def)
  have eq: "block_of ?b = block_of cs \<longleftrightarrow> ?b = cs" if "length cs = ?K" for cs
    using that len chars_per_block_mult [OF ok] by (intro block_of_eq_iff) simp_all
  have exact: "map (fold_char up False) ?t = ?t"
    by (rule map_idI) (simp add: fold_char_def)
  show ?thesis
  proof (cases ci)
    case False
    then show ?thesis
      using eq [OF len(2)] exact by (simp add: cmp_block_def load)
  next
    case True
    then show ?thesis
      using eq [of "map (fold_char up True) ?t"] len(2) cmp_chars_eq [OF assms(2,3), of up True]
        fold_char_ascii_block [OF ok len(2), of up]
      by (simp add: cmp_block_def load)
  qed
qed

lemma cmp_chunks_eq:
  fixes B T :: "'c::len word list"
  assumes ok: "tchar_ok TYPE('c)"
  defines "K \<equiv> chars_per_block TYPE('c)"
  shows "(i + m) * K \<le> length B \<Longrightarrow> (i + m) * K \<le> length T \<Longrightarrow>
     cmp_chunks up ci B T i m =
       Some (take (m * K) (drop (i * K) B) = map (fold_char up ci) (take (m * K) (drop (i * K) T)))"
proof (induction m arbitrary: i)
  case 0
  then show ?case by simp
next
  case (Suc m)
  have room: "i * K + K \<le> (i + Suc m) * K"
    by (simp add: algebra_simps)
  then have b: "i * K + K \<le> length B" "i * K + K \<le> length T"
    using Suc.prems by linarith+
  have split: "take (Suc m * K) (drop (i * K) xs) = take K (drop (i * K) xs) @ take (m * K) (drop ((i + 1) * K) xs)"
    for xs :: "'c word list"
    by (simp add: take_add add.commute)
  have "cmp_chunks up ci B T (i + 1) m =
      Some (take (m * K) (drop ((i + 1) * K) B) = map (fold_char up ci) (take (m * K) (drop ((i + 1) * K) T)))"
    using Suc.prems by (intro Suc.IH) simp_all
  moreover have "cmp_block up ci B T (i * K) =
      Some (take K (drop (i * K) B) = map (fold_char up ci) (take K (drop (i * K) T)))"
    using cmp_block_eq [OF ok b [unfolded K_def]] by (simp add: K_def)
  ultimately show ?case
    unfolding split using b by (auto simp flip: K_def)
qed

lemma and_block_mask:
  assumes "tchar_ok TYPE('c::len)"
  shows "n AND (chars_per_block TYPE('c) - 1) = n mod chars_per_block TYPE('c)"
proof -
  have "n AND mask k = n mod 2 ^ k" for k
    by (simp add: take_bit_eq_mask [symmetric] take_bit_eq_mod)
  from this [of 2] this [of 3] show ?thesis
    using assms by (auto simp: tchar_ok_def chars_per_block_def mask_eq_exp_minus_1)
qed

text \<open>Two overlapping parts of a literal agree when the whole does.\<close>

lemma overlap_agree:
  assumes n: "n \<le> length B" "n \<le> length T" and mk: "m \<le> n" "k \<le> n" "n - k \<le> m"
  shows "take m B = map f (take m T) \<and> take k (drop (n - k) B) = map f (take k (drop (n - k) T)) \<longleftrightarrow> take n B = map f (take n T)"
    (is "?l \<longleftrightarrow> ?r")
proof
  assume l: ?l
  show ?r
  proof (rule nth_equalityI)
    show "length (take n B) = length (map f (take n T))"
      using n by simp
    fix i assume "i < length (take n B)"
    then have i: "i < n" "i < length B" "i < length T"
      using n by auto
    show "take n B ! i = map f (take n T) ! i"
    proof (cases "i < m")
      case True
      then have "take m B ! i = map f (take m T) ! i"
        using l by simp
      with True i mk show ?thesis by simp
    next
      case False
      then have j: "n - k \<le> i" "i - (n - k) < k"
        using mk i by linarith+
      have "take k (drop (n - k) B) ! (i - (n - k)) = map f (take k (drop (n - k) T)) ! (i - (n - k))"
        using l by simp
      with j i n mk show ?thesis by simp
    qed
  qed
next
  assume r: ?r
  then have "take m B = map f (take m T)"
    using mk by (metis min.absorb2 min.commute take_map take_take)
  moreover have "take k (drop (n - k) B) = drop (n - k) (take n B)" "take k (drop (n - k) T) = drop (n - k) (take n T)"
    using mk by (simp_all add: drop_take)
  ultimately show ?l
    using r by (simp add: drop_map)
qed

theorem compare_literal_eq:
  fixes B T :: "'c::len word list"
  assumes ok: "tchar_ok TYPE('c)" and n: "n \<le> length B" "n \<le> length T"
  shows "compare_literal up ci B T n = Some (take n B = map (fold_char up ci) (take n T))"
proof -
  let ?K = "chars_per_block TYPE('c)"
  note mask = and_block_mask [OF ok, unfolded One_nat_def]
  have mK: "n div ?K * ?K \<le> n" "n - ?K \<le> n div ?K * ?K"
    using div_mult_mod_eq [of n ?K] mod_less_divisor [OF chars_per_block_pos [OF ok], of n] by linarith+
  show ?thesis
  proof (cases "?K \<le> n")
    case False
    then show ?thesis
      using n cmp_chars_eq [of 0 n B T up ci] by (simp add: compare_literal_def Let_def)
  next
    case True
    have chunks: "cmp_chunks up ci B T 0 (n div ?K) =
        Some (take (n div ?K * ?K) B = map (fold_char up ci) (take (n div ?K * ?K) T))"
      using cmp_chunks_eq [OF ok, of 0 "n div ?K" B T up ci] mK n by simp
    have block: "cmp_block up ci B T (n - ?K) =
        Some (take ?K (drop (n - ?K) B) = map (fold_char up ci) (take ?K (drop (n - ?K) T)))"
      using cmp_block_eq [OF ok, of "n - ?K" B T up ci] True n by simp
    show ?thesis
    proof (cases "n mod ?K = 0")
      case exact: True
      then have "n div ?K * ?K = n"
        using div_mult_mod_eq [of n ?K] by simp
      then show ?thesis
        using True chunks exact by (simp add: compare_literal_def Let_def mask)
    next
      case False
      then show ?thesis
        using True chunks block overlap_agree [OF n mK(1) True mK(2), of "fold_char up ci"]
        by (auto simp: compare_literal_def Let_def mask)
    qed
  qed
qed

corollary EvaluatePrefixMatch_eq:
  fixes B T :: "'c::len word list"
  assumes "tchar_ok TYPE('c)" "length B = n" "n \<le> length T"
  shows "EvaluatePrefixMatch up ci B T n = Some (B = map (fold_char up ci) (take n T))"
  using compare_literal_eq [OF assms(1) _ assms(3), of B up ci] assms(2)
  by (simp add: EvaluatePrefixMatch_def)

corollary EvaluateTailMatch_eq:
  fixes B T :: "'c::len word list"
  assumes "tchar_ok TYPE('c)" "length B \<le> length T" "length T < 2 ^ 32"
  shows "EvaluateTailMatch up ci B T (length T) =
     Some (B = map (fold_char up ci) (drop (length T - length B) T))"
proof (cases "length B = 0")
  case True
  then show ?thesis by (simp add: EvaluateTailMatch_def)
next
  case False
  have "sub32 (length T) (length B) = length T - length B"
    using assms by (simp add: sub32_eq)
  then show ?thesis
    using False compare_literal_eq [OF assms(1) _ _, of "length B" B "drop (length T - length B) T" up ci] assms
    by (simp add: EvaluateTailMatch_def)
qed

end
