(* ===== verification/PatternRule.thy ===== *)
theory PatternRule
  imports LiteralMatch
begin

text \<open>
  One pattern, from its text to its answers. \<open>parse_view\<close> puts the parsing loops of
  \<open>AddPattern\<close> together as the code does; \<open>fast_check\<close> and \<open>slow_check\<close> are the bodies of the
  bucket loop of \<open>SearchInternal\<close> and of the loop of \<open>ProcessSlowPath\<close> on one entry. The
  specification is \<open>pattern_matches\<close>: the meaning of the pattern's tokens. The theorems say
  that the checks of a parsed pattern decide it, and that the filters in front of them
  (minimum length, prefix) reject no text the pattern matches.
\<close>

section \<open>The entry of a pattern\<close>

datatype wild_card_scope = SCOPE_DEFAULT | SCOPE_PATH_SEGMENT

text \<open>What an entry's three slices read as, with its filters.\<close>

record 'tchar view =
  vPrefix :: "'tchar list"
  vWild :: "'tchar list"
  vTail :: "'tchar list"
  vMin :: nat
  vScope :: wild_card_scope
  vFirst :: 'tchar

text \<open>The stable buffer: unescaped prefix, then the rest as it is, both case-folded.\<close>

definition stable_chars :: "('c::len word \<Rightarrow> 'c word) \<Rightarrow> bool \<Rightarrow> 'c word list \<Rightarrow> nat \<Rightarrow> 'c word list" where
  "stable_chars up ci sPattern prefixRawLen =
     copy_prefix up ci sPattern prefixRawLen 0 @ copy_suffix up ci sPattern prefixRawLen"

definition parse_view :: "('c::len word \<Rightarrow> 'c word) \<Rightarrow> bool \<Rightarrow> wild_card_scope \<Rightarrow> 'c word list \<Rightarrow> 'c word view" where
  "parse_view up ci WildScope sPattern =
     (let (prefixRawLen, prefixUnescapedLen) = parse_prefix sPattern 0 0;
          stable = stable_chars up ci sPattern prefixRawLen;
          wild = drop prefixUnescapedLen stable;
          lastWildcardEnd = last_wildcard_end wild 0 0
      in \<lparr>vPrefix = take prefixUnescapedLen stable,
          vWild = take lastWildcardEnd wild,
          vTail = copy_tail wild lastWildcardEnd,
          vMin = suffix_min_length wild 0 0,
          vScope = WildScope,
          vFirst = (if prefixUnescapedLen = 0 \<and> 0 < length wild
                    then first_literal_char (take lastWildcardEnd wild) 0 False False else 0)\<rparr>)"

section \<open>The checks of the search\<close>

text \<open>Passing the first \<open>n\<close> characters of a buffer on; more than it holds is a fault.\<close>

definition slice :: "'a list \<Rightarrow> nat \<Rightarrow> 'a list option" where
  "slice xs n = (if n \<le> length xs then Some (take n xs) else None)"

definition EvaluatePatternSuffix ::
  "('c::len word \<Rightarrow> 'c word) \<Rightarrow> bool \<Rightarrow> 'c word view \<Rightarrow> 'c word list \<Rightarrow> bool option" where
  "EvaluatePatternSuffix up ci v sText =
     (let cchWildText = sub32 (length sText) (length (vTail v));
          minWildLen = sub32 (vMin v) (length (vTail v))
      in do { wildText \<leftarrow> slice sText cchWildText;
              WildCardMatch up ci (vScope v = SCOPE_PATH_SEGMENT) (vWild v) wildText minWildLen })"

text \<open>The scan for \<open>FirstLiteralChar\<close> in the first \<open>n\<close> characters.\<close>

fun find_first_literal :: "('c::len word \<Rightarrow> 'c word) \<Rightarrow> bool \<Rightarrow> 'c word \<Rightarrow> 'c word list \<Rightarrow> nat \<Rightarrow> nat \<Rightarrow> bool option" where
  "find_first_literal up ci f sText i 0 = Some False"
| "find_first_literal up ci f sText i (Suc n) =
     do { c \<leftarrow> rd sText i;
          if fold_char up ci c = f then Some True else find_first_literal up ci f sText (i + 1) n }"

definition slow_check :: "('c::len word \<Rightarrow> 'c word) \<Rightarrow> bool \<Rightarrow> 'c word view \<Rightarrow> 'c word list \<Rightarrow> bool option" where
  "slow_check up ci v sText =
     (if length sText < vMin v then Some False
      else do { tailOk \<leftarrow> EvaluateTailMatch up ci (vTail v) sText (length sText);
                if \<not> tailOk then Some False
                else do { bFound \<leftarrow> (if vFirst v \<noteq> 0
                            then find_first_literal up ci (vFirst v) sText 0
                                   (sub32 (length sText) (length (vTail v)))
                            else Some True);
                          if \<not> bFound then Some False
                          else EvaluatePatternSuffix up ci v sText } })"

text \<open>The body of the bucket loop, for an entry whose prefix has the length looked for.\<close>

definition fast_check :: "('c::len word \<Rightarrow> 'c word) \<Rightarrow> bool \<Rightarrow> 'c word view \<Rightarrow> 'c word list \<Rightarrow> nat \<Rightarrow> bool option" where
  "fast_check up ci v sText cchLength =
     (if length (vPrefix v) \<noteq> cchLength then Some False
      else if length sText < add32 cchLength (vMin v) then Some False
      else do { skip \<leftarrow> (if cchLength < length sText then
                           (if length (vWild v) = 0 then Some True
                            else map_option Not (EvaluateTailMatch up ci (vTail v) sText (length sText)))
                         else Some False);
                if skip then Some False
                else do { same \<leftarrow> EvaluatePrefixMatch up ci (vPrefix v) sText cchLength;
                          if \<not> same then Some False
                          else if cchLength = length sText then Some True
                          else EvaluatePatternSuffix up ci v (drop cchLength sText) } })"

section \<open>The meaning of a pattern\<close>

definition pattern_matches :: "('c::len word \<Rightarrow> 'c word) \<Rightarrow> bool \<Rightarrow> wild_card_scope \<Rightarrow> 'c word list \<Rightarrow> 'c word list \<Rightarrow> bool" where
  "pattern_matches up ci scope pat str \<longleftrightarrow>
     gmatch (\<lambda>p c. fold_char up ci p = fold_char up ci c)
       (\<lambda>c. scope = SCOPE_PATH_SEGMENT \<and> IsPathSeparator c) (tokens pat) str"

lemma pattern_matches_gm:
  "pattern_matches up ci scope pat str \<longleftrightarrow>
     gm up ci (scope = SCOPE_PATH_SEGMENT) (map (map_tok (fold_char up ci)) (tokens pat)) str"
proof -
  have "matchChar up ci = (\<lambda>p c. p = fold_char up ci c)"
    by (simp add: matchChar_fold fun_eq_iff)
  then show ?thesis
    by (simp add: pattern_matches_def gmatch_map_tok)
qed

text \<open>The parsed parts are the folded tokens of the pattern.\<close>

lemma parse_view_parts:
  fixes pat :: "'c::len word list" and scope :: wild_card_scope
  assumes ok: "tchar_ok TYPE('c)" "case_table_ok up ci"
  defines "v \<equiv> parse_view up ci scope pat"
  shows "map (map_tok (fold_char up ci)) (tokens pat) = lits (vPrefix v) @ tokens (vWild v) @ lits (vTail v)"
    and "vMin v = min_len (tokens (vWild v)) + length (vTail v)"
    and "vScope v = scope"
    and "vWild v = [] \<Longrightarrow> vTail v = []"
    and "vFirst v \<noteq> 0 \<Longrightarrow> TLit (vFirst v) \<in> set (tokens (vWild v))"
    and "length (vPrefix v) + length (vWild v) \<le> length pat"
    and "length (vPrefix v) + vMin v \<le> length pat"
proof -
  obtain raw u where pp: "parse_prefix pat 0 0 = (raw, u)"
    by fastforce
  note split = parse_prefix_split [OF ok(1) pp]
  have cs: "copy_suffix up ci pat raw = map (fold_char up ci) (drop raw pat)"
    using split(1) by (intro nth_equalityI) (simp_all add: copy_suffix_def)
  define pre where "pre = copy_prefix up ci pat raw 0"
  define w where "w = map (fold_char up ci) (drop raw pat)"
  have lu: "length pre = u"
    using split(2) by (simp add: pre_def)
  have stable: "take u (stable_chars up ci pat raw) = pre" "drop u (stable_chars up ci pat raw) = w"
    using lu by (simp_all add: stable_chars_def cs w_def flip: pre_def)
  define e where "e = last_wildcard_end w 0 0"
  have v: "vPrefix v = pre" "vWild v = take e w" "vTail v = copy_tail w e" "vMin v = suffix_min_length w 0 0"
      "vScope v = scope" "vFirst v = (if u = 0 \<and> 0 < length w then first_literal_char (take e w) 0 False False else 0)"
    by (simp_all only: v_def parse_view_def pp Let_def prod.case stable view.simps e_def)
  have tw: "tokens w = map (map_tok (fold_char up ci)) (tokens (drop raw pat))"
    unfolding w_def by (rule tokens_fold [OF ok])
  note wsplit = last_wildcard_end_split [OF ok(1), of w, folded e_def]
  show toks: "map (map_tok (fold_char up ci)) (tokens pat) = lits (vPrefix v) @ tokens (vWild v) @ lits (vTail v)"
    using split(4) wsplit(2) by (simp add: v pre_def flip: tw)
  show vmin: "vMin v = min_len (tokens (vWild v)) + length (vTail v)"
    using suffix_min_length_eq [OF ok(1), of w 0 0] wsplit(2) by (simp add: v)
  show "vScope v = scope"
    by (rule v(5))
  show "vTail v = []" if "vWild v = []"
  proof (cases "w = []")
    case True
    then show ?thesis by (subst v(3), subst copy_tail.simps) simp
  next
    case False
    then have "raw < length pat"
      by (auto simp: w_def)
    then have wild: "pat ! raw = kStar \<or> pat ! raw = kQuestion" and "w ! 0 = fold_char up ci (pat ! raw)"
      using split(5) by (simp_all add: w_def)
    moreover have "is_special (pat ! raw)"
      using wild by (auto simp: is_special_def)
    ultimately have "w ! 0 = kStar \<or> w ! 0 = kQuestion"
      using fold_char_special(2) [OF ok, of "pat ! raw"] by simp
    then have "0 < e"
      using wsplit(3) False by blast
    then show ?thesis
      using that False by (simp add: v(2))
  qed
  show "TLit (vFirst v) \<in> set (tokens (vWild v))" if "vFirst v \<noteq> 0"
    using that first_literal_char_occurs [OF ok(1), of "take e w" 0 False False]
    by (auto simp: v split: if_splits)
  show "length (vPrefix v) + length (vWild v) \<le> length pat"
    using split(1,3) lu wsplit(1) by (simp add: v w_def)
  have "min_len (tokens w) \<le> length w"
    using min_len_toks [of 0 w] by simp
  then show "length (vPrefix v) + vMin v \<le> length pat"
    using split(1,3) lu suffix_min_length_eq [OF ok(1), of w 0 0] by (simp add: v w_def)
qed

section \<open>The checks decide the meaning\<close>

lemma list_all2_matchChar:
  "list_all2 (matchChar up ci) xs ys \<longleftrightarrow> xs = map (fold_char up ci) ys"
  by (auto simp: list_all2_conv_all_nth matchChar_fold list_eq_iff_nth_eq)

text \<open>A pattern in three parts: literal prefix, wildcards, literal tail.\<close>

lemma gm_parts:
  "gm up ci lim (lits P @ W @ lits T) str \<longleftrightarrow>
     length P + length T \<le> length str \<and>
     P = map (fold_char up ci) (take (length P) str) \<and>
     T = map (fold_char up ci) (drop (length str - length T) str) \<and>
     gm up ci lim W (take (length str - length P - length T) (drop (length P) str))"
  (is "?l \<longleftrightarrow> ?r")
proof -
  have "?l \<longleftrightarrow> length P \<le> length str \<and> P = map (fold_char up ci) (take (length P) str) \<and>
      gm up ci lim (W @ lits T) (drop (length P) str)"
    by (simp add: gmatch_lits list_all2_matchChar)
  also have "\<dots> \<longleftrightarrow> ?r"
    by (cases "length P + length T \<le> length str")
      (auto simp: gmatch_snoc_lits list_all2_matchChar)
  finally show ?thesis .
qed

lemma EvaluatePatternSuffix_eq:
  fixes rest :: "'c::len word list" and v :: "'c word view"
  assumes ok: "tchar_ok TYPE('c)" "case_table_ok up ci"
    and v: "vMin v = min_len (tokens (vWild v)) + length (vTail v)" "vMin v < 2 ^ 32" "length (vWild v) < 2 ^ 32"
    and rest: "length (vTail v) \<le> length rest" "length rest < 2 ^ 32"
  shows "EvaluatePatternSuffix up ci v rest =
     Some (gm up ci (vScope v = SCOPE_PATH_SEGMENT) (tokens (vWild v)) (take (length rest - length (vTail v)) rest))"
proof -
  have "sub32 (length rest) (length (vTail v)) = length rest - length (vTail v)"
      "sub32 (vMin v) (length (vTail v)) = min_len (tokens (vWild v))"
    using v rest by (simp_all add: sub32_eq)
  then show ?thesis
    using WildCardMatch_eq [OF ok(1) v(3) _ alphabet_ok [OF ok] refl] rest
    by (simp add: EvaluatePatternSuffix_def slice_def)
qed

lemma find_first_literal_eq:
  "i + n \<le> length t \<Longrightarrow>
     find_first_literal up ci f t i n = Some (\<exists>c \<in> set (take n (drop i t)). f = fold_char up ci c)"
proof (induction n arbitrary: i)
  case 0
  then show ?case by simp
next
  case (Suc n)
  then have "drop i t = t ! i # drop (i + 1) t"
    by (simp add: drop_Cons_nth)
  with Suc show ?case by auto
qed

theorem slow_check_eq:
  fixes pat str :: "'c::len word list" and scope :: wild_card_scope
  assumes ok: "tchar_ok TYPE('c)" "case_table_ok up ci"
    and len: "length pat < 2 ^ 32" "length str < 2 ^ 32"
  defines "v \<equiv> parse_view up ci scope pat"
  assumes pre: "vPrefix v = []"
  shows "slow_check up ci v str = Some (pattern_matches up ci scope pat str)"
proof -
  note parts = parse_view_parts [OF ok, where pat = pat and scope = scope, folded v_def]
  let ?n = "length str - length (vTail v)"
  let ?W = "tokens (vWild v)"
  have vmin: "vMin v < 2 ^ 32" "length (vWild v) < 2 ^ 32"
    using parts(6,7) len by linarith+
  have pm: "pattern_matches up ci scope pat str \<longleftrightarrow> length (vTail v) \<le> length str \<and>
      vTail v = map (fold_char up ci) (drop ?n str) \<and> gm up ci (vScope v = SCOPE_PATH_SEGMENT) ?W (take ?n str)"
    using gm_parts [of up ci "scope = SCOPE_PATH_SEGMENT" "[]" ?W "vTail v" str] parts(1,3) pre
    by (simp add: pattern_matches_gm)
  show ?thesis
  proof (cases "length str < vMin v")
    case True
    have "\<not> pattern_matches up ci scope pat str"
    proof
      assume "pattern_matches up ci scope pat str"
      then have "length (vTail v) \<le> length str" "min_len ?W \<le> ?n"
        using pm gmatch_min_len by fastforce+
      with True parts(2) show False by linarith
    qed
    with True show ?thesis by (simp add: slow_check_def)
  next
    case False
    then have tl: "length (vTail v) \<le> length str"
      using parts(2) by linarith
    have sub: "sub32 (length str) (length (vTail v)) = ?n"
      using tl len by (simp add: sub32_eq)
    note suffix = EvaluatePatternSuffix_eq [OF ok parts(2) vmin tl len(2)]
    note tail = EvaluateTailMatch_eq [OF ok(1) tl len(2), of up ci]
    have filter: "\<exists>c \<in> set (take ?n str). vFirst v = fold_char up ci c"
      if "vFirst v \<noteq> 0" "gm up ci (vScope v = SCOPE_PATH_SEGMENT) ?W (take ?n str)"
      using gmatch_lit_occurs [OF that(2) parts(5) [OF that(1)]] by (auto simp: matchChar_fold)
    have find: "find_first_literal up ci (vFirst v) str 0 ?n =
        Some (\<exists>c \<in> set (take ?n str). vFirst v = fold_char up ci c)"
      using find_first_literal_eq [of 0 ?n str] by simp
    have "slow_check up ci v str =
        Some (vTail v = map (fold_char up ci) (drop ?n str) \<and>
          (vFirst v \<noteq> 0 \<longrightarrow> (\<exists>c \<in> set (take ?n str). vFirst v = fold_char up ci c)) \<and>
          gm up ci (vScope v = SCOPE_PATH_SEGMENT) ?W (take ?n str))"
      using False tail suffix find sub by (simp add: slow_check_def)
    then show ?thesis
      using pm tl filter by auto
  qed
qed

theorem fast_check_eq:
  fixes pat str :: "'c::len word list" and scope :: wild_card_scope
  assumes ok: "tchar_ok TYPE('c)" "case_table_ok up ci"
    and len: "length pat < 2 ^ 32" "length str < 2 ^ 32"
  defines "v \<equiv> parse_view up ci scope pat"
  assumes n: "n \<le> length str"
  shows "fast_check up ci v str n =
     Some (length (vPrefix v) = n \<and> pattern_matches up ci scope pat str)"
proof (cases "length (vPrefix v) = n")
  case False
  then show ?thesis by (simp add: fast_check_def)
next
  case pn: True
  note parts = parse_view_parts [OF ok, where pat = pat and scope = scope, folded v_def]
  let ?W = "tokens (vWild v)" and ?rest = "drop n str"
  let ?k = "length str - n - length (vTail v)"
  have bounds: "vMin v < 2 ^ 32" "length (vWild v) < 2 ^ 32" "n + vMin v < 2 ^ 32"
    using parts(6,7) len pn by linarith+
  have add: "add32 n (vMin v) = n + vMin v"
    using bounds by (simp add: add32_eq)
  have pm: "pattern_matches up ci scope pat str \<longleftrightarrow> n + length (vTail v) \<le> length str \<and>
      vPrefix v = map (fold_char up ci) (take n str) \<and>
      vTail v = map (fold_char up ci) (drop (length str - length (vTail v)) str) \<and>
      gm up ci (vScope v = SCOPE_PATH_SEGMENT) ?W (take ?k ?rest)"
    using gm_parts [of up ci "scope = SCOPE_PATH_SEGMENT" "vPrefix v" ?W "vTail v" str] parts(1,3) pn
    by (simp add: pattern_matches_gm)
  have prefix: "EvaluatePrefixMatch up ci (vPrefix v) str n = Some (vPrefix v = map (fold_char up ci) (take n str))"
    by (rule EvaluatePrefixMatch_eq [OF ok(1) pn n])
  consider (short) "length str < n + vMin v" | (whole) "n + vMin v \<le> length str" "n = length str"
    | (longer) "n + vMin v \<le> length str" "n < length str"
    using n by linarith
  then show ?thesis
  proof cases
    case short
    have "\<not> pattern_matches up ci scope pat str"
    proof
      assume "pattern_matches up ci scope pat str"
      then have "n + length (vTail v) \<le> length str" "min_len ?W \<le> ?k"
        using pm gmatch_min_len by fastforce+
      with short parts(2) show False by linarith
    qed
    with short show ?thesis by (simp add: fast_check_def add)
  next
    case whole
    then have "min_len ?W = 0" "vTail v = []"
      using parts(2) by simp_all
    then have "gm up ci (vScope v = SCOPE_PATH_SEGMENT) ?W []"
      by (simp add: gmatch_Nil_iff min_len_0_iff)
    then have "pattern_matches up ci scope pat str \<longleftrightarrow> vPrefix v = map (fold_char up ci) (take n str)"
      using pm whole \<open>vTail v = []\<close> by simp
    with whole show ?thesis
      using prefix pn add by (simp add: fast_check_def)
  next
    case longer
    then have tl: "length (vTail v) \<le> length str" "length (vTail v) \<le> length ?rest" "length ?rest < 2 ^ 32"
      using parts(2) len unfolding length_drop by linarith+
    note suffix = EvaluatePatternSuffix_eq [OF ok parts(2) bounds(1,2) tl(2,3)]
    note tail = EvaluateTailMatch_eq [OF ok(1) tl(1) len(2), of up ci]
    show ?thesis
    proof (cases "vWild v = []")
      case True
      then have "\<not> pattern_matches up ci scope pat str"
        using pm parts(4) longer by simp
      with True longer pn show ?thesis
        by (simp add: fast_check_def add)
    next
      case False
      have "fast_check up ci v str n =
          Some (vTail v = map (fold_char up ci) (drop (length str - length (vTail v)) str) \<and>
            vPrefix v = map (fold_char up ci) (take n str) \<and>
            gm up ci (vScope v = SCOPE_PATH_SEGMENT) ?W (take ?k ?rest))"
        using False longer pn tail prefix suffix by (simp add: fast_check_def add)
      then show ?thesis
        using pm pn longer parts(2) by auto
    qed
  qed
qed

text \<open>What the index in front of the checks may rely on.\<close>

lemma pattern_matches_prefix:
  fixes pat str :: "'c::len word list" and scope :: wild_card_scope
  assumes ok: "tchar_ok TYPE('c)" "case_table_ok up ci"
  defines "v \<equiv> parse_view up ci scope pat"
  assumes m: "pattern_matches up ci scope pat str"
  shows "length (vPrefix v) + vMin v \<le> length str"
    "vPrefix v = map (fold_char up ci) (take (length (vPrefix v)) str)"
    "vWild v = [] \<Longrightarrow> length (vPrefix v) = length str"
proof -
  note parts = parse_view_parts [OF ok, where pat = pat and scope = scope, folded v_def]
  have g: "gm up ci (scope = SCOPE_PATH_SEGMENT) (lits (vPrefix v) @ tokens (vWild v) @ lits (vTail v)) str"
    using m by (simp add: pattern_matches_gm parts(1))
  then show "length (vPrefix v) + vMin v \<le> length str"
    using gmatch_min_len [OF g] by (simp add: parts(2))
  show "vPrefix v = map (fold_char up ci) (take (length (vPrefix v)) str)"
    using g unfolding gm_parts by blast
  show "length (vPrefix v) = length str" if "vWild v = []"
    using g that parts(4) [OF that] unfolding gm_parts by simp
qed

end
