(* ===== verification/KHasher.thy ===== *)
theory KHasher
  imports Swar
begin

text \<open>
  The hash functors of \<open>KHashMap.h\<close>. A key is its object representation, the list of its
  bytes; \<open>sizeof(T)\<close> is the length of the list, and the code's \<open>if constexpr\<close> on it is a test of
  that length. A read outside the key is \<open>None\<close>.
\<close>

section \<open>Reading a key\<close>

definition read_le :: "u8 list \<Rightarrow> nat \<Rightarrow> nat \<Rightarrow> u64 option" where
  "read_le p i n = (if i + n \<le> length p then Some (block_of (take n (drop i p))) else None)"

section \<open>\<open>KDefaultHash\<close>\<close>

definition KDefaultHash_Mix64 :: "u64 \<Rightarrow> u64" where
  "KDefaultHash_Mix64 Val =
     (let Val = Val XOR drop_bit 32 Val;
          (low, high) = umul128 (Val + 0x9E3779B97F4A7C15) 0xBF58476D1CE4E5B9
      in low XOR high)"

text \<open>The 128-bit product folded with its factors.\<close>

definition mul_fold :: "u64 \<Rightarrow> u64 \<Rightarrow> u64" where
  "mul_fold a b = (let (low, high) = umul128 a b in low XOR high XOR a XOR rotl64 b 31)"

text \<open>The two overlapping reads of a key of 3, 5 to 7 or 9 to 15 bytes.\<close>

definition small_reads :: "u8 list \<Rightarrow> (u64 \<times> u64) option" where
  "small_reads p =
     (let n = length p
      in if n \<ge> 9 then do { a \<leftarrow> read_le p 0 8; b \<leftarrow> read_le p (n - 8) 8; Some (a, b) }
         else if n \<ge> 5 then do { a \<leftarrow> read_le p 0 4; b \<leftarrow> read_le p (n - 4) 4; Some (a, b) }
         else do { a \<leftarrow> read_le p 0 2; b \<leftarrow> read_le p (n - 2) 2; Some (a, b) })"

text \<open>The loop over blocks of 32 bytes: the position it stops at and the two seeds.\<close>

function wide_loop :: "u8 list \<Rightarrow> nat \<Rightarrow> u64 \<Rightarrow> u64 \<Rightarrow> (nat \<times> u64 \<times> u64) option" where
  "wide_loop p i seed1 seed2 =
     (if i + 32 \<le> length p then
        do {
          a1 \<leftarrow> read_le p i 8;
          b1 \<leftarrow> read_le p (i + 8) 8;
          a2 \<leftarrow> read_le p (i + 16) 8;
          b2 \<leftarrow> read_le p (i + 24) 8;
          wide_loop p (i + 32) (mul_fold (a1 XOR seed1) (b1 XOR (seed2 XOR 0x9E3779B97F4A7C15)))
            (mul_fold (a2 XOR seed2) (b2 XOR (seed1 XOR 0xBF58476D1CE4E5B9)))
        }
      else Some (i, seed1, seed2))"
  by pat_completeness auto
termination by (relation "measure (\<lambda>(p, i, _). length p - i)") auto

declare wide_loop.simps [simp del]

text \<open>The 16 bytes after the loop, and the last 16 bytes of the key.\<close>

definition wide_hash :: "u8 list \<Rightarrow> u64 option" where
  "wide_hash p =
     do {
       (i, seed1, seed2) \<leftarrow> wide_loop p 0
         (0xCBF29CE484222325 XOR (word_of_nat (length p) * 0x9E3779B97F4A7C15)) 0xBF58476D1CE4E5B9;
       seed1 \<leftarrow> (if length p mod 32 \<ge> 16 then
           do { a \<leftarrow> read_le p i 8; b \<leftarrow> read_le p (i + 8) 8;
                Some (mul_fold (a XOR seed1) (b XOR (seed2 XOR 0x9E3779B97F4A7C15))) }
         else Some seed1);
       seed1 \<leftarrow> (if length p mod 16 \<noteq> 0 then
           do { a \<leftarrow> read_le p (length p - 16) 8; b \<leftarrow> read_le p (length p - 8) 8;
                Some (mul_fold (a XOR seed1) (b XOR (seed2 XOR 0x94D049BB133111EB))) }
         else Some seed1);
       Some (KDefaultHash_Mix64 (seed1 XOR rotl64 seed2 31))
     }"

definition KDefaultHash :: "u8 list \<Rightarrow> u64 option" where
  "KDefaultHash Key =
     (let n = length Key
      in if n = 8 then map_option KDefaultHash_Mix64 (read_le Key 0 8)
         else if n = 4 then map_option KDefaultHash_Mix64 (read_le Key 0 4)
         else if n = 2 then map_option KDefaultHash_Mix64 (read_le Key 0 2)
         else if n = 1 then map_option KDefaultHash_Mix64 (read_le Key 0 1)
         else if n = 16 then
           do { p0 \<leftarrow> read_le Key 0 8; p1 \<leftarrow> read_le Key 8 8;
                Some (KDefaultHash_Mix64 (mul_fold (p0 XOR 0x9E3779B97F4A7C15) (p1 XOR 0xBF58476D1CE4E5B9))) }
         else if n < 16 then
           do { (a, b) \<leftarrow> small_reads Key;
                Some (KDefaultHash_Mix64
                  (mul_fold (a XOR 0x9E3779B97F4A7C15) (b XOR 0xBF58476D1CE4E5B9) XOR word_of_nat n)) }
         else wide_hash Key)"

text \<open>\<open>KPrecomputedHash\<close>: the key is a hash already and is mixed once more.\<close>

definition KPrecomputedHash :: "u64 \<Rightarrow> u64" where
  "KPrecomputedHash Key = KDefaultHash_Mix64 Key"

text \<open>\<open>KIdentityHash\<close>, for keys of 1, 2, 4 or 8 bytes.\<close>

definition KIdentityHash :: "u8 list \<Rightarrow> u64 option" where
  "KIdentityHash Key =
     (if length Key = 8 then read_le Key 0 8
      else do { s \<leftarrow> read_le Key 0 (length Key);
                Some (((s * 0x9E3779B97F4A7C15) AND 0xFE00000000000000) OR push_bit 3 s) })"

section \<open>Every read is inside the key\<close>

lemma read_le_Some: "i + n \<le> length p \<Longrightarrow> read_le p i n = Some (block_of (take n (drop i p)))"
  by (simp add: read_le_def)

lemma wide_loop_total:
  "32 dvd i \<Longrightarrow> i \<le> length p \<Longrightarrow>
     \<exists>s1 s2. wide_loop p i seed1 seed2 = Some (32 * (length p div 32), s1, s2)"
proof (induction p i seed1 seed2 rule: wide_loop.induct)
  case (1 p i seed1 seed2)
  show ?case
  proof (cases "i + 32 \<le> length p")
    case True
    let ?b = "\<lambda>k. block_of (take 8 (drop (i + k) p))"
    have "32 dvd i + 32"
      using 1(2) by simp
    then show ?thesis
      using 1(1) [OF True, of "?b 0" "?b 8" "?b 16" "?b 24"] True
      by (subst wide_loop.simps) (simp add: read_le_Some)
  next
    case False
    then have "32 * (length p div 32) = i"
      using 1(2,3) by (auto elim!: dvdE)
    then show ?thesis
      using False by (subst wide_loop.simps) simp
  qed
qed

theorem KDefaultHash_total:
  assumes "Key \<noteq> []"
  shows "\<exists>h. KDefaultHash Key = Some h"
proof -
  have pos: "0 < length Key"
    using assms by simp
  show ?thesis
  proof (cases "length Key < 16")
    case True
    have small: "\<exists>r. small_reads Key = Some r" if "2 \<le> length Key"
      using that by (simp add: small_reads_def Let_def read_le_Some)
    moreover have "length Key = 1 \<or> 2 \<le> length Key"
      using pos by linarith
    ultimately show ?thesis
      using True by (auto simp: KDefaultHash_def Let_def read_le_Some)
  next
    case False
    let ?s1 = "0xCBF29CE484222325 XOR (word_of_nat (length Key) * 0x9E3779B97F4A7C15) :: u64"
    define j where "j = 32 * (length Key div 32)"
    obtain s1 s2 where w: "wide_loop Key 0 ?s1 0xBF58476D1CE4E5B9 = Some (j, s1, s2)"
      unfolding j_def using wide_loop_total [of 0 Key ?s1 "0xBF58476D1CE4E5B9"] by auto
    have "j + 16 \<le> length Key" if "16 \<le> length Key mod 32"
      using that mult_div_mod_eq [of 32 "length Key"] unfolding j_def by linarith
    then have mid: "read_le Key j 8 = Some (block_of (take 8 (drop j Key)))"
        "read_le Key (j + 8) 8 = Some (block_of (take 8 (drop (j + 8) Key)))" if "16 \<le> length Key mod 32"
      using that by (simp_all add: read_le_def)
    have "\<exists>h. wide_hash Key = Some h"
      using False by (simp add: wide_hash_def w read_le_Some mid)
    then show ?thesis
      using False by (auto simp: KDefaultHash_def Let_def read_le_Some)
  qed
qed

section \<open>No byte of a small key is lost\<close>

lemma block_bytes_eq:
  assumes "length xs = length ys" "length xs \<le> 8" "block_of xs = block_of (ys :: u8 list)"
  shows "xs = ys"
proof (rule nth_equalityI [OF assms(1)], rule bit_word_eqI)
  fix i n
  assume i: "i < length xs" and n: "n < LENGTH(8)"
  have "8 * i + n < 64"
    using i n assms(2) by simp
  then show "bit (xs ! i) n \<longleftrightarrow> bit (ys ! i) n"
    using arg_cong [OF assms(3), of "\<lambda>w. bit w (8 * i + n)"] i n assms(1) by (simp add: bit_block_of)
qed

lemma read_le_eq:
  assumes "length p = length q" "n \<le> 8" "i + n \<le> length p" "read_le p i n = read_le q i n"
  shows "take n (drop i p) = take n (drop i q)"
  using assms by (intro block_bytes_eq) (auto simp: read_le_def)

lemma overlapping_reads:
  assumes "length p = length q" "n \<le> length p" "length p \<le> 2 * n"
    and "take n p = take n q" "take n (drop (length p - n) p) = take n (drop (length p - n) q)"
  shows "p = q"
proof (rule nth_equalityI [OF assms(1)])
  fix i
  assume i: "i < length p"
  show "p ! i = q ! i"
  proof (cases "i < n")
    case True
    then show ?thesis
      using arg_cong [OF assms(4), of "\<lambda>xs. xs ! i"] by simp
  next
    case False
    then show ?thesis
      using arg_cong [OF assms(5), of "\<lambda>xs. xs ! (i - (length p - n))"] i assms(1-3) by simp
  qed
qed

theorem small_reads_inj:
  assumes "length p = length q" "2 \<le> length p" "length p < 16" "small_reads p = small_reads q"
  shows "p = q"
proof -
  define n where "n = (if 9 \<le> length p then 8 else if 5 \<le> length p then 4 else (2 :: nat))"
  have n: "n \<le> 8" "n \<le> length p" "length p \<le> 2 * n"
    using assms(2,3) by (auto simp: n_def)
  have s: "small_reads xs = do { a \<leftarrow> read_le xs 0 n; b \<leftarrow> read_le xs (length p - n) n; Some (a, b) }"
    if "length xs = length p" for xs
    using that by (simp add: small_reads_def n_def Let_def)
  have "read_le p 0 n = read_le q 0 n" "read_le p (length p - n) n = read_le q (length p - n) n"
    using assms(4) n assms(1) by (simp_all add: s read_le_Some)
  then have "take n p = take n q" "take n (drop (length p - n) p) = take n (drop (length p - n) q)"
    using read_le_eq [OF assms(1) n(1), of 0] read_le_eq [OF assms(1) n(1), of "length p - n"] n(2) by simp_all
  then show ?thesis
    by (rule overlapping_reads [OF assms(1) n(2,3)])
qed

section \<open>\<open>KIdentityHash\<close> is injective and aligned to the groups\<close>

lemma identity_bits:
  fixes s :: u64
  assumes "\<forall>i \<ge> 32. \<not> bit s i" "i < 32"
  shows "bit (((s * c) AND 0xFE00000000000000) OR push_bit 3 s) (i + 3) \<longleftrightarrow> bit s i"
proof -
  have "\<not> bit (0xFE00000000000000 :: u64) (i + 3)"
  proof -
    have "(0xFE00000000000000 :: u64) = push_bit 57 0x7F"
      by (simp add: push_bit_eq_mult)
    then show ?thesis
      using assms(2) by (simp only: bit_push_bit_iff) simp
  qed
  then show ?thesis
    using assms(2) by (simp add: bit_or_iff bit_and_iff bit_push_bit_iff)
qed

theorem KIdentityHash_inj:
  assumes "length p = length q" "length p \<in> {1, 2, 4, 8}" "KIdentityHash p = KIdentityHash q"
  shows "p = q"
proof (cases "length p = 8")
  case True
  then show ?thesis
    using assms(1,3) by (intro block_bytes_eq) (simp_all add: KIdentityHash_def read_le_def)
next
  case False
  have l: "length p \<le> 4" "length q \<le> 4"
    using False assms(1,2) by auto
  have small: "\<forall>i \<ge> 32. \<not> bit (block_of xs) i" if "length xs \<le> 4" for xs :: "u8 list"
    using that by (auto simp: bit_block_of)
  let ?h = "\<lambda>s :: u64. ((s * 0x9E3779B97F4A7C15) AND 0xFE00000000000000) OR push_bit 3 s"
  have h: "?h (block_of p) = ?h (block_of q)"
    using assms(1,3) False by (simp add: KIdentityHash_def read_le_def)
  have "bit (block_of p) i \<longleftrightarrow> bit (block_of q) i" for i
  proof (cases "i < 32")
    case True
    show ?thesis
      using identity_bits [OF small [OF l(1)] True] identity_bits [OF small [OF l(2)] True] h by metis
  next
    case False
    then show ?thesis
      using small [OF l(1)] small [OF l(2)] by simp
  qed
  then have "block_of p = block_of q"
    by (intro bit_word_eqI) simp
  then show ?thesis
    using l assms(1) by (intro block_bytes_eq) simp_all
qed

end
