(* ===== verification/AppendStore.thy ===== *)
theory AppendStore
  imports Platform
begin

text \<open>
  The interface of a growing sequence, as the engine uses one: an operation that appends an
  element and may fail for lack of memory. The provider promises that it appends exactly
  when it succeeds, that it leaves the sequence alone otherwise, and that it accounts for
  the blocks it owns. \<open>KVector\<close> and \<open>KDeque\<close> provide it; collecting the matches of a search
  is its client.
\<close>

locale append_store =
  fixes append :: "sys \<Rightarrow> 's \<Rightarrow> 'a \<Rightarrow> ntstatus \<times> 's \<times> sys"
    and contents :: "'s \<Rightarrow> 'a list"
    and owned :: "'s \<Rightarrow> nat set"
    and ok :: "sys \<Rightarrow> 's \<Rightarrow> bool"
  assumes ok_owned: "ok \<sigma> s \<Longrightarrow> owned s \<subseteq> dom (live \<sigma>)"
    and append_status: "append \<sigma> s x = (r, s', \<sigma>') \<Longrightarrow> r = STATUS_SUCCESS \<or> \<not> NT_SUCCESS r"
    and append_contents: "sys_ok \<sigma> \<Longrightarrow> ok \<sigma> s \<Longrightarrow> append \<sigma> s x = (r, s', \<sigma>') \<Longrightarrow>
      contents s' = (if NT_SUCCESS r then contents s @ [x] else contents s)"
    and append_ok: "sys_ok \<sigma> \<Longrightarrow> ok \<sigma> s \<Longrightarrow> append \<sigma> s x = (r, s', \<sigma>') \<Longrightarrow> ok \<sigma>' s'"
    and append_owns: "sys_ok \<sigma> \<Longrightarrow> ok \<sigma> s \<Longrightarrow> append \<sigma> s x = (r, s', \<sigma>') \<Longrightarrow>
      owns_step \<sigma> (owned s) \<sigma>' (owned s')"

text \<open>Appending a list of elements, stopping at the first failure.\<close>

fun append_list :: "(sys \<Rightarrow> 's \<Rightarrow> 'a \<Rightarrow> ntstatus \<times> 's \<times> sys) \<Rightarrow> sys \<Rightarrow> 's \<Rightarrow> 'a list \<Rightarrow> ntstatus \<times> 's \<times> sys" where
  "append_list app \<sigma> s [] = (STATUS_SUCCESS, s, \<sigma>)"
| "append_list app \<sigma> s (x # xs) =
     (case app \<sigma> s x of (r, s', \<sigma>') \<Rightarrow>
        if NT_SUCCESS r then append_list app \<sigma>' s' xs else (r, s', \<sigma>'))"

context append_store
begin

lemma append_sys_ok: "sys_ok \<sigma> \<Longrightarrow> ok \<sigma> s \<Longrightarrow> append \<sigma> s x = (r, s', \<sigma>') \<Longrightarrow> sys_ok \<sigma>'"
  using append_owns owns_step_sys_ok by blast

text \<open>
  What a client gets: the elements in order when every append succeeded, and otherwise the
  elements before the first failure, with no block lost in either case.
\<close>

lemma append_list_spec:
  "sys_ok \<sigma> \<Longrightarrow> ok \<sigma> s \<Longrightarrow> append_list append \<sigma> s xs = (r, s', \<sigma>') \<Longrightarrow>
     ok \<sigma>' s' \<and> owns_step \<sigma> (owned s) \<sigma>' (owned s') \<and>
     (\<exists>k \<le> length xs. contents s' = contents s @ take k xs \<and>
        (if NT_SUCCESS r then r = STATUS_SUCCESS \<and> k = length xs else k < length xs))"
proof (induction xs arbitrary: \<sigma> s)
  case Nil
  then show ?case using owns_step_refl [OF _ ok_owned] by auto
next
  case (Cons x xs)
  obtain r1 s1 \<sigma>1 where a: "append \<sigma> s x = (r1, s1, \<sigma>1)"
    by (cases "append \<sigma> s x") auto
  have ok1: "sys_ok \<sigma>1" "ok \<sigma>1 s1" "owns_step \<sigma> (owned s) \<sigma>1 (owned s1)"
    using Cons.prems a append_sys_ok append_ok append_owns by blast+
  show ?case
  proof (cases "NT_SUCCESS r1")
    case False
    then have "r = r1" "s' = s1" "\<sigma>' = \<sigma>1"
      using Cons.prems a by simp_all
    with False ok1 append_contents [OF Cons.prems(1,2) a] show ?thesis
      by (auto intro!: exI [of _ 0])
  next
    case True
    then have rest: "append_list append \<sigma>1 s1 xs = (r, s', \<sigma>')"
      using Cons.prems a by simp
    obtain k where IH: "ok \<sigma>' s'" "owns_step \<sigma>1 (owned s1) \<sigma>' (owned s')" "k \<le> length xs"
        "contents s' = contents s1 @ take k xs"
        "if NT_SUCCESS r then r = STATUS_SUCCESS \<and> k = length xs else k < length xs"
      using Cons.IH [OF ok1(1,2) rest] by blast
    have "owns_step \<sigma> (owned s) \<sigma>' (owned s')"
      by (rule owns_step_trans [OF ok1(3) IH(2) Cons.prems(1)])
    moreover have "contents s' = contents s @ take (Suc k) (x # xs)"
      using IH(4) append_contents [OF Cons.prems(1,2) a] True by simp
    ultimately show ?thesis
      using IH by (intro conjI exI [of _ "Suc k"]) (auto split: if_splits)
  qed
qed

end

end
