(* ===== verification/KVector.thy ===== *)
theory KVector
  imports AppendStore
begin

text \<open>
  \<open>KVector.h\<close>: a vector with room for two elements inside the object and a pool block after
  that. The model keeps the elements from \<open>m_First\<close> to \<open>m_Last\<close>, the capacity
  \<open>m_End - m_First\<close>, and the pool block when the buffer is dynamic. The size of an element in
  bytes is a parameter \<open>sz\<close>.
\<close>

section \<open>State and queries\<close>

record 'a kvector =
  kv_elems :: "'a list"
  kv_cap :: nat
  kv_block :: "nat option"

definition SvoCapacity :: nat where "SvoCapacity = 2"

definition KVector_new :: "'a kvector" where
  "KVector_new = \<lparr>kv_elems = [], kv_cap = SvoCapacity, kv_block = None\<rparr>"

definition KVector_IsDynamic :: "'a kvector \<Rightarrow> bool" where
  "KVector_IsDynamic v \<longleftrightarrow> kv_block v \<noteq> None"

definition KVector_Size :: "'a kvector \<Rightarrow> nat" where "KVector_Size v = length (kv_elems v)"

definition KVector_Capacity :: "'a kvector \<Rightarrow> nat" where "KVector_Capacity v = kv_cap v"

definition KVector_IsEmpty :: "'a kvector \<Rightarrow> bool" where "KVector_IsEmpty v \<longleftrightarrow> kv_elems v = []"

definition KVector_nth_elem :: "'a kvector \<Rightarrow> nat \<Rightarrow> 'a option" where
  "KVector_nth_elem v i = rd (kv_elems v) i"

definition KVector_Back :: "'a kvector \<Rightarrow> 'a option" where
  "KVector_Back v = (if kv_elems v = [] then None else Some (kv_elems v ! (length (kv_elems v) - 1)))"

section \<open>Growing\<close>

definition KVector_free_buffer :: "sys \<Rightarrow> 'a kvector \<Rightarrow> sys" where
  "KVector_free_buffer \<sigma> v = (case kv_block v of None \<Rightarrow> \<sigma> | Some b \<Rightarrow> ExFreePoolWithTag \<sigma> b)"

definition KVector_ComputeNextCapacity :: "sys \<Rightarrow> 'a kvector \<Rightarrow> nat option" where
  "KVector_ComputeNextCapacity \<sigma> v =
     (if kv_cap v < 4 then Some 8
      else if kv_cap v < 1024 then SizeTMult \<sigma> (kv_cap v) 2
      else SizeTAdd \<sigma> (kv_cap v) (drop_bit 1 (kv_cap v)))"

definition KVector_Reserve :: "nat \<Rightarrow> sys \<Rightarrow> 'a kvector \<Rightarrow> nat \<Rightarrow> ntstatus \<times> 'a kvector \<times> sys" where
  "KVector_Reserve sz \<sigma> v NewCapacity =
     (if NewCapacity \<le> kv_cap v then (STATUS_SUCCESS, v, \<sigma>)
      else case SizeTMult \<sigma> NewCapacity sz of
        None \<Rightarrow> (STATUS_INTEGER_OVERFLOW, v, \<sigma>)
      | Some allocationSize \<Rightarrow>
          (case ExAllocatePool2 \<sigma> allocationSize of
             (None, \<sigma>1) \<Rightarrow> (STATUS_INSUFFICIENT_RESOURCES, v, \<sigma>1)
           | (Some pNewData, \<sigma>1) \<Rightarrow>
               (STATUS_SUCCESS, v\<lparr>kv_cap := NewCapacity, kv_block := Some pNewData\<rparr>, KVector_free_buffer \<sigma>1 v)))"

definition KVector_GrowAndEmplace :: "nat \<Rightarrow> sys \<Rightarrow> 'a kvector \<Rightarrow> 'a \<Rightarrow> ntstatus \<times> 'a kvector \<times> sys" where
  "KVector_GrowAndEmplace sz \<sigma> v x =
     (case KVector_ComputeNextCapacity \<sigma> v of
        None \<Rightarrow> (STATUS_INTEGER_OVERFLOW, v, \<sigma>)
      | Some newCapacity \<Rightarrow>
          (case SizeTMult \<sigma> newCapacity sz of
             None \<Rightarrow> (STATUS_INTEGER_OVERFLOW, v, \<sigma>)
           | Some allocationSize \<Rightarrow>
               (case ExAllocatePool2 \<sigma> allocationSize of
                  (None, \<sigma>1) \<Rightarrow> (STATUS_INSUFFICIENT_RESOURCES, v, \<sigma>1)
                | (Some pNewData, \<sigma>1) \<Rightarrow>
                    (STATUS_SUCCESS,
                     \<lparr>kv_elems = kv_elems v @ [x], kv_cap = newCapacity, kv_block = Some pNewData\<rparr>,
                     KVector_free_buffer \<sigma>1 v))))"

definition KVector_EmplaceBack :: "nat \<Rightarrow> sys \<Rightarrow> 'a kvector \<Rightarrow> 'a \<Rightarrow> ntstatus \<times> 'a kvector \<times> sys" where
  "KVector_EmplaceBack sz \<sigma> v x =
     (if length (kv_elems v) < kv_cap v then (STATUS_SUCCESS, v\<lparr>kv_elems := kv_elems v @ [x]\<rparr>, \<sigma>)
      else KVector_GrowAndEmplace sz \<sigma> v x)"

definition KVector_PushBack :: "nat \<Rightarrow> sys \<Rightarrow> 'a kvector \<Rightarrow> 'a \<Rightarrow> ntstatus \<times> 'a kvector \<times> sys" where
  "KVector_PushBack sz \<sigma> v Value =
     (if length (kv_elems v) < kv_cap v then (STATUS_SUCCESS, v\<lparr>kv_elems := kv_elems v @ [Value]\<rparr>, \<sigma>)
      else KVector_GrowAndEmplace sz \<sigma> v Value)"

section \<open>Insertion\<close>

text \<open>
  \<open>RtlMoveMemory\<close> of \<open>n\<close> elements inside a buffer; \<open>move_up\<close> is the loop for types that are
  not trivially copyable, from \<open>i\<close> down to \<open>index\<close>. The buffer has one slot past the last
  element, whose content before the move does not matter.
\<close>

definition move_memory :: "'a list \<Rightarrow> nat \<Rightarrow> nat \<Rightarrow> nat \<Rightarrow> 'a list" where
  "move_memory buf dst src n = take dst buf @ take n (drop src buf) @ drop (dst + n) buf"

fun move_up :: "'a list \<Rightarrow> nat \<Rightarrow> nat \<Rightarrow> 'a list" where
  "move_up buf index 0 = buf"
| "move_up buf index (Suc i) =
     (if Suc i > index then move_up (buf[Suc i := buf ! i]) index i else buf)"

definition shift_up :: "bool \<Rightarrow> 'a list \<Rightarrow> nat \<Rightarrow> nat \<Rightarrow> 'a list" where
  "shift_up trivially_copyable buf index currentSize =
     (if trivially_copyable then
        (if currentSize > index then move_memory buf (index + 1) index (currentSize - index) else buf)
      else move_up buf index currentSize)"

definition KVector_Insert :: "bool \<Rightarrow> nat \<Rightarrow> sys \<Rightarrow> 'a kvector \<Rightarrow> nat \<Rightarrow> 'a \<Rightarrow> ntstatus \<times> 'a kvector \<times> sys" where
  "KVector_Insert triv sz \<sigma> v index Value =
     (if index > length (kv_elems v) then (STATUS_INVALID_PARAMETER, v, \<sigma>)
      else
        let (status, v1, \<sigma>1) =
          (if length (kv_elems v) \<ge> kv_cap v then
             (case KVector_ComputeNextCapacity \<sigma> v of
                None \<Rightarrow> (STATUS_INTEGER_OVERFLOW, v, \<sigma>)
              | Some newCapacity \<Rightarrow> KVector_Reserve sz \<sigma> v newCapacity)
           else (STATUS_SUCCESS, v, \<sigma>))
        in if \<not> NT_SUCCESS status then (status, v1, \<sigma>1)
           else
             let currentSize = length (kv_elems v1);
                 buf = shift_up triv (kv_elems v1 @ [Value]) index currentSize
             in (STATUS_SUCCESS, v1\<lparr>kv_elems := buf[index := Value]\<rparr>, \<sigma>1))"

section \<open>Clearing, copying, moving, destroying\<close>

definition KVector_Clear :: "'a kvector \<Rightarrow> 'a kvector" where
  "KVector_Clear v = v\<lparr>kv_elems := []\<rparr>"

text \<open>\<open>Clone\<close> into another vector; \<open>None\<close> is the null pointer.\<close>

definition KVector_Clone :: "nat \<Rightarrow> sys \<Rightarrow> 'a kvector \<Rightarrow> 'a kvector option \<Rightarrow> ntstatus \<times> 'a kvector option \<times> sys" where
  "KVector_Clone sz \<sigma> v pOutVector =
     (case pOutVector of
        None \<Rightarrow> (STATUS_INVALID_PARAMETER, None, \<sigma>)
      | Some out \<Rightarrow>
          let out = KVector_Clear out
          in if length (kv_elems v) > 0 then
               (case KVector_Reserve sz \<sigma> out (length (kv_elems v)) of
                  (status, out1, \<sigma>1) \<Rightarrow>
                    if \<not> NT_SUCCESS status then (status, Some out1, \<sigma>1)
                    else (STATUS_SUCCESS, Some (out1\<lparr>kv_elems := kv_elems v\<rparr>), \<sigma>1))
             else (STATUS_SUCCESS, Some out, \<sigma>))"

text \<open>Move construction: the new vector and what is left of the other.\<close>

definition KVector_move_construct :: "'a kvector \<Rightarrow> 'a kvector \<times> 'a kvector" where
  "KVector_move_construct Other =
     ((if KVector_IsDynamic Other then Other
       else \<lparr>kv_elems = kv_elems Other, kv_cap = SvoCapacity, kv_block = None\<rparr>),
      \<lparr>kv_elems = [], kv_cap = SvoCapacity, kv_block = None\<rparr>)"

definition KVector_move_assign :: "sys \<Rightarrow> 'a kvector \<Rightarrow> 'a kvector \<Rightarrow> 'a kvector \<times> 'a kvector \<times> sys" where
  "KVector_move_assign \<sigma> v Other =
     (let \<sigma>1 = KVector_free_buffer \<sigma> (KVector_Clear v); (v1, Other1) = KVector_move_construct Other
      in (v1, Other1, \<sigma>1))"

definition KVector_destroy :: "sys \<Rightarrow> 'a kvector \<Rightarrow> sys" where
  "KVector_destroy \<sigma> v = KVector_free_buffer \<sigma> (KVector_Clear v)"

section \<open>The invariant\<close>

text \<open>
  The elements fit the capacity, and the buffer holds as many: two inside the object, or a
  live pool block of exactly that many elements.
\<close>

definition kv_owned :: "'a kvector \<Rightarrow> nat set" where
  "kv_owned v = set_option (kv_block v)"

definition kv_ok :: "nat \<Rightarrow> sys \<Rightarrow> 'a kvector \<Rightarrow> bool" where
  "kv_ok sz \<sigma> v \<longleftrightarrow> length (kv_elems v) \<le> kv_cap v \<and>
     (case kv_block v of None \<Rightarrow> kv_cap v = SvoCapacity
      | Some b \<Rightarrow> live \<sigma> b = Some (kv_cap v * sz))"

lemma kv_size_capacity: "kv_ok sz \<sigma> v \<Longrightarrow> KVector_Size v \<le> KVector_Capacity v"
  by (simp add: kv_ok_def KVector_Size_def KVector_Capacity_def)

lemma kv_ok_owned: "kv_ok sz \<sigma> v \<Longrightarrow> kv_owned v \<subseteq> dom (live \<sigma>)"
  by (auto simp: kv_ok_def kv_owned_def split: option.splits)

lemma kv_ok_new [simp]: "kv_ok sz \<sigma> KVector_new" "kv_owned KVector_new = {}" "kv_elems KVector_new = []"
  by (simp_all add: kv_ok_def kv_owned_def KVector_new_def)

lemma kv_ok_frame:
  "kv_ok sz \<sigma> v \<Longrightarrow> \<forall>b \<in> kv_owned v. live \<sigma>' b = live \<sigma> b \<Longrightarrow> kv_ok sz \<sigma>' v"
  by (auto simp: kv_ok_def kv_owned_def split: option.splits)

lemma free_buffer_owns:
  "sys_ok \<sigma> \<Longrightarrow> kv_owned v \<subseteq> dom (live \<sigma>) \<Longrightarrow> owns_step \<sigma> (kv_owned v) (KVector_free_buffer \<sigma> v) {}"
  using free_owned [of \<sigma> "kv_owned v"]
  by (cases "kv_block v") (auto simp: kv_owned_def KVector_free_buffer_def owns_step_refl)

lemma replace_buffer:
  assumes "sys_ok \<sigma>" "kv_ok sz \<sigma> v" "ExAllocatePool2 \<sigma> bytes = (Some b, \<sigma>1)"
  shows "owns_step \<sigma> (kv_owned v) (KVector_free_buffer \<sigma>1 v) {b}"
    and "live (KVector_free_buffer \<sigma>1 v) b = Some bytes"
proof -
  note own = kv_ok_owned [OF assms(2)]
  note al = alloc_Some [OF assms(3,1) own]
  have fresh: "b \<notin> kv_owned v"
    using al(3) own by blast
  show "live (KVector_free_buffer \<sigma>1 v) b = Some bytes"
    using al(2) fresh by (cases "kv_block v") (auto simp: KVector_free_buffer_def kv_owned_def free_other)
  show "owns_step \<sigma> (kv_owned v) (KVector_free_buffer \<sigma>1 v) {b}"
  proof (cases "kv_block v")
    case None
    then show ?thesis using al(1) by (simp add: KVector_free_buffer_def kv_owned_def)
  next
    case (Some c)
    have "owns_step \<sigma>1 {b, c} (ExFreePoolWithTag \<sigma>1 c) ({b, c} - {c})"
      using owns_step_sys_ok [OF al(1)] owns_step_owned [OF al(1)] Some
      by (intro free_owned) (auto simp: kv_owned_def)
    then have "owns_step \<sigma>1 (insert b (kv_owned v)) (KVector_free_buffer \<sigma>1 v) {b}"
      using Some fresh by (simp add: KVector_free_buffer_def kv_owned_def insert_Diff_if)
    from owns_step_trans [OF al(1) this assms(1)] show ?thesis .
  qed
qed

text \<open>Failed steps leave the vector alone and own what they owned.\<close>

lemma kv_alloc_failed:
  assumes "sys_ok \<sigma>" "kv_ok sz \<sigma> v" "ExAllocatePool2 \<sigma> bytes = (None, \<sigma>1)"
  shows "owns_step \<sigma> (kv_owned v) \<sigma>1 (kv_owned v)" "kv_ok sz \<sigma>1 v"
  using alloc_None [OF assms(3,1) kv_ok_owned [OF assms(2)]] assms(2) by (auto intro: kv_ok_frame)

lemma next_capacity_grows:
  "sys_ok \<sigma> \<Longrightarrow> KVector_ComputeNextCapacity \<sigma> v = Some n \<Longrightarrow> kv_cap v < n"
  using size_t_mult [of \<sigma> "kv_cap v" 2 n] size_t_add [of \<sigma> "kv_cap v" "drop_bit 1 (kv_cap v)" n]
  by (auto simp: KVector_ComputeNextCapacity_def drop_bit_eq_div split: if_splits)

lemma KVector_Reserve_spec:
  assumes "sys_ok \<sigma>" "kv_ok sz \<sigma> v" "KVector_Reserve sz \<sigma> v n = (r, v', \<sigma>')"
  shows "kv_ok sz \<sigma>' v' \<and> owns_step \<sigma> (kv_owned v) \<sigma>' (kv_owned v') \<and> kv_elems v' = kv_elems v \<and>
     (r = STATUS_SUCCESS \<and> n \<le> kv_cap v' \<or> \<not> NT_SUCCESS r \<and> v' = v)"
proof (cases "n \<le> kv_cap v")
  case True
  then show ?thesis
    using assms owns_step_refl [OF assms(1) kv_ok_owned [OF assms(2)]] by (auto simp: KVector_Reserve_def)
next
  case False
  show ?thesis
  proof (cases "SizeTMult \<sigma> n sz")
    case None
    then show ?thesis
      using False assms owns_step_refl [OF assms(1) kv_ok_owned [OF assms(2)]] by (auto simp: KVector_Reserve_def)
  next
    case (Some bytes)
    obtain a \<sigma>1 where al: "ExAllocatePool2 \<sigma> bytes = (a, \<sigma>1)"
      by (cases "ExAllocatePool2 \<sigma> bytes") auto
    show ?thesis
    proof (cases a)
      case None
      then show ?thesis
        using False Some al assms kv_alloc_failed [OF assms(1,2)] by (auto simp: KVector_Reserve_def)
    next
      case (Some b)
      then have eq: "r = STATUS_SUCCESS" "v' = v\<lparr>kv_cap := n, kv_block := Some b\<rparr>" "\<sigma>' = KVector_free_buffer \<sigma>1 v"
        using False \<open>SizeTMult \<sigma> n sz = Some bytes\<close> al assms(3) by (simp_all add: KVector_Reserve_def)
      show ?thesis
        using replace_buffer [OF assms(1,2) al [unfolded Some]] size_t_mult [OF assms(1) \<open>SizeTMult \<sigma> n sz = Some bytes\<close>]
          assms(2) False by (simp add: eq kv_ok_def kv_owned_def)
    qed
  qed
qed

lemma GrowAndEmplace_spec:
  assumes "sys_ok \<sigma>" "kv_ok sz \<sigma> v" "KVector_GrowAndEmplace sz \<sigma> v x = (r, v', \<sigma>')"
  shows "kv_ok sz \<sigma>' v' \<and> owns_step \<sigma> (kv_owned v) \<sigma>' (kv_owned v') \<and>
     (r = STATUS_SUCCESS \<and> kv_elems v' = kv_elems v @ [x] \<or> \<not> NT_SUCCESS r \<and> v' = v)"
proof -
  note refl = owns_step_refl [OF assms(1) kv_ok_owned [OF assms(2)]]
  show ?thesis
  proof (cases "KVector_ComputeNextCapacity \<sigma> v")
    case None
    then show ?thesis using assms refl by (auto simp: KVector_GrowAndEmplace_def)
  next
    case cap: (Some n)
    show ?thesis
    proof (cases "SizeTMult \<sigma> n sz")
      case None
      then show ?thesis using cap assms refl by (auto simp: KVector_GrowAndEmplace_def)
    next
      case mult: (Some bytes)
      obtain a \<sigma>1 where al: "ExAllocatePool2 \<sigma> bytes = (a, \<sigma>1)"
        by (cases "ExAllocatePool2 \<sigma> bytes") auto
      show ?thesis
      proof (cases a)
        case None
        then show ?thesis
          using cap mult al assms kv_alloc_failed [OF assms(1,2)] by (auto simp: KVector_GrowAndEmplace_def)
      next
        case (Some b)
        then have eq: "r = STATUS_SUCCESS" "v' = \<lparr>kv_elems = kv_elems v @ [x], kv_cap = n, kv_block = Some b\<rparr>"
            "\<sigma>' = KVector_free_buffer \<sigma>1 v"
          using cap mult al assms(3) by (simp_all add: KVector_GrowAndEmplace_def)
        show ?thesis
          using replace_buffer [OF assms(1,2) al [unfolded Some]] size_t_mult [OF assms(1) mult]
            next_capacity_grows [OF assms(1) cap] assms(2) by (simp add: eq kv_ok_def kv_owned_def)
      qed
    qed
  qed
qed

lemma PushBack_spec:
  assumes "sys_ok \<sigma>" "kv_ok sz \<sigma> v" "KVector_PushBack sz \<sigma> v x = (r, v', \<sigma>')"
  shows "kv_ok sz \<sigma>' v' \<and> owns_step \<sigma> (kv_owned v) \<sigma>' (kv_owned v') \<and>
     (r = STATUS_SUCCESS \<and> kv_elems v' = kv_elems v @ [x] \<or> \<not> NT_SUCCESS r \<and> v' = v)"
proof (cases "length (kv_elems v) < kv_cap v")
  case True
  then show ?thesis
    using assms owns_step_refl [OF assms(1) kv_ok_owned [OF assms(2)]]
    by (auto simp: KVector_PushBack_def kv_ok_def kv_owned_def split: option.splits)
next
  case False
  then show ?thesis
    using assms GrowAndEmplace_spec [OF assms(1,2)] by (simp add: KVector_PushBack_def)
qed

lemma EmplaceBack_is_PushBack: "KVector_EmplaceBack = KVector_PushBack"
  by (simp add: fun_eq_iff KVector_EmplaceBack_def KVector_PushBack_def)

interpretation vector: append_store "KVector_PushBack sz" kv_elems kv_owned "kv_ok sz" for sz
proof
  fix \<sigma> \<sigma>' :: sys and s s' :: "'a kvector" and x r
  show "kv_ok sz \<sigma> s \<Longrightarrow> kv_owned s \<subseteq> dom (live \<sigma>)"
    by (rule kv_ok_owned)
  show "r = STATUS_SUCCESS \<or> \<not> NT_SUCCESS r" if "KVector_PushBack sz \<sigma> s x = (r, s', \<sigma>')"
    using that by (auto simp: KVector_PushBack_def KVector_GrowAndEmplace_def
        split: if_splits option.splits prod.splits)
  assume "sys_ok \<sigma>" "kv_ok sz \<sigma> s" "KVector_PushBack sz \<sigma> s x = (r, s', \<sigma>')"
  from PushBack_spec [OF this]
  show "kv_elems s' = (if NT_SUCCESS r then kv_elems s @ [x] else kv_elems s)" "kv_ok sz \<sigma>' s'"
    "owns_step \<sigma> (kv_owned s) \<sigma>' (kv_owned s')"
    by auto
qed

section \<open>Insertion at a position\<close>

lemma move_up_nth:
  assumes "n < length buf"
  shows "length (move_up buf i n) = length buf \<and>
     (\<forall>k < length buf. move_up buf i n ! k = (if i < k \<and> k \<le> n then buf ! (k - 1) else buf ! k))"
  using assms
proof (induction buf i n rule: move_up.induct)
  case (1 buf i)
  then show ?case by simp
next
  case (2 buf i n)
  show ?case
  proof (cases "i < Suc n")
    case True
    let ?b = "buf[Suc n := buf ! n]"
    have IH: "length (move_up ?b i n) = length buf"
        "\<forall>k < length buf. move_up ?b i n ! k = (if i < k \<and> k \<le> n then ?b ! (k - 1) else ?b ! k)"
      using 2 True by simp_all
    have "move_up buf i (Suc n) ! k = (if i < k \<and> k \<le> Suc n then buf ! (k - 1) else buf ! k)"
      if "k < length buf" for k
      using IH(2) that True by (cases "k = Suc n") (auto simp: nth_list_update)
    with IH(1) True show ?thesis by simp
  next
    case False
    then show ?thesis by auto
  qed
qed

lemma shift_up_insert:
  assumes "i \<le> length xs"
  shows "(shift_up triv (xs @ [y]) i (length xs))[i := x] = take i xs @ x # drop i xs"
proof (rule nth_equalityI)
  let ?buf = "xs @ [y]"
  have len: "length (shift_up triv ?buf i (length xs)) = Suc (length xs)"
    using assms move_up_nth [of "length xs" ?buf i] by (auto simp: shift_up_def move_memory_def)
  then show "length ((shift_up triv ?buf i (length xs))[i := x]) = length (take i xs @ x # drop i xs)"
    using assms by simp
  fix k assume "k < length ((shift_up triv ?buf i (length xs))[i := x])"
  then have k: "k \<le> length xs"
    using len by simp
  have shifted: "shift_up triv ?buf i (length xs) ! k = (if i < k then xs ! (k - 1) else ?buf ! k)"
  proof (cases triv)
    case True
    show ?thesis
    proof (cases "i < length xs")
      case True
      have "take (length xs - i) (drop i ?buf) = drop i xs"
        using assms by simp
      then have "move_memory ?buf (i + 1) i (length xs - i) = take (i + 1) ?buf @ drop i xs"
        using True by (simp add: move_memory_def)
      moreover have "length xs \<le> Suc i \<Longrightarrow> length xs - Suc 0 = i"
        using True by simp
      ultimately show ?thesis
        using \<open>triv\<close> True k by (auto simp: shift_up_def nth_append min_def)
    next
      case False
      then show ?thesis
        using \<open>triv\<close> assms k by (auto simp: shift_up_def)
    qed
  next
    case False
    then show ?thesis
      using move_up_nth [of "length xs" ?buf i] k by (auto simp: shift_up_def nth_append)
  qed
  show "(shift_up triv ?buf i (length xs))[i := x] ! k = (take i xs @ x # drop i xs) ! k"
    using shifted k len assms by (auto simp: nth_append nth_list_update min_def nth_Cons')
qed

lemma Insert_spec:
  assumes "sys_ok \<sigma>" "kv_ok sz \<sigma> v" "KVector_Insert triv sz \<sigma> v i x = (r, v', \<sigma>')"
  shows "kv_ok sz \<sigma>' v' \<and> owns_step \<sigma> (kv_owned v) \<sigma>' (kv_owned v') \<and>
     (r = STATUS_SUCCESS \<and> i \<le> length (kv_elems v) \<and>
        kv_elems v' = take i (kv_elems v) @ x # drop i (kv_elems v) \<or>
      \<not> NT_SUCCESS r \<and> v' = v)"
proof (cases "i \<le> length (kv_elems v)")
  case False
  then show ?thesis
    using assms owns_step_refl [OF assms(1) kv_ok_owned [OF assms(2)]] by (auto simp: KVector_Insert_def)
next
  case i: True
  define grown where "grown = (if length (kv_elems v) \<ge> kv_cap v then
             (case KVector_ComputeNextCapacity \<sigma> v of
                None \<Rightarrow> (STATUS_INTEGER_OVERFLOW, v, \<sigma>)
              | Some newCapacity \<Rightarrow> KVector_Reserve sz \<sigma> v newCapacity)
           else (STATUS_SUCCESS, v, \<sigma>))"
  obtain r1 v1 \<sigma>1 where g: "grown = (r1, v1, \<sigma>1)"
    by (cases grown) auto
  have refl: "owns_step \<sigma> (kv_owned v) \<sigma> (kv_owned v)"
    by (rule owns_step_refl [OF assms(1) kv_ok_owned [OF assms(2)]])
  have grow: "kv_ok sz \<sigma>1 v1 \<and> owns_step \<sigma> (kv_owned v) \<sigma>1 (kv_owned v1) \<and> kv_elems v1 = kv_elems v \<and>
      (r1 = STATUS_SUCCESS \<and> length (kv_elems v) < kv_cap v1 \<or> \<not> NT_SUCCESS r1 \<and> v1 = v)"
  proof (cases "length (kv_elems v) \<ge> kv_cap v")
    case False
    then show ?thesis using g assms refl by (auto simp: grown_def)
  next
    case True
    then have full: "length (kv_elems v) = kv_cap v"
      using assms(2) by (simp add: kv_ok_def)
    show ?thesis
    proof (cases "KVector_ComputeNextCapacity \<sigma> v")
      case None
      then show ?thesis using True g assms refl by (auto simp: grown_def)
    next
      case (Some n)
      then have "KVector_Reserve sz \<sigma> v n = (r1, v1, \<sigma>1)"
        using True g by (simp add: grown_def)
      from KVector_Reserve_spec [OF assms(1,2) this] next_capacity_grows [OF assms(1) Some] full
      show ?thesis by auto
    qed
  qed
  have ins: "KVector_Insert triv sz \<sigma> v i x =
      (if \<not> NT_SUCCESS r1 then (r1, v1, \<sigma>1)
       else (STATUS_SUCCESS, v1\<lparr>kv_elems := (shift_up triv (kv_elems v1 @ [x]) i (length (kv_elems v1)))[i := x]\<rparr>, \<sigma>1))"
    using i g by (simp add: KVector_Insert_def Let_def flip: grown_def)
  show ?thesis
  proof (cases "NT_SUCCESS r1")
    case False
    then show ?thesis using ins grow assms(3) by auto
  next
    case True
    have "v' = v1\<lparr>kv_elems := take i (kv_elems v) @ x # drop i (kv_elems v)\<rparr>" "r = STATUS_SUCCESS" "\<sigma>' = \<sigma>1"
      using True ins assms(3) grow shift_up_insert [of i "kv_elems v"] i by auto
    with grow True i show ?thesis
      by (auto simp: kv_ok_def kv_owned_def split: option.splits)
  qed
qed

section \<open>The other operations\<close>

lemma KVector_Clear_spec:
  "kv_ok sz \<sigma> v \<Longrightarrow> kv_ok sz \<sigma> (KVector_Clear v)" "kv_elems (KVector_Clear v) = []"
  "kv_owned (KVector_Clear v) = kv_owned v"
  by (auto simp: kv_ok_def KVector_Clear_def kv_owned_def split: option.splits)

lemma KVector_destroy_spec:
  "sys_ok \<sigma> \<Longrightarrow> kv_ok sz \<sigma> v \<Longrightarrow> owns_step \<sigma> (kv_owned v) (KVector_destroy \<sigma> v) {}"
  using free_buffer_owns [of \<sigma> "KVector_Clear v"] kv_ok_owned [of sz \<sigma> v] by (simp add: KVector_destroy_def KVector_Clear_spec)

lemma KVector_move_construct_spec:
  assumes "kv_ok sz \<sigma> v" "KVector_move_construct v = (v1, v2)"
  shows "kv_ok sz \<sigma> v1" "kv_elems v1 = kv_elems v" "kv_owned v1 = kv_owned v"
    "kv_ok sz \<sigma> v2" "kv_elems v2 = []" "kv_owned v2 = {}"
  using assms
  by (auto simp: KVector_move_construct_def KVector_IsDynamic_def kv_ok_def kv_owned_def split: option.splits if_splits)

lemma KVector_move_assign_spec:
  assumes "sys_ok \<sigma>" "kv_ok sz \<sigma> v" "kv_ok sz \<sigma> w" "kv_owned v \<inter> kv_owned w = {}"
    and "KVector_move_assign \<sigma> v w = (v1, w1, \<sigma>')"
  shows "kv_ok sz \<sigma>' v1" "kv_elems v1 = kv_elems w" "kv_ok sz \<sigma>' w1" "kv_elems w1 = []"
    "owns_step \<sigma> (kv_owned v \<union> kv_owned w) \<sigma>' (kv_owned v1 \<union> kv_owned w1)"
proof -
  have m: "KVector_move_construct w = (v1, w1)" and \<sigma>': "\<sigma>' = KVector_free_buffer \<sigma> (KVector_Clear v)"
    using assms(5) by (auto simp: KVector_move_assign_def Let_def split: prod.splits)
  have free: "owns_step \<sigma> (kv_owned v) \<sigma>' {}"
    using free_buffer_owns [of \<sigma> "KVector_Clear v"] assms(1) kv_ok_owned [OF assms(2)]
    by (simp add: \<sigma>' KVector_Clear_spec)
  note frame = owns_step_frame [OF free assms(1) kv_ok_owned [OF assms(3)] assms(4)]
  have w: "kv_ok sz \<sigma>' w"
    using kv_ok_frame [OF assms(3)] frame(3) by blast
  note mc = KVector_move_construct_spec [OF w m]
  show "kv_ok sz \<sigma>' v1" "kv_elems v1 = kv_elems w" "kv_ok sz \<sigma>' w1" "kv_elems w1 = []"
    using mc by simp_all
  show "owns_step \<sigma> (kv_owned v \<union> kv_owned w) \<sigma>' (kv_owned v1 \<union> kv_owned w1)"
    using owns_step_widen [OF free assms(1) kv_ok_owned [OF assms(3)] assms(4)] mc by simp
qed

lemma Clone_spec:
  assumes "sys_ok \<sigma>" "kv_ok sz \<sigma> out" "KVector_Clone sz \<sigma> v (Some out) = (r, w, \<sigma>')"
  shows "\<exists>out'. w = Some out' \<and> kv_ok sz \<sigma>' out' \<and> owns_step \<sigma> (kv_owned out) \<sigma>' (kv_owned out') \<and>
     (r = STATUS_SUCCESS \<and> kv_elems out' = kv_elems v \<or> \<not> NT_SUCCESS r \<and> kv_elems out' = [])"
proof (cases "kv_elems v = []")
  case True
  then show ?thesis
    using assms KVector_Clear_spec(1) [OF assms(2)] KVector_Clear_spec(2,3) [of out] owns_step_refl [OF assms(1) kv_ok_owned [OF assms(2)]]
    by (auto simp: KVector_Clone_def Let_def)
next
  case False
  obtain r1 o1 \<sigma>1 where res: "KVector_Reserve sz \<sigma> (KVector_Clear out) (length (kv_elems v)) = (r1, o1, \<sigma>1)"
    by (cases "KVector_Reserve sz \<sigma> (KVector_Clear out) (length (kv_elems v))") auto
  note spec = KVector_Reserve_spec [OF assms(1) KVector_Clear_spec(1) [OF assms(2)] res]
  have eq: "(r, w, \<sigma>') = (if \<not> NT_SUCCESS r1 then (r1, Some o1, \<sigma>1)
      else (STATUS_SUCCESS, Some (o1\<lparr>kv_elems := kv_elems v\<rparr>), \<sigma>1))"
    using False res assms(3) by (simp add: KVector_Clone_def Let_def)
  show ?thesis
    using spec eq KVector_Clear_spec(2,3) [of out] by (auto simp: kv_ok_def kv_owned_def split: if_splits option.splits)
qed

end
