(* ===== verification/KDeque.thy ===== *)
theory KDeque
  imports AppendStore
begin

text \<open>
  \<open>KDeque.h\<close>: a sequence in up to 256 pool blocks of \<open>BlockCapacity\<close> elements, which never
  move once written. The model keeps the array of block pointers, the slots written in each
  block, and the size. \<open>BlockCapacity\<close> (a power of two) is the parameter \<open>BC\<close>, the size of an
  element \<open>sz\<close>. Writing through a null block pointer is a bug check.
\<close>

section \<open>State and operations\<close>

record 'a kdeque =
  dq_blocks :: "nat \<Rightarrow> nat option"
  dq_slots :: "nat \<Rightarrow> nat \<Rightarrow> 'a option"
  dq_size :: nat

definition kMaxBlocks :: nat where "kMaxBlocks = 256"

function Log2_loop :: "nat \<Rightarrow> nat \<Rightarrow> nat" where
  "Log2_loop n result = (if n > 1 then Log2_loop (drop_bit 1 n) (result + 1) else result)"
  by pat_completeness auto
termination by (relation "measure fst") (auto simp: drop_bit_eq_div)

declare Log2_loop.simps [simp del]

definition Log2 :: "nat \<Rightarrow> nat" where "Log2 n = Log2_loop n 0"

definition KDeque_new :: "'a kdeque" where
  "KDeque_new = \<lparr>dq_blocks = (\<lambda>_. None), dq_slots = (\<lambda>_ _. None), dq_size = 0\<rparr>"

definition KDeque_Size :: "'a kdeque \<Rightarrow> nat" where "KDeque_Size q = dq_size q"

definition KDeque_IsEmpty :: "'a kdeque \<Rightarrow> bool" where "KDeque_IsEmpty q \<longleftrightarrow> dq_size q = 0"

definition AllocateBlock :: "nat \<Rightarrow> nat \<Rightarrow> sys \<Rightarrow> 'a kdeque \<Rightarrow> nat \<Rightarrow> ntstatus \<times> 'a kdeque \<times> sys" where
  "AllocateBlock BC sz \<sigma> q BlockIndex =
     (if BlockIndex \<ge> kMaxBlocks then (STATUS_QUOTA_EXCEEDED, q, \<sigma>)
      else if dq_blocks q BlockIndex = None then
        (case ExAllocatePool2 \<sigma> (BC * sz) of
           (None, \<sigma>1) \<Rightarrow> (STATUS_INSUFFICIENT_RESOURCES, q, \<sigma>1)
         | (Some b, \<sigma>1) \<Rightarrow>
             (STATUS_SUCCESS, q\<lparr>dq_blocks := (dq_blocks q)(BlockIndex := Some b)\<rparr>, \<sigma>1))
      else (STATUS_SUCCESS, q, \<sigma>))"

definition KDeque_EmplaceBack :: "nat \<Rightarrow> nat \<Rightarrow> sys \<Rightarrow> 'a kdeque \<Rightarrow> 'a \<Rightarrow> ntstatus \<times> 'a kdeque \<times> sys" where
  "KDeque_EmplaceBack BC sz \<sigma> q x =
     (let currentSize = dq_size q;
          slotIndex = currentSize AND (BC - 1);
          (status, q1, \<sigma>1) =
            (if slotIndex = 0 then AllocateBlock BC sz \<sigma> q (drop_bit (Log2 BC) currentSize)
             else (STATUS_SUCCESS, q, \<sigma>))
      in if \<not> NT_SUCCESS status then (status, q1, \<sigma>1)
         else case dq_blocks q1 (drop_bit (Log2 BC) currentSize) of
           None \<Rightarrow> (STATUS_SUCCESS, q1, \<sigma>1\<lparr>bug_check := True\<rparr>)
         | Some pBlock \<Rightarrow>
             (STATUS_SUCCESS,
              q1\<lparr>dq_slots := (dq_slots q1)(pBlock := (dq_slots q1 pBlock)(slotIndex := Some x)),
                 dq_size := currentSize + 1\<rparr>, \<sigma>1))"

text \<open>The address of an element, and the element itself; \<open>None\<close> is a fault.\<close>

definition KDeque_address :: "nat \<Rightarrow> 'a kdeque \<Rightarrow> nat \<Rightarrow> (nat \<times> nat) option" where
  "KDeque_address BC q i =
     map_option (\<lambda>b. (b, i AND (BC - 1))) (dq_blocks q (drop_bit (Log2 BC) i))"

definition KDeque_at :: "nat \<Rightarrow> 'a kdeque \<Rightarrow> nat \<Rightarrow> 'a option" where
  "KDeque_at BC q i = do { (b, s) \<leftarrow> KDeque_address BC q i; dq_slots q b s }"

definition KDeque_Back :: "nat \<Rightarrow> 'a kdeque \<Rightarrow> 'a option" where
  "KDeque_Back BC q = (if dq_size q = 0 then None else KDeque_at BC q (dq_size q - 1))"

fun free_blocks :: "sys \<Rightarrow> (nat \<Rightarrow> nat option) \<Rightarrow> nat \<Rightarrow> nat \<Rightarrow> sys \<times> (nat \<Rightarrow> nat option)" where
  "free_blocks \<sigma> bs i 0 = (\<sigma>, bs)"
| "free_blocks \<sigma> bs i (Suc n) =
     (case bs i of
        None \<Rightarrow> free_blocks \<sigma> bs (i + 1) n
      | Some b \<Rightarrow> free_blocks (ExFreePoolWithTag \<sigma> b) (bs(i := None)) (i + 1) n)"

definition KDeque_Clear :: "nat \<Rightarrow> sys \<Rightarrow> 'a kdeque \<Rightarrow> 'a kdeque \<times> sys" where
  "KDeque_Clear BC \<sigma> q =
     (let fullBlocks = drop_bit (Log2 BC) (dq_size q);
          maxAllocatedBlocks = (if fullBlocks < kMaxBlocks then fullBlocks + 1 else kMaxBlocks);
          (\<sigma>1, bs) = free_blocks \<sigma> (dq_blocks q) 0 maxAllocatedBlocks
      in (q\<lparr>dq_blocks := bs, dq_size := 0\<rparr>, \<sigma>1))"

definition KDeque_move_construct :: "'a kdeque \<Rightarrow> 'a kdeque \<times> 'a kdeque" where
  "KDeque_move_construct Other = (Other, Other\<lparr>dq_blocks := (\<lambda>_. None), dq_size := 0\<rparr>)"

definition KDeque_move_assign :: "nat \<Rightarrow> sys \<Rightarrow> 'a kdeque \<Rightarrow> 'a kdeque \<Rightarrow> 'a kdeque \<times> 'a kdeque \<times> sys" where
  "KDeque_move_assign BC \<sigma> q Other =
     (let (_, \<sigma>1) = KDeque_Clear BC \<sigma> q; (q1, Other1) = KDeque_move_construct Other
      in (q1, Other1, \<sigma>1))"

definition KDeque_destroy :: "nat \<Rightarrow> sys \<Rightarrow> 'a kdeque \<Rightarrow> sys" where
  "KDeque_destroy BC \<sigma> q = snd (KDeque_Clear BC \<sigma> q)"

section \<open>Index arithmetic\<close>

lemma Log2_loop_power: "Log2_loop (2 ^ k) r = r + k"
proof (induction k arbitrary: r)
  case 0
  then show ?case by (subst Log2_loop.simps) simp
next
  case (Suc k)
  have "drop_bit 1 (2 ^ Suc k :: nat) = 2 ^ k"
    by (simp add: drop_bit_eq_div)
  moreover have "1 < (2 :: nat) ^ Suc k"
    by (rule one_less_power) simp_all
  ultimately show ?case
    using Suc by (subst Log2_loop.simps) simp
qed

lemma index_arith:
  assumes "BC = 2 ^ k"
  shows "drop_bit (Log2 BC) i = i div BC" "i AND (BC - 1) = i mod BC"
proof -
  show "drop_bit (Log2 BC) i = i div BC"
    using Log2_loop_power [of k 0] by (simp add: assms Log2_def drop_bit_eq_div)
  show "i AND (BC - 1) = i mod BC"
    unfolding assms mask_eq_exp_minus_1 [symmetric] take_bit_eq_mask [symmetric] take_bit_eq_mod ..
qed

section \<open>The invariant\<close>

text \<open>
  Exactly the blocks that hold elements are allocated, each live and of the right size,
  no two the same, and every slot below the size is written.
\<close>

definition dq_owned :: "'a kdeque \<Rightarrow> nat set" where
  "dq_owned q = ran (dq_blocks q)"

definition dq_ok :: "nat \<Rightarrow> nat \<Rightarrow> sys \<Rightarrow> 'a kdeque \<Rightarrow> bool" where
  "dq_ok BC sz \<sigma> q \<longleftrightarrow>
     (\<exists>k. BC = 2 ^ k) \<and> dq_size q \<le> kMaxBlocks * BC \<and>
     (\<forall>i. dq_blocks q i \<noteq> None \<longleftrightarrow> i * BC < dq_size q) \<and>
     inj_on (dq_blocks q) (dom (dq_blocks q)) \<and>
     (\<forall>b \<in> dq_owned q. live \<sigma> b = Some (BC * sz)) \<and>
     (\<forall>j < dq_size q. KDeque_at BC q j \<noteq> None)"

definition dq_contents :: "nat \<Rightarrow> 'a kdeque \<Rightarrow> 'a list" where
  "dq_contents BC q = map (\<lambda>j. the (KDeque_at BC q j)) [0..<dq_size q]"

lemma address_div:
  "BC = 2 ^ k \<Longrightarrow> KDeque_address BC q i = map_option (\<lambda>b. (b, i mod BC)) (dq_blocks q (i div BC))"
  by (simp add: KDeque_address_def index_arith del: One_nat_def)

lemma at_div:
  "BC = 2 ^ k \<Longrightarrow> KDeque_at BC q i = do { b \<leftarrow> dq_blocks q (i div BC); dq_slots q b (i mod BC) }"
  by (cases "dq_blocks q (i div BC)") (simp_all add: KDeque_at_def address_div)

lemma dq_ok_new: "BC = 2 ^ k \<Longrightarrow> dq_ok BC sz \<sigma> KDeque_new"
  by (auto simp: dq_ok_def KDeque_new_def dq_owned_def)

lemma dq_new [simp]: "dq_owned KDeque_new = {}" "dq_contents BC KDeque_new = []"
  by (simp_all add: KDeque_new_def dq_owned_def dq_contents_def)

lemma dq_ok_owned: "dq_ok BC sz \<sigma> q \<Longrightarrow> dq_owned q \<subseteq> dom (live \<sigma>)"
  by (auto simp: dq_ok_def)

lemma dq_ok_frame: "dq_ok BC sz \<sigma> q \<Longrightarrow> \<forall>b \<in> dq_owned q. live \<sigma>' b = live \<sigma> b \<Longrightarrow> dq_ok BC sz \<sigma>' q"
  by (simp add: dq_ok_def)

text \<open>Room for one more element: the block it goes into is allocated.\<close>

definition dq_room :: "nat \<Rightarrow> nat \<Rightarrow> sys \<Rightarrow> 'a kdeque \<Rightarrow> bool" where
  "dq_room BC sz \<sigma> q \<longleftrightarrow>
     dq_size q < kMaxBlocks * BC \<and>
     (\<forall>i. dq_blocks q i \<noteq> None \<longleftrightarrow> i * BC \<le> dq_size q) \<and>
     inj_on (dq_blocks q) (dom (dq_blocks q)) \<and>
     (\<forall>b \<in> dq_owned q. live \<sigma> b = Some (BC * sz)) \<and>
     (\<forall>j < dq_size q. KDeque_at BC q j \<noteq> None)"

text \<open>A full deque with a fresh block hung in behind the others.\<close>

lemma new_block_room:
  assumes BC: "BC = 2 ^ k" and ok: "dq_ok BC sz \<sigma> q" and full: "dq_size q mod BC = 0" "dq_size q div BC < kMaxBlocks"
    and b: "b \<notin> dq_owned q" "live \<sigma>' b = Some (BC * sz)" "\<And>c. c \<in> dq_owned q \<Longrightarrow> live \<sigma>' c = live \<sigma> c"
  defines "q1 \<equiv> q\<lparr>dq_blocks := (dq_blocks q)(dq_size q div BC := Some b)\<rparr>"
  shows "dq_room BC sz \<sigma>' q1" "dq_owned q1 = insert b (dq_owned q)"
    "\<forall>j < dq_size q. KDeque_address BC q1 j = KDeque_address BC q j"
proof -
  let ?d = "dq_size q div BC"
  have pos: "0 < BC"
    by (simp add: BC)
  have d: "?d * BC = dq_size q"
    using full(1) by (metis add.right_neutral div_mult_mod_eq)
  then have none: "dq_blocks q ?d = None"
    using ok by (metis dq_ok_def less_irrefl)
  show own: "dq_owned q1 = insert b (dq_owned q)"
    using none by (simp add: q1_def dq_owned_def ran_map_upd)
  have same: "dq_blocks q1 (j div BC) = dq_blocks q (j div BC)" if "j < dq_size q" for j
  proof -
    have "j div BC < ?d"
      using that d by (intro less_mult_imp_div_less) simp
    then show ?thesis by (simp add: q1_def)
  qed
  then show "\<forall>j < dq_size q. KDeque_address BC q1 j = KDeque_address BC q j"
    by (simp add: address_div [OF BC])
  have blocks: "dq_blocks q1 i \<noteq> None \<longleftrightarrow> i * BC \<le> dq_size q1" for i
  proof (cases "i = ?d")
    case True
    then show ?thesis using d by (simp add: q1_def)
  next
    case False
    then have "i * BC \<noteq> dq_size q"
      using pos by (metis div_mult_self_is_m)
    then have "i * BC \<le> dq_size q \<longleftrightarrow> i * BC < dq_size q"
      by auto
    with False show ?thesis
      using ok by (auto simp: q1_def dq_ok_def)
  qed
  have inj: "inj_on (dq_blocks q1) (dom (dq_blocks q1))"
    using ok b(1) by (auto simp: q1_def dq_ok_def inj_on_def dom_def dq_owned_def ran_def)
  have lv: "\<forall>c \<in> dq_owned q1. live \<sigma>' c = Some (BC * sz)"
    using ok b(2,3) by (auto simp: own dq_ok_def)
  have at: "KDeque_at BC q1 j \<noteq> None" if "j < dq_size q" for j
    using that ok same [OF that] by (simp add: at_div [OF BC] dq_ok_def q1_def)
  have "dq_size q < kMaxBlocks * BC"
    using full(2) d pos by (metis mult_less_cancel2)
  then show "dq_room BC sz \<sigma>' q1"
    using blocks inj lv at by (simp add: dq_room_def q1_def)
qed

lemma AllocateBlock_room:
  assumes BC: "BC = 2 ^ k" and ok: "sys_ok \<sigma>" "dq_ok BC sz \<sigma> q" and full: "dq_size q mod BC = 0"
    and al: "AllocateBlock BC sz \<sigma> q (dq_size q div BC) = (r, q1, \<sigma>1)"
  shows "owns_step \<sigma> (dq_owned q) \<sigma>1 (dq_owned q1) \<and>
     (r = STATUS_SUCCESS \<and> dq_room BC sz \<sigma>1 q1 \<and> dq_size q1 = dq_size q \<and> dq_slots q1 = dq_slots q \<and>
        (\<forall>j < dq_size q. KDeque_address BC q1 j = KDeque_address BC q j) \<or>
      \<not> NT_SUCCESS r \<and> q1 = q \<and> dq_ok BC sz \<sigma>1 q)"
proof -
  let ?d = "dq_size q div BC"
  have "?d * BC = dq_size q"
    using full by (metis add.right_neutral div_mult_mod_eq)
  then have none: "dq_blocks q ?d = None"
    using ok(2) by (metis dq_ok_def less_irrefl)
  have refl: "owns_step \<sigma> (dq_owned q) \<sigma> (dq_owned q)"
    by (rule owns_step_refl [OF ok(1) dq_ok_owned [OF ok(2)]])
  show ?thesis
  proof (cases "?d \<ge> kMaxBlocks")
    case True
    then show ?thesis using al refl ok by (auto simp: AllocateBlock_def)
  next
    case False
    obtain a \<sigma>2 where alloc: "ExAllocatePool2 \<sigma> (BC * sz) = (a, \<sigma>2)"
      by (cases "ExAllocatePool2 \<sigma> (BC * sz)") auto
    show ?thesis
    proof (cases a)
      case None
      then have "r = STATUS_INSUFFICIENT_RESOURCES" "q1 = q" "\<sigma>1 = \<sigma>2"
        using False none alloc al by (auto simp: AllocateBlock_def)
      with alloc_None [OF alloc [unfolded None] ok(1) dq_ok_owned [OF ok(2)]] show ?thesis
        using dq_ok_frame [OF ok(2), of \<sigma>2] by simp
    next
      case (Some b)
      then have eq: "r = STATUS_SUCCESS" "q1 = q\<lparr>dq_blocks := (dq_blocks q)(?d := Some b)\<rparr>" "\<sigma>1 = \<sigma>2"
        using False none alloc al by (auto simp: AllocateBlock_def)
      note as = alloc_Some [OF alloc [unfolded Some] ok(1) dq_ok_owned [OF ok(2)]]
      have fresh: "b \<notin> dq_owned q"
        using as(3) dq_ok_owned [OF ok(2)] by blast
      have "live \<sigma>2 c = live \<sigma> c" if "c \<in> dq_owned q" for c
        using that alloc fresh by (auto simp: ExAllocatePool2_def Let_def Some split: if_splits)
      note room = new_block_room [OF BC ok(2) full _ fresh as(2) this]
      show ?thesis
        using room False as(1) by (simp add: eq)
    qed
  qed
qed

text \<open>The placement of one element into its slot.\<close>

lemma write_slot:
  fixes q :: "'a kdeque" and x :: 'a
  assumes BC: "BC = 2 ^ k" and room: "dq_room BC sz \<sigma> q"
    and p: "dq_blocks q (dq_size q div BC) = Some p"
  defines "q' \<equiv> q\<lparr>dq_slots := (dq_slots q)(p := (dq_slots q p)(dq_size q mod BC := Some x)),
                  dq_size := dq_size q + 1\<rparr>"
  shows "dq_ok BC sz \<sigma> q'" "dq_contents BC q' = dq_contents BC q @ [x]" "dq_owned q' = dq_owned q"
    "KDeque_address BC q' j = KDeque_address BC q j"
proof -
  let ?n = "dq_size q"
  have pos: "0 < BC"
    by (simp add: BC)
  have new: "KDeque_at BC q' ?n = Some x"
    using p by (simp add: at_div [OF BC] q'_def)
  have old: "KDeque_at BC q' j = KDeque_at BC q j" if "j < ?n" for j
  proof (cases "dq_blocks q (j div BC) = Some p")
    case True
    then have "j div BC = ?n div BC"
      using room p by (auto simp: dq_room_def inj_on_def dom_def)
    then have "j mod BC \<noteq> ?n mod BC"
      using that by (metis div_mult_mod_eq less_irrefl)
    with True show ?thesis
      by (simp add: at_div [OF BC] q'_def)
  next
    case False
    then show ?thesis
      by (cases "dq_blocks q (j div BC)") (auto simp: at_div [OF BC] q'_def)
  qed
  have "KDeque_at BC q' j \<noteq> None" if "j < dq_size q'" for j
    using that room old new by (cases "j = ?n") (auto simp: q'_def dq_room_def)
  moreover have "i * BC < dq_size q' \<longleftrightarrow> i * BC \<le> ?n" for i
    by (auto simp: q'_def)
  ultimately show "dq_ok BC sz \<sigma> q'"
    using room BC by (auto simp: dq_ok_def dq_room_def dq_owned_def q'_def)
  show "dq_contents BC q' = dq_contents BC q @ [x]"
    using old new by (simp add: dq_contents_def q'_def)
  show "dq_owned q' = dq_owned q"
    by (simp add: q'_def dq_owned_def)
  show "KDeque_address BC q' j = KDeque_address BC q j"
    by (simp add: q'_def KDeque_address_def)
qed

theorem KDeque_EmplaceBack_spec:
  assumes ok: "sys_ok \<sigma>" "dq_ok BC sz \<sigma> q" and e: "KDeque_EmplaceBack BC sz \<sigma> q x = (r, q', \<sigma>')"
  shows "dq_ok BC sz \<sigma>' q' \<and> owns_step \<sigma> (dq_owned q) \<sigma>' (dq_owned q') \<and>
     (\<forall>j < dq_size q. KDeque_address BC q' j = KDeque_address BC q j) \<and>
     (r = STATUS_SUCCESS \<and> dq_contents BC q' = dq_contents BC q @ [x] \<and> dq_size q' = dq_size q + 1 \<or>
      \<not> NT_SUCCESS r \<and> q' = q)"
proof -
  obtain k where BC: "BC = 2 ^ k"
    using ok(2) by (auto simp: dq_ok_def)
  note arith = index_arith [OF BC, unfolded One_nat_def]
  let ?d = "dq_size q div BC" and ?s = "dq_size q mod BC"
  have refl: "owns_step \<sigma> (dq_owned q) \<sigma> (dq_owned q)"
    by (rule owns_step_refl [OF ok(1) dq_ok_owned [OF ok(2)]])
  show ?thesis
  proof (cases "?s = 0")
    case True
    obtain r1 q1 \<sigma>1 where al: "AllocateBlock BC sz \<sigma> q ?d = (r1, q1, \<sigma>1)"
      by (cases "AllocateBlock BC sz \<sigma> q ?d") auto
    note spec = AllocateBlock_room [OF BC ok True al]
    show ?thesis
    proof (cases "NT_SUCCESS r1")
      case False
      then show ?thesis
        using spec al e True by (auto simp: KDeque_EmplaceBack_def Let_def arith)
    next
      case succ: True
      then have room: "dq_room BC sz \<sigma>1 q1" and same: "dq_size q1 = dq_size q" "dq_slots q1 = dq_slots q"
          "\<forall>j < dq_size q. KDeque_address BC q1 j = KDeque_address BC q j"
        using spec by auto
      have "?d * BC \<le> dq_size q1"
        by (simp add: same)
      then obtain p where p: "dq_blocks q1 (dq_size q1 div BC) = Some p"
        using room same(1) unfolding dq_room_def by (metis not_None_eq)
      have eq: "r = STATUS_SUCCESS" "\<sigma>' = \<sigma>1"
          "q' = q1\<lparr>dq_slots := (dq_slots q1)(p := (dq_slots q1 p)(dq_size q1 mod BC := Some x)), dq_size := dq_size q1 + 1\<rparr>"
        using al e True succ p same(1) by (simp_all add: KDeque_EmplaceBack_def Let_def arith)
      note w = write_slot [OF BC room p, of x, folded eq(3)]
      have "dq_contents BC q1 = dq_contents BC q"
        using same by (simp add: dq_contents_def KDeque_at_def cong: map_cong)
      then show ?thesis
        using w spec same eq(1,2) by (simp add: eq(3))
    qed
  next
    case False
    then have "?d * BC < dq_size q"
      by (metis add.right_neutral div_mult_mod_eq le_neq_implies_less mod_less_eq_dividend nat_add_left_cancel_less not_gr0 zero_less_iff_neq_zero less_add_same_cancel1)
    then obtain p where p: "dq_blocks q ?d = Some p"
      using ok(2) unfolding dq_ok_def by (metis not_None_eq)
    have "i * BC < dq_size q \<longleftrightarrow> i * BC \<le> dq_size q" for i
      using False by (metis le_neq_implies_less less_imp_le mod_mult_self2_is_0)
    moreover have "dq_size q \<noteq> kMaxBlocks * BC"
      using False by (metis mod_mult_self2_is_0)
    ultimately have room: "dq_room BC sz \<sigma> q"
      using ok(2) unfolding dq_ok_def dq_room_def by auto
    have eq: "r = STATUS_SUCCESS" "\<sigma>' = \<sigma>"
        "q' = q\<lparr>dq_slots := (dq_slots q)(p := (dq_slots q p)(dq_size q mod BC := Some x)), dq_size := dq_size q + 1\<rparr>"
      using e False p by (simp_all add: KDeque_EmplaceBack_def Let_def arith)
    note w = write_slot [OF BC room p, of x, folded eq(3)]
    then show ?thesis
      using refl eq(1,2) by (simp add: eq(3))
  qed
qed

interpretation deque: append_store "KDeque_EmplaceBack BC sz" "dq_contents BC" dq_owned "dq_ok BC sz" for BC sz
proof
  fix \<sigma> \<sigma>' :: sys and s s' :: "'a kdeque" and x r
  show "dq_ok BC sz \<sigma> s \<Longrightarrow> dq_owned s \<subseteq> dom (live \<sigma>)"
    by (rule dq_ok_owned)
  show "r = STATUS_SUCCESS \<or> \<not> NT_SUCCESS r" if "KDeque_EmplaceBack BC sz \<sigma> s x = (r, s', \<sigma>')"
    using that by (auto simp: KDeque_EmplaceBack_def AllocateBlock_def Let_def
        split: if_splits option.splits prod.splits)
  assume "sys_ok \<sigma>" "dq_ok BC sz \<sigma> s" "KDeque_EmplaceBack BC sz \<sigma> s x = (r, s', \<sigma>')"
  from KDeque_EmplaceBack_spec [OF this]
  show "dq_contents BC s' = (if NT_SUCCESS r then dq_contents BC s @ [x] else dq_contents BC s)"
    "dq_ok BC sz \<sigma>' s'" "owns_step \<sigma> (dq_owned s) \<sigma>' (dq_owned s')"
    by auto
qed

section \<open>Clearing and moving\<close>

lemma free_blocks_spec:
  "sys_ok \<sigma> \<Longrightarrow> ran bs \<subseteq> dom (live \<sigma>) \<Longrightarrow> inj_on bs (dom bs) \<Longrightarrow> free_blocks \<sigma> bs i n = (\<sigma>', bs') \<Longrightarrow>
     owns_step \<sigma> (ran bs) \<sigma>' (ran bs') \<and> bs' = (\<lambda>j. if i \<le> j \<and> j < i + n then None else bs j)"
proof (induction n arbitrary: \<sigma> bs i)
  case 0
  then show ?case by (auto simp: owns_step_refl fun_eq_iff)
next
  case (Suc n)
  show ?case
  proof (cases "bs i")
    case None
    then have "free_blocks \<sigma> bs (i + 1) n = (\<sigma>', bs')"
      using Suc.prems by simp
    from Suc.IH [OF Suc.prems(1-3) this] show ?thesis
      using None by (auto simp: fun_eq_iff le_Suc_eq Suc_le_eq)
  next
    case (Some b)
    let ?bs = "bs(i := None)" and ?\<sigma> = "ExFreePoolWithTag \<sigma> b"
    have ran: "ran ?bs = ran bs - {b}"
    proof -
      have "bs j \<noteq> Some b" if "j \<noteq> i" for j
        using that Some Suc.prems(3) by (metis domI inj_onD)
      then show ?thesis
        using Some by (auto simp: ran_def) (metis option.inject)
    qed
    have "b \<in> ran bs"
      using Some by (auto simp: ran_def)
    then have free: "owns_step \<sigma> (ran bs) ?\<sigma> (ran ?bs)"
      unfolding ran by (rule free_owned [OF Suc.prems(1,2)])
    have "inj_on ?bs (dom ?bs)"
      using Suc.prems(3) by (auto simp: inj_on_def dom_def)
    moreover have "free_blocks ?\<sigma> ?bs (i + 1) n = (\<sigma>', bs')"
      using Suc.prems(4) Some by simp
    ultimately have IH: "owns_step ?\<sigma> (ran ?bs) \<sigma>' (ran bs')"
        "bs' = (\<lambda>j. if i + 1 \<le> j \<and> j < i + 1 + n then None else ?bs j)"
      using Suc.IH [OF owns_step_sys_ok [OF free] owns_step_owned [OF free]] by blast+
    show ?thesis
      using owns_step_trans [OF free IH(1) Suc.prems(1)] IH(2) by (auto simp: fun_eq_iff)
  qed
qed

theorem KDeque_Clear_spec:
  assumes ok: "sys_ok \<sigma>" "dq_ok BC sz \<sigma> q" and c: "KDeque_Clear BC \<sigma> q = (q', \<sigma>')"
  shows "dq_ok BC sz \<sigma>' q'" "dq_contents BC q' = []" "dq_owned q' = {}"
    "owns_step \<sigma> (dq_owned q) \<sigma>' {}"
proof -
  obtain k where BC: "BC = 2 ^ k"
    using ok(2) by (auto simp: dq_ok_def)
  have pos: "0 < BC"
    by (simp add: BC)
  let ?full = "dq_size q div BC"
  define m where "m = (if ?full < kMaxBlocks then ?full + 1 else kMaxBlocks)"
  obtain \<sigma>1 bs where fb: "free_blocks \<sigma> (dq_blocks q) 0 m = (\<sigma>1, bs)"
    by (cases "free_blocks \<sigma> (dq_blocks q) 0 m") auto
  have eq: "q' = q\<lparr>dq_blocks := bs, dq_size := 0\<rparr>" "\<sigma>' = \<sigma>1"
    using c fb by (simp_all add: KDeque_Clear_def Let_def index_arith(1) [OF BC] m_def)
  have inj: "inj_on (dq_blocks q) (dom (dq_blocks q))"
    using ok(2) by (simp add: dq_ok_def)
  note spec = free_blocks_spec [OF ok(1) dq_ok_owned [OF ok(2), unfolded dq_owned_def] inj fb]
  have "i < m" if "dq_blocks q i \<noteq> None" for i
  proof -
    have i: "i * BC < dq_size q"
      using that ok(2) by (simp add: dq_ok_def)
    then have "i * BC < kMaxBlocks * BC"
      using ok(2) unfolding dq_ok_def by linarith
    then have "i < kMaxBlocks"
      by simp
    moreover have "i \<le> ?full"
      using i pos by (simp add: less_eq_div_iff_mult_less_eq)
    ultimately show ?thesis by (simp add: m_def)
  qed
  then have none: "bs i = None" for i
    using spec by (cases "dq_blocks q i") (auto split: if_splits)
  then show own: "dq_owned q' = {}"
    by (simp add: eq dq_owned_def ran_def)
  have "dom bs = {}"
    using none by (simp add: dom_def)
  then show "dq_ok BC sz \<sigma>' q'"
    using BC none own by (auto simp: dq_ok_def eq)
  show "dq_contents BC q' = []"
    by (simp add: dq_contents_def eq)
  show "owns_step \<sigma> (dq_owned q) \<sigma>' {}"
    using conjunct1 [OF spec] own by (simp add: eq dq_owned_def)
qed

lemma KDeque_destroy_spec:
  "sys_ok \<sigma> \<Longrightarrow> dq_ok BC sz \<sigma> q \<Longrightarrow> owns_step \<sigma> (dq_owned q) (KDeque_destroy BC \<sigma> q) {}"
  using KDeque_Clear_spec(4) unfolding KDeque_destroy_def by (metis prod.collapse)

lemma KDeque_move_construct_spec:
  assumes "dq_ok BC sz \<sigma> q" "KDeque_move_construct q = (q1, q2)"
  shows "q1 = q" "dq_ok BC sz \<sigma> q2" "dq_owned q2 = {}" "dq_contents BC q2 = []"
  using assms by (auto simp: KDeque_move_construct_def dq_ok_def dq_owned_def dq_contents_def)

lemma KDeque_move_assign_spec:
  assumes ok: "sys_ok \<sigma>" "dq_ok BC sz \<sigma> q" "dq_ok BC sz \<sigma> w" "dq_owned q \<inter> dq_owned w = {}"
    and m: "KDeque_move_assign BC \<sigma> q w = (q1, w1, \<sigma>')"
  shows "dq_ok BC sz \<sigma>' q1" "dq_contents BC q1 = dq_contents BC w" "dq_ok BC sz \<sigma>' w1" "dq_contents BC w1 = []"
    "owns_step \<sigma> (dq_owned q \<union> dq_owned w) \<sigma>' (dq_owned q1 \<union> dq_owned w1)"
proof -
  obtain q0 \<sigma>1 where cl: "KDeque_Clear BC \<sigma> q = (q0, \<sigma>1)"
    by (cases "KDeque_Clear BC \<sigma> q") auto
  have mc: "KDeque_move_construct w = (q1, w1)" "\<sigma>' = \<sigma>1"
    using m cl by (auto simp: KDeque_move_assign_def split: prod.splits)
  note free = KDeque_Clear_spec(4) [OF ok(1,2) cl]
  note frame = owns_step_frame [OF free ok(1) dq_ok_owned [OF ok(3)] ok(4)]
  have w: "dq_ok BC sz \<sigma>' w"
    using dq_ok_frame [OF ok(3)] frame(3) mc(2) by blast
  note spec = KDeque_move_construct_spec [OF w mc(1)]
  show "dq_ok BC sz \<sigma>' q1" "dq_contents BC q1 = dq_contents BC w" "dq_ok BC sz \<sigma>' w1" "dq_contents BC w1 = []"
    using spec w by simp_all
  show "owns_step \<sigma> (dq_owned q \<union> dq_owned w) \<sigma>' (dq_owned q1 \<union> dq_owned w1)"
    using owns_step_widen [OF free ok(1) dq_ok_owned [OF ok(3)] ok(4)] spec mc(2) by simp
qed

end
