(* ===== verification/StringArena.thy ===== *)
theory StringArena
  imports Swar
begin

text \<open>
  \<open>KStringArena\<close> (KmStringPatternMatch.h): character storage carved from a chain of pool
  slabs, with bookmarks to roll a transaction back. A slab is a heap object named by its pool
  block; the model keeps its \<open>Next\<close> pointer, \<open>Capacity\<close>, \<open>Used\<close> and the characters written. A
  pointer into the arena is a slab and an offset in characters. Walking the chain is a
  \<^theory_text>\<open>partial_function\<close>, in which touching a slab that is gone is \<open>None\<close>.
\<close>

section \<open>State and operations\<close>

record 'tchar slab =
  Next :: "nat option"
  Capacity :: nat
  Used :: nat
  Buffer :: "nat \<Rightarrow> 'tchar option"

record 'tchar arena =
  Head :: "nat option"
  Tail :: "nat option"
  slabs :: "nat \<Rightarrow> 'tchar slab option"

type_synonym ptr = "nat \<times> nat"

record bookmark =
  TailSlab :: "nat option"
  UsedChars :: nat

definition KStringArena_new :: "'tchar arena" where
  "KStringArena_new = \<lparr>Head = None, Tail = None, slabs = (\<lambda>_. None)\<rparr>"

text \<open>\<open>FIELD_OFFSET(Slab, Buffer)\<close>, the size of a character, and the characters per 8 bytes.\<close>

definition slab_header :: nat where "slab_header = 24"

definition sizeof_tchar :: "'c::len itself \<Rightarrow> nat" where "sizeof_tchar _ = LENGTH('c) div 8"

definition charAlign :: "'c::len itself \<Rightarrow> nat" where "charAlign T = 8 div sizeof_tchar T"

text \<open>The arithmetic of \<open>Allocate\<close> in SIZE_T, wrapping as the code's does.\<close>

definition aligned_length :: "'c::len itself \<Rightarrow> nat \<Rightarrow> nat" where
  "aligned_length T Length =
     unat ((word_of_nat Length + (word_of_nat (charAlign T) - 1)) AND
           NOT (word_of_nat (charAlign T) - 1) :: u64)"

definition length_guard :: "'c::len itself \<Rightarrow> nat \<Rightarrow> bool" where
  "length_guard T Length \<longleftrightarrow>
     Length = 0 \<or> Length > (2 ^ 64 - 1 - slab_header - charAlign T) div sizeof_tchar T"

definition slab_bytes :: "'c::len itself \<Rightarrow> nat \<Rightarrow> nat" where
  "slab_bytes T alignedLength =
     (let bytesNeeded = (alignedLength * sizeof_tchar T) mod 2 ^ 64;
          allocSize = (slab_header + bytesNeeded) mod 2 ^ 64
      in if allocSize < 4096 then 4096 else allocSize)"

text \<open>A slab for \<open>alignedLength\<close> characters, appended to the chain; \<open>None\<close> is a failed allocation.\<close>

definition new_slab :: "sys \<Rightarrow> 'c::len word arena \<Rightarrow> nat \<Rightarrow> 'c word arena option \<times> sys" where
  "new_slab \<sigma> a alignedLength =
     (let allocSize = slab_bytes TYPE('c) alignedLength;
          capacity = (allocSize - slab_header) div sizeof_tchar TYPE('c)
      in case ExAllocatePool2 \<sigma> allocSize of
           (None, \<sigma>1) \<Rightarrow> (None, \<sigma>1)
         | (Some b, \<sigma>1) \<Rightarrow>
             let s = \<lparr>Next = None, Capacity = capacity, Used = 0, Buffer = (\<lambda>_. None)\<rparr>;
                 linked = (case Tail a of
                     None \<Rightarrow> a\<lparr>Head := Some b, slabs := (slabs a)(b \<mapsto> s)\<rparr>
                   | Some t \<Rightarrow> a\<lparr>slabs := (slabs a)(t := map_option (Next_update (\<lambda>_. Some b)) (slabs a t), b \<mapsto> s)\<rparr>)
             in (Some (linked\<lparr>Tail := Some b\<rparr>), \<sigma>1))"

definition needs_slab :: "'c::len word arena \<Rightarrow> nat \<Rightarrow> bool" where
  "needs_slab a alignedLength \<longleftrightarrow>
     (case Tail a of None \<Rightarrow> True
      | Some t \<Rightarrow> (case slabs a t of None \<Rightarrow> True | Some s \<Rightarrow> Capacity s - Used s < alignedLength))"

text \<open>\<open>pMemory = &m_Tail->Buffer[m_Tail->Used]; m_Tail->Used += alignedLength\<close>\<close>

definition carve :: "'c::len word arena \<Rightarrow> nat \<Rightarrow> ptr option \<times> 'c word arena" where
  "carve a alignedLength =
     (case Tail a of
        None \<Rightarrow> (None, a)
      | Some t \<Rightarrow> (case slabs a t of
          None \<Rightarrow> (None, a)
        | Some s \<Rightarrow> (Some (t, Used s), a\<lparr>slabs := (slabs a)(t \<mapsto> s\<lparr>Used := Used s + alignedLength\<rparr>)\<rparr>)))"

definition Allocate :: "sys \<Rightarrow> 'c::len word arena \<Rightarrow> nat \<Rightarrow> ptr option \<times> 'c word arena \<times> sys" where
  "Allocate \<sigma> a Length =
     (if length_guard TYPE('c) Length then (None, a, \<sigma>)
      else
        let alignedLength = aligned_length TYPE('c) Length;
            (ready, \<sigma>1) = (if needs_slab a alignedLength then new_slab \<sigma> a alignedLength else (Some a, \<sigma>))
        in case ready of
             None \<Rightarrow> (None, a, \<sigma>1)
           | Some a1 \<Rightarrow> (case carve a1 alignedLength of (p, a2) \<Rightarrow> (p, a2, \<sigma>1)))"

definition GetBookmark :: "'c::len word arena \<Rightarrow> bookmark" where
  "GetBookmark a = \<lparr>TailSlab = Tail a,
     UsedChars = (case Tail a of None \<Rightarrow> 0 | Some t \<Rightarrow> (case slabs a t of None \<Rightarrow> 0 | Some s \<Rightarrow> Used s))\<rparr>"

text \<open>Freeing the slabs from \<open>pCurrent\<close> on.\<close>

partial_function (option) free_chain ::
  "sys \<Rightarrow> (nat \<Rightarrow> 'c::len word slab option) \<Rightarrow> nat option \<Rightarrow> (sys \<times> (nat \<Rightarrow> 'c word slab option)) option" where
  "free_chain \<sigma> m pCurrent =
     (case pCurrent of
        None \<Rightarrow> Some (\<sigma>, m)
      | Some b \<Rightarrow> do { s \<leftarrow> m b; free_chain (ExFreePoolWithTag \<sigma> b) (m(b := None)) (Next s) })"

declare free_chain.simps [code]

definition RevertBookmark :: "sys \<Rightarrow> 'c::len word arena \<Rightarrow> bookmark \<Rightarrow> ('c word arena \<times> sys) option" where
  "RevertBookmark \<sigma> a mark =
     (if Tail a = TailSlab mark then
        (case Tail a of
           None \<Rightarrow> Some (a, \<sigma>)
         | Some t \<Rightarrow> do { s \<leftarrow> slabs a t;
             Some (a\<lparr>slabs := (slabs a)(t \<mapsto> s\<lparr>Used := UsedChars mark\<rparr>)\<rparr>, \<sigma>) })
      else
        do { pCurrent \<leftarrow> (case TailSlab mark of
               None \<Rightarrow> Some (Head a)
             | Some t \<Rightarrow> do { s \<leftarrow> slabs a t; Some (Next s) });
             (\<sigma>1, m) \<leftarrow> free_chain \<sigma> (slabs a) pCurrent;
             (case TailSlab mark of
                None \<Rightarrow> Some (a\<lparr>Head := None, Tail := None, slabs := m\<rparr>, \<sigma>1)
              | Some t \<Rightarrow> do { s \<leftarrow> m t;
                  Some (a\<lparr>Tail := Some t, slabs := m(t \<mapsto> s\<lparr>Next := None, Used := UsedChars mark\<rparr>)\<rparr>, \<sigma>1) }) })"

definition KStringArena_Clear :: "sys \<Rightarrow> 'c::len word arena \<Rightarrow> ('c word arena \<times> sys) option" where
  "KStringArena_Clear \<sigma> a =
     do { (\<sigma>1, m) \<leftarrow> free_chain \<sigma> (slabs a) (Head a);
          Some (\<lparr>Head = None, Tail = None, slabs = m\<rparr>, \<sigma>1) }"

section \<open>Reading and writing through a pointer\<close>

text \<open>Stores and loads of \<open>n\<close> characters; outside a slab's capacity they fault.\<close>

definition arena_write :: "'c::len word arena \<Rightarrow> ptr \<Rightarrow> 'c word list \<Rightarrow> 'c word arena option" where
  "arena_write a p cs =
     (case slabs a (fst p) of
        None \<Rightarrow> None
      | Some s \<Rightarrow>
          if snd p + length cs \<le> Capacity s
          then Some (a\<lparr>slabs := (slabs a)(fst p \<mapsto>
                 s\<lparr>Buffer := (\<lambda>i. if snd p \<le> i \<and> i < snd p + length cs then Some (cs ! (i - snd p)) else Buffer s i)\<rparr>)\<rparr>)
          else None)"

definition arena_read :: "'c::len word arena \<Rightarrow> ptr \<Rightarrow> nat \<Rightarrow> 'c word list option" where
  "arena_read a p n =
     (case slabs a (fst p) of
        None \<Rightarrow> None
      | Some s \<Rightarrow> if snd p + n \<le> Capacity s then those (map (\<lambda>i. Buffer s (snd p + i)) [0..<n]) else None)"

section \<open>Sizes\<close>

lemma and_not_mask_round:
  fixes w :: u64
  shows "unat (w AND NOT (mask m)) = unat w div 2 ^ m * 2 ^ m"
proof -
  have "w AND NOT (mask m) = push_bit m (drop_bit m w)"
    by (rule bit_eqI) (auto simp: bit_simps)
  moreover have "take_bit 64 (unat w) = unat w"
    using unsigned_less [of w] by (simp add: take_bit_nat_eq_self_iff)
  then have "unat (push_bit m (drop_bit m w)) = take_bit 64 (push_bit m (drop_bit m (unat w)))"
    unfolding unsigned_push_bit_eq unsigned_drop_bit_eq by simp
  ultimately have "unat (w AND NOT (mask m)) = (unat w div 2 ^ m * 2 ^ m) mod 2 ^ 64"
    by (simp only: take_bit_eq_mod push_bit_eq_mult drop_bit_eq_div)
  moreover have "unat w div 2 ^ m * 2 ^ m < 2 ^ 64"
  proof (rule le_less_trans [OF div_times_less_eq_dividend])
    have "unat w < 2 ^ LENGTH(64)"
      by (rule unsigned_less)
    then show "unat w < 2 ^ 64"
      by simp
  qed
  ultimately show ?thesis
    by (simp only: mod_less)
qed

lemma char_sizes:
  assumes "tchar_ok TYPE('c::len)"
  shows "sizeof_tchar TYPE('c) * charAlign TYPE('c) = 8" "0 < sizeof_tchar TYPE('c)" "0 < charAlign TYPE('c)"
    "sizeof_tchar TYPE('c) \<le> 2"
  using assms by (auto simp: tchar_ok_def sizeof_tchar_def charAlign_def)

lemma aligned_length_eq:
  assumes "tchar_ok TYPE('c::len)" "L + 8 < 2 ^ 64"
  shows "aligned_length TYPE('c) L = (L + (charAlign TYPE('c) - 1)) div charAlign TYPE('c) * charAlign TYPE('c)"
proof -
  obtain m where m: "charAlign TYPE('c) = 2 ^ m" "m \<le> 3"
    using assms(1) by (auto simp: tchar_ok_def charAlign_def sizeof_tchar_def intro: that [of 3] that [of 2])
  have k: "(word_of_nat (charAlign TYPE('c)) - 1 :: u64) = mask m"
    by (simp add: m mask_eq_exp_minus_1)
  have "(2::nat) ^ m \<le> 2 ^ 3"
    using m(2) by (rule power_increasing) simp
  then have small: "L + (2 ^ m - 1) < 2 ^ 64"
    using assms(2) by simp
  have "(word_of_nat L + mask m :: u64) = word_of_nat (L + (2 ^ m - 1))"
    by (simp only: mask_eq_exp_minus_1 of_nat_add) (simp add: of_nat_diff)
  then have "unat (word_of_nat L + mask m :: u64) = L + (2 ^ m - 1)"
    using small by (simp add: unsigned_of_nat take_bit_nat_eq_self)
  then show ?thesis
    unfolding aligned_length_def k and_not_mask_round by (simp add: m)
qed

text \<open>For the lengths a pattern can have, nothing wraps.\<close>

lemma allocate_sizes:
  assumes ok: "tchar_ok TYPE('c::len)" and L: "0 < L" "L < 2 ^ 33"
  defines "al \<equiv> aligned_length TYPE('c) L"
  shows "\<not> length_guard TYPE('c) L" "L \<le> al" "al < L + charAlign TYPE('c)" "charAlign TYPE('c) dvd al"
    "slab_header + al * sizeof_tchar TYPE('c) \<le> slab_bytes TYPE('c) al"
    "al \<le> (slab_bytes TYPE('c) al - slab_header) div sizeof_tchar TYPE('c)"
    "slab_header + (slab_bytes TYPE('c) al - slab_header) div sizeof_tchar TYPE('c) * sizeof_tchar TYPE('c)
       \<le> slab_bytes TYPE('c) al"
proof -
  let ?sz = "sizeof_tchar TYPE('c)" and ?ca = "charAlign TYPE('c)"
  have sizes: "?sz = 1 \<and> ?ca = 8 \<or> ?sz = 2 \<and> ?ca = 4"
    using ok by (auto simp: tchar_ok_def sizeof_tchar_def charAlign_def)
  have al: "al = (L + (?ca - 1)) div ?ca * ?ca"
    unfolding al_def using L by (intro aligned_length_eq [OF ok]) simp
  show "\<not> length_guard TYPE('c) L"
    using L sizes by (auto simp: length_guard_def slab_header_def)
  show "?ca dvd al"
    by (simp add: al)
  show "L \<le> al" "al < L + ?ca"
    using sizes by (auto simp: al)
  then have "al < 2 ^ 34"
    using L sizes by auto
  then have "slab_bytes TYPE('c) al = max 4096 (slab_header + al * ?sz)"
    using sizes by (auto simp: slab_bytes_def Let_def slab_header_def max_def)
  then show "slab_header + al * ?sz \<le> slab_bytes TYPE('c) al"
    "al \<le> (slab_bytes TYPE('c) al - slab_header) div ?sz"
    "slab_header + (slab_bytes TYPE('c) al - slab_header) div ?sz * ?sz \<le> slab_bytes TYPE('c) al"
    using sizes by (auto simp: slab_header_def max_def)
qed

section \<open>The invariant\<close>

text \<open>\<open>lseg m h bs e\<close>: following \<open>Next\<close> from \<open>h\<close> visits \<open>bs\<close> and arrives at \<open>e\<close>.\<close>

fun lseg :: "(nat \<Rightarrow> 'tchar slab option) \<Rightarrow> nat option \<Rightarrow> nat list \<Rightarrow> nat option \<Rightarrow> bool" where
  "lseg m h [] e \<longleftrightarrow> h = e"
| "lseg m h (b # bs) e \<longleftrightarrow> h = Some b \<and> (\<exists>s. m b = Some s \<and> lseg m (Next s) bs e)"

lemma lseg_append: "lseg m h (xs @ ys) e \<longleftrightarrow> (\<exists>k. lseg m h xs k \<and> lseg m k ys e)"
  by (induction xs arbitrary: h) auto

lemma lseg_cong:
  "lseg m h bs e \<Longrightarrow> (\<And>b. b \<in> set bs \<Longrightarrow> map_option Next (m' b) = map_option Next (m b)) \<Longrightarrow> lseg m' h bs e"
proof (induction bs arbitrary: h)
  case Nil
  then show ?case by simp
next
  case (Cons b bs)
  then obtain s where s: "h = Some b" "m b = Some s" "lseg m (Next s) bs e"
    by auto
  moreover obtain s' where "m' b = Some s'" "Next s' = Next s"
    using Cons.prems(2) [of b] s by auto
  ultimately show ?case
    using Cons.IH [OF s(3)] Cons.prems(2) by auto
qed

definition last_opt :: "'a list \<Rightarrow> 'a option" where
  "last_opt xs = (if xs = [] then None else Some (last xs))"

definition slab_ok :: "'c::len itself \<Rightarrow> sys \<Rightarrow> nat \<Rightarrow> 'c word slab \<Rightarrow> bool" where
  "slab_ok T \<sigma> b s \<longleftrightarrow>
     Used s \<le> Capacity s \<and> charAlign T dvd Used s \<and>
     (\<exists>n. live \<sigma> b = Some n \<and> slab_header + Capacity s * sizeof_tchar T \<le> n)"

text \<open>\<open>bs\<close> is the chain: all slabs, each once, from head to tail, each inside its pool block.\<close>

definition arena_chain :: "sys \<Rightarrow> 'c::len word arena \<Rightarrow> nat list \<Rightarrow> bool" where
  "arena_chain \<sigma> a bs \<longleftrightarrow>
     lseg (slabs a) (Head a) bs None \<and> distinct bs \<and> dom (slabs a) = set bs \<and> Tail a = last_opt bs \<and>
     (\<forall>b s. slabs a b = Some s \<longrightarrow> slab_ok TYPE('c) \<sigma> b s)"

definition arena_owned :: "'tchar arena \<Rightarrow> nat set" where
  "arena_owned a = dom (slabs a)"

definition arena_ok :: "sys \<Rightarrow> 'c::len word arena \<Rightarrow> bool" where
  "arena_ok \<sigma> a \<longleftrightarrow> (\<exists>bs. arena_chain \<sigma> a bs)"

lemma arena_ok_new [simp]: "arena_ok \<sigma> KStringArena_new" "arena_owned KStringArena_new = {}"
  by (auto simp: arena_ok_def arena_chain_def KStringArena_new_def last_opt_def arena_owned_def intro!: exI [of _ "[]"])

lemma arena_ok_owned: "arena_ok \<sigma> a \<Longrightarrow> arena_owned a \<subseteq> dom (live \<sigma>)"
  unfolding arena_ok_def arena_chain_def arena_owned_def slab_ok_def by blast

lemma arena_chain_frame:
  assumes "arena_chain \<sigma> a bs" "\<forall>b \<in> arena_owned a. live \<sigma>' b = live \<sigma> b"
  shows "arena_chain \<sigma>' a bs"
proof -
  have "live \<sigma>' b = live \<sigma> b" if "slabs a b = Some s" for b s
    using assms(2) that by (simp add: arena_owned_def dom_def)
  with assms(1) show ?thesis
    unfolding arena_chain_def slab_ok_def by metis
qed

lemma arena_ok_frame:
  "arena_ok \<sigma> a \<Longrightarrow> \<forall>b \<in> arena_owned a. live \<sigma>' b = live \<sigma> b \<Longrightarrow> arena_ok \<sigma>' a"
  using arena_chain_frame unfolding arena_ok_def by blast

section \<open>What an operation preserves\<close>

text \<open>The first \<open>n\<close> characters at \<open>p\<close> lie in the used part of a slab.\<close>

definition committed :: "'tchar arena \<Rightarrow> ptr \<Rightarrow> nat \<Rightarrow> bool" where
  "committed a p n \<longleftrightarrow> (\<exists>s. slabs a (fst p) = Some s \<and> snd p + n \<le> Used s)"

text \<open>
  \<open>grows a a'\<close>: every slab of \<open>a\<close> is still there, with at least its used part, whose
  characters have not changed. \<open>frozen a a'\<close>: only the slab at the tail has grown.
\<close>

definition grows :: "'tchar arena \<Rightarrow> 'tchar arena \<Rightarrow> bool" where
  "grows a a' \<longleftrightarrow> (\<forall>b s. slabs a b = Some s \<longrightarrow>
     (\<exists>s'. slabs a' b = Some s' \<and> Capacity s' = Capacity s \<and> Used s \<le> Used s' \<and>
        (\<forall>i < Used s. Buffer s' i = Buffer s i)))"

definition frozen :: "'tchar arena \<Rightarrow> 'tchar arena \<Rightarrow> bool" where
  "frozen a a' \<longleftrightarrow> (\<forall>b s s'. slabs a b = Some s \<longrightarrow> slabs a' b = Some s' \<longrightarrow> Tail a \<noteq> Some b \<longrightarrow> Used s' = Used s)"

lemma grows_refl [simp]: "grows a a"
  by (simp add: grows_def)

lemma frozen_refl [simp]: "frozen a a"
  by (simp add: frozen_def)

lemma grows_trans:
  assumes "grows a b" "grows b c"
  shows "grows a c"
  unfolding grows_def
proof (intro allI impI)
  fix x s assume "slabs a x = Some s"
  then obtain s' where s': "slabs b x = Some s'" "Capacity s' = Capacity s" "Used s \<le> Used s'"
      "\<forall>i < Used s. Buffer s' i = Buffer s i"
    using assms(1) unfolding grows_def by blast
  moreover obtain s'' where "slabs c x = Some s''" "Capacity s'' = Capacity s'" "Used s' \<le> Used s''"
      "\<forall>i < Used s'. Buffer s'' i = Buffer s' i"
    using assms(2) s'(1) unfolding grows_def by blast
  ultimately show "\<exists>s'. slabs c x = Some s' \<and> Capacity s' = Capacity s \<and> Used s \<le> Used s' \<and>
      (\<forall>i < Used s. Buffer s' i = Buffer s i)"
    by (intro exI [of _ s'']) auto
qed

lemma frozen_trans:
  assumes "grows a b" "frozen a b" "frozen b c" "\<And>x. Tail b = Some x \<Longrightarrow> Tail a = Some x \<or> slabs a x = None"
  shows "frozen a c"
  unfolding frozen_def
proof (intro allI impI)
  fix x s s''
  assume a: "slabs a x = Some s" "slabs c x = Some s''" "Tail a \<noteq> Some x"
  then obtain s' where s': "slabs b x = Some s'"
    using assms(1) unfolding grows_def by blast
  have "Tail b \<noteq> Some x"
    using assms(4) [of x] a by auto
  then have "Used s'' = Used s'"
    using assms(3) s' a unfolding frozen_def by blast
  also have "\<dots> = Used s"
    using assms(2) s' a unfolding frozen_def by blast
  finally show "Used s'' = Used s" .
qed

lemma grows_committed: "grows a a' \<Longrightarrow> committed a p n \<Longrightarrow> committed a' p n"
  unfolding grows_def committed_def by (meson le_trans)

lemma grows_read:
  assumes "grows a a'" "committed a p n"
  shows "arena_read a' p n = arena_read a p n"
proof -
  obtain s where s: "slabs a (fst p) = Some s" "snd p + n \<le> Used s"
    using assms(2) by (auto simp: committed_def)
  obtain s' where s': "slabs a' (fst p) = Some s'" "Capacity s' = Capacity s" "\<forall>i < Used s. Buffer s' i = Buffer s i"
    using assms(1) s(1) unfolding grows_def by blast
  have "map (\<lambda>i. Buffer s' (snd p + i)) [0..<n] = map (\<lambda>i. Buffer s (snd p + i)) [0..<n]"
    using s'(3) s(2) by (intro map_cong) auto
  then show ?thesis
    using s s' by (simp add: arena_read_def del: map_eq_conv)
qed

section \<open>Allocation\<close>

text \<open>The arena with a fresh slab \<open>b\<close> linked behind its tail.\<close>

definition attach :: "'tchar arena \<Rightarrow> nat \<Rightarrow> 'tchar slab \<Rightarrow> 'tchar arena" where
  "attach a b s =
     a\<lparr>Head := (case Tail a of None \<Rightarrow> Some b | Some t \<Rightarrow> Head a), Tail := Some b,
       slabs := (case Tail a of None \<Rightarrow> (slabs a)(b \<mapsto> s)
         | Some t \<Rightarrow> (slabs a)(t := map_option (Next_update (\<lambda>_. Some b)) (slabs a t), b \<mapsto> s))\<rparr>"

lemma attach_slabs:
  "slabs (attach a b s) b = Some s"
  "c \<noteq> b \<Longrightarrow> slabs (attach a b s) c = (if Tail a = Some c then map_option (Next_update (\<lambda>_. Some b)) (slabs a c) else slabs a c)"
  "Tail (attach a b s) = Some b"
  by (auto simp: attach_def split: option.split)

lemma attach_owned: "arena_owned (attach a b s) = insert b (arena_owned a)"
proof (rule set_eqI)
  fix c show "c \<in> arena_owned (attach a b s) \<longleftrightarrow> c \<in> insert b (arena_owned a)"
    using attach_slabs(1) [of a b s] attach_slabs(2) [of c b a s] by (cases "c = b") (auto simp: arena_owned_def domIff)
qed

lemma attach_keeps:
  assumes "slabs a c = Some u" "b \<notin> arena_owned a"
  shows "\<exists>u'. slabs (attach a b s) c = Some u' \<and> Capacity u' = Capacity u \<and> Used u' = Used u \<and> Buffer u' = Buffer u"
proof -
  have "c \<noteq> b"
    using assms by (auto simp: arena_owned_def)
  then show ?thesis
    using assms attach_slabs(2) [of c b a s] by (cases "Tail a = Some c") auto
qed

lemma attach_grows:
  assumes "b \<notin> arena_owned a"
  shows "grows a (attach a b s)" "frozen a (attach a b s)"
proof -
  show "grows a (attach a b s)"
    using attach_keeps [OF _ assms, of _ _ s] unfolding grows_def by (metis order_refl)
  show "frozen a (attach a b s)"
    using attach_keeps [OF _ assms, of _ _ s] unfolding frozen_def by (metis option.inject)
qed

lemma attach_lseg:
  fixes a :: "'c::len word arena"
  assumes ch: "arena_chain \<sigma> a bs" and b: "b \<notin> arena_owned a" "Next s = None"
  shows "lseg (slabs (attach a b s)) (Head (attach a b s)) (bs @ [b]) None"
proof -
  have chain: "lseg (slabs a) (Head a) bs None" "distinct bs" "Tail a = last_opt bs" and bn: "b \<notin> set bs"
    using ch b(1) unfolding arena_chain_def arena_owned_def by blast+
  show ?thesis
  proof (cases bs rule: rev_cases)
    case Nil
    then have "Tail a = None"
      using chain(3) by (simp add: last_opt_def)
    then show ?thesis
      using Nil b(2) by (simp add: attach_def)
  next
    case (snoc xs t)
    then have tail: "Tail a = Some t"
      using chain(3) by (simp add: last_opt_def)
    obtain k where k: "lseg (slabs a) (Head a) xs k" "lseg (slabs a) k [t] None"
      using chain(1) unfolding snoc lseg_append by blast
    have "lseg (slabs (attach a b s)) (Head a) xs k"
    proof (rule lseg_cong [OF k(1)])
      fix c assume "c \<in> set xs"
      then have "c \<noteq> t" "c \<noteq> b"
        using chain(2) bn by (auto simp: snoc)
      then show "map_option Next (slabs (attach a b s) c) = map_option Next (slabs a c)"
        using attach_slabs(2) [of c b a s] tail by auto
    qed
    moreover have "lseg (slabs (attach a b s)) k [t] (Some b)"
      using k(2) attach_slabs(2) [of t b a s] bn tail by (auto simp: snoc)
    moreover have "lseg (slabs (attach a b s)) (Some b) [b] None"
      by (simp add: attach_slabs(1) b(2))
    ultimately have "lseg (slabs (attach a b s)) (Head a) (xs @ [t] @ [b]) None"
      unfolding lseg_append by blast
    then show ?thesis
      using tail by (simp add: attach_def snoc)
  qed
qed

lemma attach_chain:
  fixes a :: "'c::len word arena"
  assumes ch: "arena_chain \<sigma> a bs" and b: "b \<notin> arena_owned a" "Next s = None" "slab_ok TYPE('c) \<sigma>' b s"
    and lv: "\<And>c. c \<in> arena_owned a \<Longrightarrow> live \<sigma>' c = live \<sigma> c"
  shows "arena_chain \<sigma>' (attach a b s) (bs @ [b])"
proof -
  have chain: "distinct bs" "arena_owned a = set bs" "\<And>c u. slabs a c = Some u \<Longrightarrow> slab_ok TYPE('c) \<sigma> c u"
    using ch unfolding arena_chain_def arena_owned_def by blast+
  have "slab_ok TYPE('c) \<sigma>' c u'" if u': "slabs (attach a b s) c = Some u'" for c u'
  proof (cases "c = b")
    case True
    then show ?thesis
      using that b(3) attach_slabs(1) [of a b s] by simp
  next
    case False
    then obtain u where u: "slabs a c = Some u" "Capacity u' = Capacity u" "Used u' = Used u"
      using u' attach_slabs(2) [of c b a s] by (auto split: if_splits)
    then have "live \<sigma>' c = live \<sigma> c"
      by (intro lv) (auto simp: arena_owned_def)
    then show ?thesis
      using chain(3) [OF u(1)] u by (simp add: slab_ok_def)
  qed
  moreover have "dom (slabs (attach a b s)) = insert b (set bs)"
    using attach_owned [of a b s] chain(2) by (simp add: arena_owned_def)
  ultimately show ?thesis
    unfolding arena_chain_def using attach_lseg [OF ch b(1,2)] chain(1,2) b(1) attach_slabs(3) [of a b s]
    by (simp add: last_opt_def)
qed

lemma new_slab_spec:
  fixes a :: "'c::len word arena"
  assumes tc: "tchar_ok TYPE('c)" and ok: "sys_ok \<sigma>" "arena_chain \<sigma> a bs" and L: "0 < L" "L < 2 ^ 33"
    and n: "new_slab \<sigma> a (aligned_length TYPE('c) L) = (r, \<sigma>')"
  shows "case r of
      None \<Rightarrow> owns_step \<sigma> (arena_owned a) \<sigma>' (arena_owned a) \<and> arena_chain \<sigma>' a bs
    | Some a' \<Rightarrow> owns_step \<sigma> (arena_owned a) \<sigma>' (arena_owned a') \<and>
        (\<exists>b s. arena_chain \<sigma>' a' (bs @ [b]) \<and> b \<notin> arena_owned a \<and> slabs a' b = Some s \<and> Used s = 0 \<and>
           aligned_length TYPE('c) L \<le> Capacity s) \<and> grows a a' \<and> frozen a a'"
proof -
  let ?al = "aligned_length TYPE('c) L"
  let ?cap = "(slab_bytes TYPE('c) ?al - slab_header) div sizeof_tchar TYPE('c)"
  obtain x \<sigma>1 where al: "ExAllocatePool2 \<sigma> (slab_bytes TYPE('c) ?al) = (x, \<sigma>1)"
    by (cases "ExAllocatePool2 \<sigma> (slab_bytes TYPE('c) ?al)") auto
  have own: "arena_owned a \<subseteq> dom (live \<sigma>)"
    using ok(2) arena_ok_owned unfolding arena_ok_def by blast
  show ?thesis
  proof (cases x)
    case None
    then have "r = None" "\<sigma>' = \<sigma>1"
      using n al by (auto simp: new_slab_def Let_def)
    with alloc_None [OF al [unfolded None] ok(1) own] arena_chain_frame [OF ok(2), of \<sigma>1] show ?thesis
      by simp
  next
    case (Some b)
    note as = alloc_Some [OF al [unfolded Some] ok(1) own]
    define s where "s = \<lparr>Next = None, Capacity = ?cap, Used = 0, Buffer = (\<lambda>_. None :: 'c word option)\<rparr>"
    have r: "r = Some (attach a b s)" "\<sigma>' = \<sigma>1"
      using n al Some by (auto simp: new_slab_def Let_def attach_def s_def split: option.splits)
    have fresh: "b \<notin> arena_owned a"
      using as(3) own by blast
    have "live \<sigma>1 c = live \<sigma> c" if "c \<in> arena_owned a" for c
      using that fresh al Some by (auto simp: ExAllocatePool2_def Let_def split: if_splits)
    moreover have "slab_ok TYPE('c) \<sigma>1 b s"
      using as(2) allocate_sizes(7) [OF tc L] by (simp add: slab_ok_def s_def)
    ultimately have "arena_chain \<sigma>1 (attach a b s) (bs @ [b])"
      by (intro attach_chain [OF ok(2) fresh]) (simp_all add: s_def)
    moreover have "?al \<le> Capacity s" "Used s = 0"
      using allocate_sizes(6) [OF tc L] by (simp_all add: s_def)
    moreover have "owns_step \<sigma> (arena_owned a) \<sigma>1 (arena_owned (attach a b s))"
      using as(1) by (simp add: attach_owned)
    ultimately show ?thesis
      unfolding r using attach_grows [OF fresh, of s] fresh attach_slabs(1) [of a b s] by auto
  qed
qed

text \<open>Changing slabs without touching their links or capacities keeps the chain.\<close>

lemma arena_chain_update:
  fixes a :: "'c::len word arena"
  assumes ch: "arena_chain \<sigma> a bs" and t: "slabs a t = Some s"
    and s': "Next s' = Next s" "Capacity s' = Capacity s" "Used s' \<le> Capacity s" "charAlign TYPE('c) dvd Used s'"
  shows "arena_chain \<sigma> (a\<lparr>slabs := (slabs a)(t \<mapsto> s')\<rparr>) bs"
proof -
  have "lseg ((slabs a)(t \<mapsto> s')) (Head a) bs None"
    using ch t s'(1) by (auto simp: arena_chain_def intro: lseg_cong)
  moreover have "dom ((slabs a)(t \<mapsto> s')) = set bs"
    using ch t by (auto simp: arena_chain_def)
  moreover have "slab_ok TYPE('c) \<sigma> t s'"
    using ch t s' unfolding arena_chain_def slab_ok_def by metis
  ultimately show ?thesis
    using ch unfolding arena_chain_def by auto
qed

lemma carve_spec:
  fixes a :: "'c::len word arena"
  assumes ch: "arena_chain \<sigma> a bs" and t: "Tail a = Some t" "slabs a t = Some s"
    and al: "Used s + al \<le> Capacity s" "charAlign TYPE('c) dvd al"
    and c: "carve a al = (p, a')"
  shows "p = Some (t, Used s)" "arena_chain \<sigma> a' bs" "grows a a'" "frozen a a'"
    "slabs a' t = Some (s\<lparr>Used := Used s + al\<rparr>)" "arena_owned a' = arena_owned a"
proof -
  have eq: "p = Some (t, Used s)" "a' = a\<lparr>slabs := (slabs a)(t \<mapsto> s\<lparr>Used := Used s + al\<rparr>)\<rparr>"
    using c t by (simp_all add: carve_def)
  show "p = Some (t, Used s)" "slabs a' t = Some (s\<lparr>Used := Used s + al\<rparr>)"
    by (simp_all add: eq)
  have "slab_ok TYPE('c) \<sigma> t s"
    using ch t unfolding arena_chain_def by blast
  then show "arena_chain \<sigma> a' bs"
    unfolding eq(2) using al by (intro arena_chain_update [OF ch t(2)]) (auto simp: slab_ok_def)
  show "grows a a'" "frozen a a'" "arena_owned a' = arena_owned a"
    using t by (auto simp: grows_def frozen_def eq(2) arena_owned_def)
qed

text \<open>
  \<open>fresh_for a p\<close>: nothing in use in \<open>a\<close> lies at or after \<open>p\<close> in its slab, so writing at \<open>p\<close>
  disturbs no committed text.
\<close>

definition fresh_for :: "'tchar arena \<Rightarrow> ptr \<Rightarrow> bool" where
  "fresh_for a p \<longleftrightarrow> (\<forall>s. slabs a (fst p) = Some s \<longrightarrow> Used s \<le> snd p)"

text \<open>What \<open>Allocate\<close> establishes: the arena has grown at its end, and \<open>p\<close> is a new part of it.\<close>

definition allocated :: "sys \<Rightarrow> 'c::len word arena \<Rightarrow> nat list \<Rightarrow> nat \<Rightarrow> ptr option \<Rightarrow> 'c word arena \<Rightarrow> sys \<Rightarrow> bool" where
  "allocated \<sigma> a bs L r a' \<sigma>' \<longleftrightarrow>
     owns_step \<sigma> (arena_owned a) \<sigma>' (arena_owned a') \<and> (\<exists>new. arena_chain \<sigma>' a' (bs @ new)) \<and>
     grows a a' \<and> frozen a a' \<and> (r = None \<longrightarrow> a' = a) \<and>
     (\<forall>p. r = Some p \<longrightarrow> committed a' p L \<and> fresh_for a p \<and> charAlign TYPE('c) dvd snd p)"

lemma Allocate_in_tail:
  fixes a :: "'c::len word arena"
  assumes tc: "tchar_ok TYPE('c)" and ok: "sys_ok \<sigma>" "arena_chain \<sigma> a bs" and L: "0 < L" "L < 2 ^ 33"
    and al: "Allocate \<sigma> a L = (r, a', \<sigma>')" and fits: "\<not> needs_slab a (aligned_length TYPE('c) L)"
  shows "allocated \<sigma> a bs L r a' \<sigma>'"
proof -
  let ?al = "aligned_length TYPE('c) L"
  note sizes = allocate_sizes [OF tc L]
  have refl: "owns_step \<sigma> (arena_owned a) \<sigma> (arena_owned a)"
    using ok by (intro owns_step_refl arena_ok_owned) (auto simp: arena_ok_def)
  obtain t s where t: "Tail a = Some t" "slabs a t = Some s" and room: "?al \<le> Capacity s - Used s"
    using fits by (auto simp: needs_slab_def split: option.splits)
  have sok: "slab_ok TYPE('c) \<sigma> t s"
    using ok(2) t unfolding arena_chain_def by blast
  obtain p0 a2 where c: "carve a ?al = (p0, a2)"
    by (cases "carve a ?al") auto
  have eq: "r = p0" "a' = a2" "\<sigma>' = \<sigma>"
    using al fits sizes(1) c by (simp_all add: Allocate_def Let_def)
  have "Used s + ?al \<le> Capacity s"
    using room sok unfolding slab_ok_def by linarith
  note cs = carve_spec [OF ok(2) t this sizes(4) c]
  have "\<exists>new. arena_chain \<sigma> a2 (bs @ new)"
    using cs(2) by (intro exI [of _ "[]"]) simp
  moreover have "committed a2 (t, Used s) L \<and> fresh_for a (t, Used s) \<and> charAlign TYPE('c) dvd Used s"
    using cs(5) sizes(2) t sok by (auto simp: committed_def fresh_for_def slab_ok_def)
  ultimately show ?thesis
    using cs(1,3,4,6) refl by (simp add: eq allocated_def)
qed

lemma Allocate_in_new:
  fixes a :: "'c::len word arena"
  assumes tc: "tchar_ok TYPE('c)" and ok: "sys_ok \<sigma>" "arena_chain \<sigma> a bs" and L: "0 < L" "L < 2 ^ 33"
    and al: "Allocate \<sigma> a L = (r, a', \<sigma>')" and full: "needs_slab a (aligned_length TYPE('c) L)"
  shows "allocated \<sigma> a bs L r a' \<sigma>'"
proof -
  let ?al = "aligned_length TYPE('c) L"
  note sizes = allocate_sizes [OF tc L]
  obtain x \<sigma>1 where n: "new_slab \<sigma> a ?al = (x, \<sigma>1)"
    by (cases "new_slab \<sigma> a ?al") auto
  note ns = new_slab_spec [OF tc ok L n]
  show ?thesis
  proof (cases x)
    case None
    then have "r = None" "a' = a" "\<sigma>' = \<sigma>1"
      using al full sizes(1) n by (simp_all add: Allocate_def Let_def)
    with ns None show ?thesis
      by (auto simp: allocated_def intro!: exI [of _ "[]"])
  next
    case (Some a1)
    obtain b s where b: "arena_chain \<sigma>1 a1 (bs @ [b])" "b \<notin> arena_owned a" "slabs a1 b = Some s"
        "Used s = 0" "?al \<le> Capacity s" and own: "owns_step \<sigma> (arena_owned a) \<sigma>1 (arena_owned a1)"
        and gf: "grows a a1" "frozen a a1"
      using ns Some by auto
    have tail: "Tail a1 = Some b"
      using b(1) by (simp add: arena_chain_def last_opt_def)
    obtain p0 a2 where c: "carve a1 ?al = (p0, a2)"
      by (cases "carve a1 ?al") auto
    have eq: "r = p0" "a' = a2" "\<sigma>' = \<sigma>1"
      using al full sizes(1) n c Some by (simp_all add: Allocate_def Let_def)
    have room: "Used s + ?al \<le> Capacity s"
      using b(4,5) by simp
    note cs = carve_spec [OF b(1) tail b(3) room sizes(4) c]
    have nb: "slabs a b = None"
      using b(2) by (auto simp: arena_owned_def)
    have "frozen a a2"
      by (rule frozen_trans [OF gf cs(4)]) (use tail nb in simp)
    moreover have "grows a a2"
      by (rule grows_trans [OF gf(1) cs(3)])
    moreover have "committed a2 (b, 0) L \<and> fresh_for a (b, 0)"
      using cs(5) sizes(2) b(4) nb by (auto simp: committed_def fresh_for_def)
    ultimately show ?thesis
      using cs(1,2,6) own b(4) by (auto simp: eq allocated_def)
  qed
qed

theorem Allocate_spec:
  fixes a :: "'c::len word arena"
  assumes "tchar_ok TYPE('c)" "sys_ok \<sigma>" "arena_chain \<sigma> a bs" "0 < L" "L < 2 ^ 33" "Allocate \<sigma> a L = (r, a', \<sigma>')"
  shows "owns_step \<sigma> (arena_owned a) \<sigma>' (arena_owned a')"
    and "\<exists>new. arena_chain \<sigma>' a' (bs @ new)" "grows a a'" "frozen a a'"
    and "r = None \<Longrightarrow> a' = a"
    and "r = Some p \<Longrightarrow> committed a' p L \<and> fresh_for a p \<and> charAlign TYPE('c) dvd snd p"
  using Allocate_in_tail [OF assms] Allocate_in_new [OF assms] unfolding allocated_def by blast+

section \<open>Writing\<close>

theorem arena_write_spec:
  fixes a :: "'c::len word arena"
  assumes ch: "arena_chain \<sigma> a bs" and p: "committed a p (length cs)"
  shows "\<exists>a'. arena_write a p cs = Some a' \<and> arena_chain \<sigma> a' bs \<and> arena_owned a' = arena_owned a \<and>
     arena_read a' p (length cs) = Some cs \<and> Tail a' = Tail a \<and>
     (\<forall>q n. committed a' q n = committed a q n) \<and>
     (\<forall>a0. grows a0 a \<longrightarrow> fresh_for a0 p \<longrightarrow> grows a0 a') \<and> (\<forall>a0. frozen a0 a \<longrightarrow> frozen a0 a')"
proof -
  obtain s where s: "slabs a (fst p) = Some s" "snd p + length cs \<le> Used s"
    using p by (auto simp: committed_def)
  have sok: "slab_ok TYPE('c) \<sigma> (fst p) s"
    using ch s(1) unfolding arena_chain_def by blast
  have room: "snd p + length cs \<le> Capacity s"
    using s(2) sok unfolding slab_ok_def by linarith
  define s' where "s' = s\<lparr>Buffer := (\<lambda>i. if snd p \<le> i \<and> i < snd p + length cs then Some (cs ! (i - snd p)) else Buffer s i)\<rparr>"
  define a' where "a' = a\<lparr>slabs := (slabs a)(fst p \<mapsto> s')\<rparr>"
  have w: "arena_write a p cs = Some a'"
    using s(1) room by (simp add: arena_write_def a'_def s'_def)
  have "arena_chain \<sigma> a' bs"
    unfolding a'_def using sok by (intro arena_chain_update [OF ch s(1)]) (auto simp: s'_def slab_ok_def)
  moreover have "arena_owned a' = arena_owned a"
    using s(1) by (auto simp: arena_owned_def a'_def)
  moreover have "arena_read a' p (length cs) = Some cs"
  proof -
    have "map (\<lambda>i. Buffer s' (snd p + i)) [0..<length cs] = map Some cs"
      by (intro nth_equalityI) (simp_all add: s'_def)
    moreover have "those (map Some cs) = Some cs"
      by (induction cs) simp_all
    ultimately show ?thesis
      using room by (simp add: arena_read_def a'_def s'_def)
  qed
  moreover have "committed a' q n = committed a q n" for q n
    using s(1) by (simp add: committed_def a'_def s'_def)
  moreover have "grows a0 a'" if g: "grows a0 a" and f: "fresh_for a0 p" for a0
    unfolding grows_def
  proof (intro allI impI)
    fix b u assume u: "slabs a0 b = Some u"
    then obtain u' where u': "slabs a b = Some u'" "Capacity u' = Capacity u" "Used u \<le> Used u'"
        "\<forall>i < Used u. Buffer u' i = Buffer u i"
      using g unfolding grows_def by blast
    show "\<exists>s'. slabs a' b = Some s' \<and> Capacity s' = Capacity u \<and> Used u \<le> Used s' \<and>
        (\<forall>i < Used u. Buffer s' i = Buffer u i)"
    proof (cases "b = fst p")
      case True
      then have "u' = s" "Used u \<le> snd p"
        using u' s(1) f u by (auto simp: fresh_for_def)
      with u' True show ?thesis
        by (auto simp: a'_def s'_def)
    next
      case False
      with u' show ?thesis by (simp add: a'_def)
    qed
  qed
  moreover have "frozen a0 a'" if "frozen a0 a" for a0
    using that s(1) unfolding frozen_def a'_def s'_def by auto
  ultimately show ?thesis
    using w by (auto simp: a'_def)
qed

section \<open>Freeing a chain\<close>

lemma free_chain_spec:
  fixes m :: "nat \<Rightarrow> 'c::len word slab option"
  shows "sys_ok \<sigma> \<Longrightarrow> set bs \<subseteq> dom (live \<sigma>) \<Longrightarrow> lseg m h bs None \<Longrightarrow> distinct bs \<Longrightarrow>
     \<exists>\<sigma>'. free_chain \<sigma> m h = Some (\<sigma>', m |` (- set bs)) \<and> owns_step \<sigma> (set bs) \<sigma>' {}"
proof (induction bs arbitrary: \<sigma> m h)
  case Nil
  have "m |` UNIV = m"
    by (simp add: restrict_map_def fun_eq_iff)
  with Nil show ?case
    by (subst free_chain.simps) (simp add: owns_step_refl)
next
  case (Cons b bs)
  then obtain s where s: "h = Some b" "m b = Some s" "lseg m (Next s) bs None"
    by auto
  let ?\<sigma> = "ExFreePoolWithTag \<sigma> b" and ?m = "m(b := None)"
  have "set (b # bs) - {b} = set bs"
    using Cons.prems(4) by auto
  then have free: "owns_step \<sigma> (set (b # bs)) ?\<sigma> (set bs)"
    using free_owned [OF Cons.prems(1,2), of b] by simp
  have seg: "lseg ?m (Next s) bs None" and dist: "distinct bs"
    using s(3) Cons.prems(4) by (auto intro: lseg_cong)
  obtain \<sigma>' where IH: "free_chain ?\<sigma> ?m (Next s) = Some (\<sigma>', ?m |` (- set bs))"
      "owns_step ?\<sigma> (set bs) \<sigma>' {}"
    using Cons.IH [OF owns_step_sys_ok [OF free] owns_step_owned [OF free] seg dist] by blast
  have "?m |` (- set bs) = m |` (- set (b # bs))"
    by (auto simp: restrict_map_def fun_eq_iff)
  with IH s owns_step_trans [OF free IH(2) Cons.prems(1)] show ?case
    by (subst free_chain.simps) simp
qed

theorem KStringArena_Clear_spec:
  fixes a :: "'c::len word arena"
  assumes "sys_ok \<sigma>" "arena_ok \<sigma> a"
  shows "\<exists>\<sigma>'. KStringArena_Clear \<sigma> a = Some (KStringArena_new, \<sigma>') \<and> owns_step \<sigma> (arena_owned a) \<sigma>' {}"
proof -
  obtain bs where "arena_chain \<sigma> a bs"
    using assms(2) by (auto simp: arena_ok_def)
  then have bs: "lseg (slabs a) (Head a) bs None" "distinct bs" "dom (slabs a) = set bs"
    unfolding arena_chain_def by blast+
  have own: "arena_owned a = set bs"
    by (simp add: arena_owned_def bs(3))
  then obtain \<sigma>' where f: "free_chain \<sigma> (slabs a) (Head a) = Some (\<sigma>', slabs a |` (- set bs))"
      "owns_step \<sigma> (set bs) \<sigma>' {}"
    using free_chain_spec [OF assms(1) _ bs(1,2)] arena_ok_owned [OF assms(2)] by auto
  have "slabs a |` (- set bs) = (\<lambda>_. None)"
    using bs(3) by (auto simp: restrict_map_def fun_eq_iff)
  with f own show ?thesis
    by (simp add: KStringArena_Clear_def KStringArena_new_def)
qed

section \<open>Rolling back\<close>

text \<open>\<open>restored a a'\<close>: the same slabs with the same used parts and the same text in them.\<close>

definition restored :: "'tchar arena \<Rightarrow> 'tchar arena \<Rightarrow> bool" where
  "restored a a' \<longleftrightarrow> grows a a' \<and> grows a' a \<and> arena_owned a' = arena_owned a \<and> Tail a' = Tail a"

lemma GetBookmark_used:
  "arena_chain \<sigma> a bs \<Longrightarrow> Tail a = Some t \<Longrightarrow> slabs a t = Some s \<Longrightarrow> UsedChars (GetBookmark a) = Used s"
  by (simp add: GetBookmark_def)

text \<open>A bookmark taken in an empty arena frees everything.\<close>

lemma RevertBookmark_to_empty:
  fixes a a0 :: "'c::len word arena"
  assumes ok: "sys_ok \<sigma>" and ch0: "arena_chain \<sigma>0 a0 []" and ch: "arena_chain \<sigma> a new"
  shows "\<exists>a' \<sigma>'. RevertBookmark \<sigma> a (GetBookmark a0) = Some (a', \<sigma>') \<and> arena_chain \<sigma>' a' [] \<and>
     restored a0 a' \<and> owns_step \<sigma> (arena_owned a) \<sigma>' (arena_owned a')"
proof -
  have chain: "lseg (slabs a) (Head a) new None" "distinct new" "dom (slabs a) = set new" "Tail a = last_opt new"
    using ch unfolding arena_chain_def by blast+
  have own: "arena_owned a \<subseteq> dom (live \<sigma>)"
    using ch arena_ok_owned unfolding arena_ok_def by blast
  have none: "TailSlab (GetBookmark a0) = None" "Tail a0 = None" "slabs a0 = (\<lambda>_. None)"
    using ch0 by (auto simp: arena_chain_def last_opt_def GetBookmark_def)
  show ?thesis
  proof (cases "new = []")
    case True
    then have "Tail a = None" "slabs a = (\<lambda>_. None)" "arena_owned a = {}"
      using chain(3,4) by (auto simp: last_opt_def arena_owned_def)
    then have "RevertBookmark \<sigma> a (GetBookmark a0) = Some (a, \<sigma>)" "restored a0 a"
      using none by (simp_all add: RevertBookmark_def restored_def grows_def arena_owned_def)
    then show ?thesis
      using ch True owns_step_refl [OF ok own] by simp
  next
    case False
    obtain \<sigma>' where fc: "free_chain \<sigma> (slabs a) (Head a) = Some (\<sigma>', slabs a |` (- set new))" "owns_step \<sigma> (set new) \<sigma>' {}"
      using free_chain_spec [OF ok _ chain(1,2)] own chain(3) by (auto simp: arena_owned_def)
    have "slabs a |` (- set new) = (\<lambda>_. None)"
      using chain(3) by (auto simp: restrict_map_def fun_eq_iff)
    moreover have "Tail a \<noteq> None"
      using chain(4) False by (simp add: last_opt_def)
    ultimately have "RevertBookmark \<sigma> a (GetBookmark a0) = Some (a\<lparr>Head := None, Tail := None, slabs := (\<lambda>_. None)\<rparr>, \<sigma>')"
      using fc none by (auto simp: RevertBookmark_def)
    moreover have "owns_step \<sigma> (arena_owned a) \<sigma>' {}"
      using fc(2) chain(3) by (simp add: arena_owned_def)
    ultimately show ?thesis
      using none by (auto simp: arena_chain_def last_opt_def restored_def grows_def arena_owned_def)
  qed
qed

text \<open>
  What the rollback leaves otherwise: the chain is cut behind the slab \<open>t\<close> of the bookmark, which
  has \<open>n\<close> characters in use again.
\<close>

definition cut_back :: "'tchar arena \<Rightarrow> nat list \<Rightarrow> nat \<Rightarrow> 'tchar slab \<Rightarrow> nat \<Rightarrow> 'tchar arena" where
  "cut_back a new t s n =
     a\<lparr>Tail := Some t, slabs := (slabs a |` (- set new))(t \<mapsto> s\<lparr>Next := None, Used := n\<rparr>)\<rparr>"

lemma cut_back_slabs:
  assumes "distinct (xs @ [t] @ new)" "dom (slabs a) = set (xs @ [t] @ new)"
  shows "arena_owned (cut_back a new t s n) = set (xs @ [t])"
    and "b \<in> set xs \<Longrightarrow> slabs (cut_back a new t s n) b = slabs a b"
    and "slabs (cut_back a new t s n) t = Some (s\<lparr>Next := None, Used := n\<rparr>)"
proof -
  have "dom (slabs (cut_back a new t s n)) = insert t (dom (slabs a) \<inter> - set new)"
    by (simp add: cut_back_def)
  then show "arena_owned (cut_back a new t s n) = set (xs @ [t])"
    using assms by (auto simp: arena_owned_def)
qed (use assms in \<open>auto simp: cut_back_def restrict_map_def\<close>)

lemma cut_back_chain:
  fixes a :: "'c::len word arena"
  assumes ch: "arena_chain \<sigma> a (xs @ [t] @ new)" and s: "slabs a t = Some s" "n \<le> Used s" "charAlign TYPE('c) dvd n"
    and lv: "\<And>b. b \<in> set (xs @ [t]) \<Longrightarrow> live \<sigma>' b = live \<sigma> b"
  shows "arena_chain \<sigma>' (cut_back a new t s n) (xs @ [t])"
proof -
  let ?a = "cut_back a new t s n"
  have chain: "lseg (slabs a) (Head a) (xs @ [t] @ new) None" "distinct (xs @ [t] @ new)" "dom (slabs a) = set (xs @ [t] @ new)"
      "\<And>b s. slabs a b = Some s \<Longrightarrow> slab_ok TYPE('c) \<sigma> b s"
    using ch unfolding arena_chain_def by blast+
  note sl = cut_back_slabs [OF chain(2,3), where s = s and n = n]
  obtain k where "lseg (slabs a) (Head a) xs k" "k = Some t"
    using chain(1) unfolding lseg_append by auto
  moreover have "lseg (slabs ?a) (Head a) xs k"
    by (rule lseg_cong [OF calculation(1)]) (simp add: sl(2))
  ultimately have "lseg (slabs ?a) (Head ?a) (xs @ [t]) None"
    unfolding lseg_append by (auto simp: sl(3)) (simp add: cut_back_def)
  moreover have "dom (slabs ?a) = set (xs @ [t])"
    using sl(1) by (simp add: arena_owned_def)
  moreover have "slab_ok TYPE('c) \<sigma>' b u" if u: "slabs ?a b = Some u" for b u
  proof -
    have "b \<in> set (xs @ [t])"
      using u \<open>dom (slabs ?a) = set (xs @ [t])\<close> by blast
    then show ?thesis
      using u sl(2,3) lv [of b] chain(4) [of b] s by (auto simp: slab_ok_def)
  qed
  moreover have "Tail ?a = Some t"
    by (simp add: cut_back_def)
  ultimately show ?thesis
    using chain(2) unfolding arena_chain_def by (simp add: last_opt_def)
qed

lemma cut_back_restored:
  fixes a :: "'c::len word arena"
  assumes ch: "arena_chain \<sigma> a (xs @ [t] @ new)" and ch0: "arena_chain \<sigma>0 a0 (xs @ [t])"
    and s: "slabs a t = Some s" "slabs a0 t = Some s0" and g: "grows a0 a" and f: "frozen a0 a"
  shows "restored a0 (cut_back a new t s (Used s0))"
proof -
  let ?a = "cut_back a new t s (Used s0)"
  have "distinct (xs @ [t] @ new)" "dom (slabs a) = set (xs @ [t] @ new)"
    using ch unfolding arena_chain_def by blast+
  note sl = cut_back_slabs [OF this, where s = s and n = "Used s0"]
  have chain0: "dom (slabs a0) = set (xs @ [t])" "Tail a0 = Some t"
    using ch0 by (simp_all add: arena_chain_def last_opt_def)
  have pair: "\<exists>u'. slabs ?a b = Some u' \<and> Capacity u' = Capacity u \<and> Used u' = Used u \<and> (\<forall>i < Used u. Buffer u' i = Buffer u i)"
    if u: "slabs a0 b = Some u" for b u
  proof -
    obtain u' where u': "slabs a b = Some u'" "Capacity u' = Capacity u" "\<forall>i < Used u. Buffer u' i = Buffer u i"
      using g u unfolding grows_def by blast
    show ?thesis
    proof (cases "b = t")
      case True
      then show ?thesis
        using u u' s sl(3) by simp
    next
      case False
      then have "Used u' = Used u" "b \<in> set xs"
        using f u u'(1) chain0 unfolding frozen_def by auto
      then show ?thesis
        using u' by (simp add: sl(2))
    qed
  qed
  have own: "arena_owned ?a = arena_owned a0"
    using sl(1) chain0(1) by (simp add: arena_owned_def)
  have "grows a0 ?a"
    using pair unfolding grows_def by (metis order_refl)
  moreover have "\<exists>u. slabs a0 b = Some u \<and> Capacity u = Capacity u' \<and> Used u' \<le> Used u \<and> (\<forall>i < Used u'. Buffer u i = Buffer u' i)"
    if u': "slabs ?a b = Some u'" for b u'
  proof -
    obtain u where "slabs a0 b = Some u"
      using own u' by (auto simp: arena_owned_def dom_def)
    with pair [OF this] u' show ?thesis
      by auto
  qed
  then have "grows ?a a0"
    unfolding grows_def by blast
  ultimately show ?thesis
    using own chain0(2) by (simp add: restored_def cut_back_def)
qed

lemma RevertBookmark_cuts:
  fixes a a0 :: "'c::len word arena"
  assumes ok: "sys_ok \<sigma>" and ch0: "arena_chain \<sigma>0 a0 (xs @ [t])" and ch: "arena_chain \<sigma> a (xs @ [t] @ new)"
    and s: "slabs a t = Some s" "slabs a0 t = Some s0"
  shows "\<exists>\<sigma>'. RevertBookmark \<sigma> a (GetBookmark a0) = Some (cut_back a new t s (Used s0), \<sigma>') \<and> owns_step \<sigma> (set new) \<sigma>' {}"
proof -
  have chain: "lseg (slabs a) (Head a) (xs @ [t] @ new) None" "distinct (xs @ [t] @ new)" "dom (slabs a) = set (xs @ [t] @ new)"
      "Tail a = last_opt (xs @ [t] @ new)"
    using ch unfolding arena_chain_def by blast+
  have own: "set new \<subseteq> dom (live \<sigma>)"
    using ch arena_ok_owned [of \<sigma> a] chain(3) by (auto simp: arena_ok_def arena_owned_def)
  have t0: "Tail a0 = Some t"
    using ch0 by (simp add: arena_chain_def last_opt_def)
  have mark: "TailSlab (GetBookmark a0) = Some t" "UsedChars (GetBookmark a0) = Used s0"
    using t0 GetBookmark_used [OF ch0 t0 s(2)] by (simp_all add: GetBookmark_def)
  have k: "lseg (slabs a) (Next s) new None"
    using chain(1) s(1) unfolding lseg_append by auto
  show ?thesis
  proof (cases "new = []")
    case True
    then have "Next s = None" "Tail a = Some t" "slabs a |` (- set new) = slabs a"
      using k chain(4) by (simp_all add: last_opt_def restrict_map_def fun_eq_iff)
    moreover from this have "s\<lparr>Next := None, Used := n\<rparr> = s\<lparr>Used := n\<rparr>" "a\<lparr>Tail := Some t, slabs := m\<rparr> = a\<lparr>slabs := m\<rparr>" for m n
      by (cases s; cases a; simp)+
    ultimately have "RevertBookmark \<sigma> a (GetBookmark a0) = Some (cut_back a new t s (Used s0), \<sigma>)"
      using mark s(1) by (simp only: RevertBookmark_def cut_back_def) simp
    then show ?thesis
      using owns_step_refl [OF ok own] True by simp
  next
    case False
    then have "Tail a \<noteq> TailSlab (GetBookmark a0)"
      using chain(2,4) mark by (auto simp: last_opt_def)
    moreover obtain \<sigma>' where "free_chain \<sigma> (slabs a) (Next s) = Some (\<sigma>', slabs a |` (- set new))" "owns_step \<sigma> (set new) \<sigma>' {}"
      using free_chain_spec [OF ok own k] chain(2) by auto
    moreover have "(slabs a |` (- set new)) t = Some s"
      using s(1) chain(2) by simp
    ultimately show ?thesis
      using mark s(1) by (simp add: RevertBookmark_def cut_back_def)
  qed
qed

text \<open>The rollback takes any growth since the bookmark back and frees the slabs it added.\<close>

theorem RevertBookmark_spec:
  fixes a a0 :: "'c::len word arena"
  assumes ok: "sys_ok \<sigma>" and ch0: "arena_chain \<sigma>0 a0 cs" and ch: "arena_chain \<sigma> a (cs @ new)"
    and g: "grows a0 a" and f: "frozen a0 a"
  shows "\<exists>a' \<sigma>'. RevertBookmark \<sigma> a (GetBookmark a0) = Some (a', \<sigma>') \<and> arena_chain \<sigma>' a' cs \<and>
     restored a0 a' \<and> owns_step \<sigma> (arena_owned a) \<sigma>' (arena_owned a')"
proof (cases cs rule: rev_cases)
  case Nil
  then show ?thesis
    using RevertBookmark_to_empty [OF ok] ch0 ch by simp
next
  case (snoc xs t)
  have ch': "arena_chain \<sigma> a (xs @ [t] @ new)"
    using ch by (simp add: snoc)
  note ch0' = ch0 [unfolded snoc]
  have chain: "distinct (xs @ [t] @ new)" "dom (slabs a) = set (xs @ [t] @ new)"
    using ch' unfolding arena_chain_def by blast+
  have "t \<in> dom (slabs a0)"
    using ch0' by (simp add: arena_chain_def)
  then obtain s0 where s0: "slabs a0 t = Some s0"
    by blast
  obtain s where s: "slabs a t = Some s" "Used s0 \<le> Used s"
    using g s0 unfolding grows_def by blast
  have aligned: "charAlign TYPE('c) dvd Used s0"
    using ch0' s0 unfolding arena_chain_def slab_ok_def by blast
  obtain \<sigma>' where r: "RevertBookmark \<sigma> a (GetBookmark a0) = Some (cut_back a new t s (Used s0), \<sigma>')" "owns_step \<sigma> (set new) \<sigma>' {}"
    using RevertBookmark_cuts [OF ok ch0' ch' s(1) s0] by blast
  have kept: "set (xs @ [t]) \<subseteq> dom (live \<sigma>)" "set new \<inter> set (xs @ [t]) = {}"
    using ch arena_ok_owned [of \<sigma> a] chain by (auto simp: arena_ok_def arena_owned_def snoc)
  have owned: "arena_owned a = set new \<union> set (xs @ [t])" "arena_owned (cut_back a new t s (Used s0)) = {} \<union> set (xs @ [t])"
    using chain(2) cut_back_slabs(1) [OF chain] by (auto simp: arena_owned_def)
  have "arena_chain \<sigma>' (cut_back a new t s (Used s0)) (xs @ [t])"
    by (rule cut_back_chain [OF ch' s aligned]) (use owns_step_frame(3) [OF r(2) ok kept] in blast)
  moreover have "owns_step \<sigma> (arena_owned a) \<sigma>' (arena_owned (cut_back a new t s (Used s0)))"
    unfolding owned by (rule owns_step_widen [OF r(2) ok kept])
  ultimately show ?thesis
    using r(1) cut_back_restored [OF ch' ch0' s(1) s0 g f] by (auto simp: snoc)
qed

end
