(* ===== verification/CtrlGroup.thy ===== *)
theory CtrlGroup
  imports Swar
begin

text \<open>
  The control bytes of \<open>KFlatHashMap\<close> (KHashMap.h), eight at a time: loading a group,
  \<open>SwarMatch\<close>, the empty and occupied masks, and the loops that visit the marked bytes from
  the lowest to the highest.
\<close>

section \<open>The operations\<close>

definition kEmptyCtrl :: u8 where "kEmptyCtrl = 0xFF"

definition kGroupSize :: nat where "kGroupSize = 8"

definition LoadCtrlGroup :: "u8 list \<Rightarrow> nat \<Rightarrow> u64 option" where
  "LoadCtrlGroup ctrl i = load64 ctrl i"

definition SwarMatch :: "u64 \<Rightarrow> u64 \<Rightarrow> u64" where
  "SwarMatch Block MatchByte =
     (let xorBlock = Block XOR (0x0101010101010101 * MatchByte)
      in ((NOT xorBlock AND 0x7F7F7F7F7F7F7F7F) + 0x0101010101010101) AND NOT xorBlock AND 0x8080808080808080)"

definition empty_mask :: "u64 \<Rightarrow> u64" where
  "empty_mask ctrlBlock = ctrlBlock AND 0x8080808080808080"

definition occupied_mask :: "u64 \<Rightarrow> u64" where
  "occupied_mask ctrlBlock = NOT ctrlBlock AND 0x8080808080808080"

text \<open>
  The loop \<open>while (match != 0) { BitScanForward; ...; match &= match - 1; }\<close>: the bytes it
  visits, in its order.
\<close>

lemma clear_lowest_less: "w \<noteq> 0 \<Longrightarrow> unat (w AND (w - 1)) < unat (w :: u64)"
proof -
  assume "w \<noteq> 0"
  then have "unat (w - 1) < unat w"
    by (simp add: unat_minus_one unat_gt_0)
  moreover have "w AND (w - 1) \<le> w - 1"
    by (rule word_and_le1)
  ultimately show ?thesis
    by (simp add: word_le_nat_alt)
qed

function mark_lanes :: "u64 \<Rightarrow> nat list" where
  "mark_lanes w =
     (if w = 0 then []
      else case BitScanForward64 w of None \<Rightarrow> []
      | Some bitPos \<Rightarrow> drop_bit 3 bitPos # mark_lanes (w AND (w - 1)))"
  by pat_completeness auto
termination by (relation "measure unat") (simp_all add: clear_lowest_less)

declare mark_lanes.simps [simp del]

section \<open>What they compute\<close>

text \<open>Clearing the lowest set bit.\<close>

lemma clear_lowest_bit:
  assumes "bit w i" "\<forall>j<i. \<not> bit w j"
  shows "bit (w AND (w - 1) :: u64) j \<longleftrightarrow> bit w j \<and> j \<noteq> i"
proof -
  have i: "i < 64"
    using assms(1) by (auto dest: bit_imp_le_length)
  define n where "n = Suc i"
  define d where "d = push_bit n (drop_bit n w)"
  have "bit d j \<longleftrightarrow> bit w j \<and> n \<le> j" for j
    by (auto simp: d_def bit_push_bit_iff bit_drop_bit_eq dest: bit_imp_le_length)
  then have bd: "bit d j \<longleftrightarrow> bit w j \<and> i < j" for j
    by (simp add: n_def Suc_le_eq)
  have "w = d OR 2 ^ i"
    by (rule bit_eqI) (use assms bd in \<open>auto simp: bit_or_iff bit_exp_iff not_less_iff_gr_or_eq linorder_neq_iff\<close>)
  also have "\<dots> = d + 2 ^ i"
  proof (rule disjunctive_add_eq_or [symmetric])
    show "d AND 2 ^ i = 0"
      by (rule bit_eqI) (auto simp: bit_and_iff bit_exp_iff bd)
  qed
  finally have "w - 1 = d + mask i"
    by (simp add: mask_eq_exp_minus_1)
  also have "\<dots> = d OR mask i"
  proof (rule disjunctive_add_eq_or)
    show "d AND mask i = 0"
      by (rule bit_eqI) (auto simp: bit_and_iff bit_mask_iff bd)
  qed
  finally show ?thesis
    using assms by (auto simp: bit_and_iff bit_or_iff bit_mask_iff bd)
      (metis bit_imp_le_length linorder_neqE_nat)+
qed

text \<open>A mask marks bytes only: its bits are the top bits of lanes.\<close>

definition marks :: "u64 \<Rightarrow> bool" where
  "marks w \<longleftrightarrow> (\<forall>i<64. bit w i \<longrightarrow> i mod 8 = 7)"

lemma mark_lanes_eq:
  "marks w \<Longrightarrow> mark_lanes w = filter (\<lambda>j. bit w (8 * j + 7)) [0..<8]"
proof (induction w rule: mark_lanes.induct)
  case (1 w)
  show ?case
  proof (cases "w = 0")
    case True
    then show ?thesis by (subst mark_lanes.simps) simp
  next
    case False
    then obtain b where b: "BitScanForward64 w = Some b"
      by (rule BitScanForward64_nonzero)
    note low = BitScanForward64_SomeD [OF b]
    let ?w = "w AND (w - 1)"
    have clear: "bit ?w j \<longleftrightarrow> bit w j \<and> j \<noteq> b" for j
      using clear_lowest_bit low by blast
    then have "marks ?w"
      using 1(2) by (simp add: marks_def)
    then have IH: "mark_lanes ?w = filter (\<lambda>j. bit ?w (8 * j + 7)) [0..<8]"
      using 1(1) False b by blast
    have b7: "b = 8 * (b div 8) + 7" "b div 8 < 8"
      using 1(2) low by (auto simp: marks_def) (metis mult_div_mod_eq)
    define k where "k = b div 8"
    have k8: "k < 8"
      using b7(2) by (simp add: k_def)
    have "[0..<k + (8 - k)] = [0..<k] @ [k..<k + (8 - k)]"
      by (rule upt_add_eq_append) simp
    moreover have "k + (8 - k) = 8"
      using k8 by simp
    ultimately have upt: "[0..<8] = [0..<k] @ k # [Suc k..<8]"
      using k8 by (simp only: upt_conv_Cons)
    have below: "\<not> bit w (8 * j + 7)" if "j < k" for j
      using low that b7(1) by (auto simp: k_def)
    have above: "bit ?w (8 * j + 7) \<longleftrightarrow> bit w (8 * j + 7)" if "j \<noteq> k" for j
      using clear [of "8 * j + 7"] that b7(1) by (auto simp: k_def)
    have "filter (\<lambda>j. bit w (8 * j + 7)) [0..<8] = k # filter (\<lambda>j. bit ?w (8 * j + 7)) [0..<8]"
    proof -
      have "filter (\<lambda>j. bit w (8 * j + 7)) [0..<k] = []" "filter (\<lambda>j. bit ?w (8 * j + 7)) [0..<k] = []"
        using below above by (auto simp: filter_empty_conv)
      moreover have "filter (\<lambda>j. bit w (8 * j + 7)) [Suc k..<8] = filter (\<lambda>j. bit ?w (8 * j + 7)) [Suc k..<8]"
        using above by (intro filter_cong) auto
      moreover have "bit w (8 * k + 7)" "\<not> bit ?w (8 * k + 7)"
        using low clear b7(1) by (auto simp: k_def)
      ultimately show ?thesis
        unfolding upt by simp
    qed
    with IH False b show ?thesis
      by (subst mark_lanes.simps) (simp add: drop_bit_eq_div k_def)
  qed
qed

lemma byte_const:
  fixes bs :: "u8 list"
  assumes "length bs = 8"
  shows "block_of (replicate (length bs) (v :: u8)) = 0x0101010101010101 * ucast v"
proof -
  have "length bs = Suc (Suc (Suc (Suc (Suc (Suc (Suc (Suc 0)))))))"
    using assms by simp
  then show ?thesis
    by (simp add: block_of_Cons_add algebra_simps del: block_of.simps) (simp add: block_of.simps(1))
qed

lemma byte_masks:
  fixes bs :: "u8 list"
  assumes "length bs = 8"
  shows "(0x8080808080808080 :: u64) = block_of (replicate (length bs) (0x80 :: u8))"
    and "(0x7F7F7F7F7F7F7F7F :: u64) = block_of (replicate (length bs) (0x7F :: u8))"
    and "(0x0101010101010101 :: u64) = block_of (replicate (length bs) (1 :: u8))"
  by (simp_all add: byte_const [OF assms])

lemma and_not_const:
  fixes bs :: "u8 list"
  shows "NOT (block_of bs) AND block_of (replicate (length bs) (m :: u8)) = block_of (map (\<lambda>b. m AND NOT b) bs)"
proof -
  have "NOT (block_of bs) AND block_of (replicate (length bs) m) = block_of (replicate (length bs) m) AND NOT (block_of bs)"
    by (rule and.commute)
  then show ?thesis
    by (simp add: block_of_and_not zip_replicate1 o_def)
qed

text \<open>The bits of a block of top-bit marks.\<close>

lemma bit_top:
  "bit (0x80 :: u8) n \<longleftrightarrow> n = 7" "bit (0x80 :: int) n \<longleftrightarrow> n = 7" "bit (0x80 :: nat) n \<longleftrightarrow> n = 7"
proof -
  have "(0x80 :: u8) = 2 ^ 7" "(0x80 :: int) = 2 ^ 7" "(0x80 :: nat) = 2 ^ 7"
    by simp_all
  then show "bit (0x80 :: u8) n \<longleftrightarrow> n = 7" "bit (0x80 :: int) n \<longleftrightarrow> n = 7" "bit (0x80 :: nat) n \<longleftrightarrow> n = 7"
    by (simp_all only: bit_exp_iff) auto
qed

abbreviation top_marks :: "(u8 \<Rightarrow> bool) \<Rightarrow> u8 list \<Rightarrow> u8 list" where
  "top_marks P bs \<equiv> map (\<lambda>b. if P b then 0x80 else 0) bs"

lemma marks_block:
  fixes P :: "u8 \<Rightarrow> bool" and bs :: "u8 list" and j :: nat
  assumes "length bs = 8"
  defines "w \<equiv> block_of (top_marks P bs)"
  shows "marks w" "j < 8 \<Longrightarrow> bit w (8 * j + 7) \<longleftrightarrow> P (bs ! j)" "w = 0 \<longleftrightarrow> (\<forall>b \<in> set bs. \<not> P b)"
proof -
  have bw: "bit w i \<longleftrightarrow> i < 64 \<and> P (bs ! (i div 8)) \<and> i mod 8 = 7" for i
    using assms(1) by (auto simp: w_def bit_block_of bit_top split: if_splits)
  then show "marks w"
    by (simp add: marks_def)
  show lane: "bit w (8 * j + 7) \<longleftrightarrow> P (bs ! j)" if "j < 8" for j
    using that bw [of "8 * j + 7"] by simp
  show "w = 0 \<longleftrightarrow> (\<forall>b \<in> set bs. \<not> P b)"
  proof
    assume "w = 0"
    then show "\<forall>b \<in> set bs. \<not> P b"
      using lane assms(1) by (auto simp: in_set_conv_nth)
  next
    assume none: "\<forall>b \<in> set bs. \<not> P b"
    show "w = 0"
    proof (rule bit_eqI)
      fix n
      have "n div 8 < length bs" if "n < 64"
        using that assms(1) by simp
      then have "\<not> P (bs ! (n div 8))" if "n < 64"
        using that none nth_mem by blast
      then show "bit w n \<longleftrightarrow> bit 0 n"
        using bw [of n] by auto
    qed
  qed
qed

lemma top_bit_and: "(0x80 :: u8) AND x = (if bit x 7 then 0x80 else 0)"
  by (rule bit_eqI) (auto simp: bit_and_iff bit_top)

lemma empty_mask_block:
  fixes bs :: "u8 list"
  assumes "length bs = 8"
  shows "empty_mask (block_of bs) = block_of (top_marks (\<lambda>b. bit b 7) bs)"
proof -
  have "empty_mask (block_of bs) = block_of (map (\<lambda>b. 0x80 AND b) bs)"
    unfolding empty_mask_def byte_masks(1) [OF assms]
    by (subst and.commute) (simp add: block_of_and zip_replicate1 o_def)
  then show ?thesis
    by (simp only: top_bit_and)
qed

lemma occupied_mask_block:
  fixes bs :: "u8 list"
  assumes "length bs = 8"
  shows "occupied_mask (block_of bs) = block_of (top_marks (\<lambda>b. \<not> bit b 7) bs)"
  unfolding occupied_mask_def byte_masks(1) [OF assms] and_not_const
  by (simp add: top_bit_and bit_not_iff cong: if_cong)

text \<open>One lane of \<open>SwarMatch\<close>: exact, for every byte and every 7-bit match byte.\<close>

lemma match_lane:
  fixes b m :: u8
  assumes "\<not> bit m 7"
  shows "((0x7F AND NOT (b XOR m)) + 1) AND (0x80 AND NOT (b XOR m)) = (if b = m then 0x80 else 0)"
proof -
  let ?x = "b XOR m"
  have m7: "(0x7F :: u8) = mask 7" and top: "(0x80 :: u8) = 2 ^ 7"
    by (simp_all add: mask_eq_exp_minus_1)
  let ?y = "0x7F AND NOT ?x"
  have y: "?y = take_bit 7 (NOT ?x)"
    unfolding m7 by (simp only: take_bit_eq_mask and.commute)
  have bit7: "bit (?y + 1) 7 \<longleftrightarrow> ?y = mask 7"
  proof -
    have lt: "unat ?y < 2 ^ 7"
      unfolding y unsigned_take_bit_eq by (rule take_bit_nat_less_exp)
    have "unat (?y + 1) = unat ?y + 1"
      using lt by (simp add: unat_word_ariths)
    then have "bit (?y + 1) 7 \<longleftrightarrow> 2 ^ 7 \<le> unat ?y + 1"
      using bit_top_iff [of "?y + 1"] by simp
    also have "\<dots> \<longleftrightarrow> unat ?y = 2 ^ 7 - 1"
      using lt by auto
    also have "\<dots> \<longleftrightarrow> ?y = mask 7"
      by (simp add: word_unat_eq_iff m7 [symmetric])
    finally show ?thesis .
  qed
  have "?y = mask 7 \<and> \<not> bit ?x 7 \<longleftrightarrow> ?x = 0"
  proof
    assume a: "?y = mask 7 \<and> \<not> bit ?x 7"
    have "\<not> bit ?x n" for n
    proof (cases "n < 7")
      case True
      have "bit ?y n"
        using a True by (simp add: bit_mask_iff)
      then show ?thesis
        by (auto simp: bit_and_iff bit_not_iff)
    next
      case False
      then have "n = 7 \<or> 8 \<le> n"
        by auto
      then show ?thesis
        using a by (auto dest: bit_imp_le_length)
    qed
    then show "?x = 0"
      by (auto intro: bit_eqI)
  next
    assume "?x = 0"
    then show "?y = mask 7 \<and> \<not> bit ?x 7"
      by (simp add: m7)
  qed
  moreover have "?x = 0 \<longleftrightarrow> b = m"
    by (metis xor.assoc xor.left_neutral xor.right_neutral xor_self_eq)
  moreover have "(?y + 1) AND (0x80 AND NOT ?x) = 0x80 AND ((?y + 1) AND NOT ?x)"
    by (simp only: and.left_commute)
  ultimately show ?thesis
    using bit7 by (simp only: top_bit_and bit_and_iff bit_not_iff) auto
qed

theorem SwarMatch_block:
  fixes bs :: "u8 list" and m :: u8
  assumes "length bs = 8" "\<not> bit m 7"
  shows "SwarMatch (block_of bs) (ucast m) = block_of (top_marks (\<lambda>b. b = m) bs)"
proof -
  let ?x = "map (\<lambda>b. b XOR m) bs"
  have lx: "length ?x = 8"
    using assms(1) by simp
  have x: "block_of bs XOR (0x0101010101010101 * ucast m) = block_of ?x"
    unfolding byte_const [OF assms(1), of m, symmetric] by (simp add: block_of_xor zip_replicate2 o_def)
  have low: "NOT (block_of ?x) AND 0x7F7F7F7F7F7F7F7F = block_of (map (\<lambda>b. 0x7F AND NOT b) ?x)"
    unfolding byte_masks(2) [OF lx] by (rule and_not_const)
  have high: "NOT (block_of ?x) AND 0x8080808080808080 = block_of (map (\<lambda>b. 0x80 AND NOT b) ?x)"
    unfolding byte_masks(1) [OF lx] by (rule and_not_const)
  have small: "unat (0x7F AND NOT b :: u8) + unat (1 :: u8) < 2 ^ LENGTH(8)" for b :: u8
  proof -
    have "(0x7F AND NOT b) \<le> (0x7F :: u8)"
      by (rule word_and_le2)
    then have "unat (0x7F AND NOT b) \<le> unat (0x7F :: u8)"
      by (simp add: word_le_nat_alt)
    then show ?thesis by simp
  qed
  have "block_of (map (\<lambda>b. 0x7F AND NOT b) ?x) + 0x0101010101010101 =
      block_of (map2 (+) (map (\<lambda>b. 0x7F AND NOT b) ?x) (replicate (length ?x) 1))"
    unfolding byte_masks(3) [OF lx] using small by (intro block_of_add) simp_all
  also have "map2 (+) (map (\<lambda>b. 0x7F AND NOT b) ?x) (replicate (length ?x) 1) = map (\<lambda>b. (0x7F AND NOT b) + 1) ?x"
    by (simp add: zip_replicate2 o_def)
  finally have sum: "block_of (map (\<lambda>b. 0x7F AND NOT b) ?x) + 0x0101010101010101 = block_of (map (\<lambda>b. (0x7F AND NOT b) + 1) ?x)" .
  have "SwarMatch (block_of bs) (ucast m) =
      block_of (map (\<lambda>b. (0x7F AND NOT b) + 1) ?x) AND block_of (map (\<lambda>b. 0x80 AND NOT b) ?x)"
    unfolding SwarMatch_def Let_def x low sum and.assoc high ..
  also have "\<dots> = block_of (map (\<lambda>b. ((0x7F AND NOT b) + 1) AND (0x80 AND NOT b)) ?x)"
    by (simp add: block_of_and map2_map_map o_def)
  also have "map (\<lambda>b. ((0x7F AND NOT b) + 1) AND (0x80 AND NOT b)) ?x = map (\<lambda>b. if b = m then 0x80 else 0) bs"
    by (simp add: match_lane [OF assms(2)])
  finally show ?thesis .
qed

text \<open>The lanes the loops visit.\<close>

corollary match_lanes:
  fixes bs :: "u8 list"
  assumes "length bs = 8" "\<not> bit m 7"
  shows "mark_lanes (SwarMatch (block_of bs) (ucast m)) = filter (\<lambda>j. bs ! j = m) [0..<8]"
  unfolding SwarMatch_block [OF assms]
  using marks_block(1,2) [OF assms(1), where P = "\<lambda>b. b = m"] mark_lanes_eq by (auto intro: filter_cong)

corollary occupied_lanes:
  fixes bs :: "u8 list"
  assumes "length bs = 8"
  shows "mark_lanes (occupied_mask (block_of bs)) = filter (\<lambda>j. \<not> bit (bs ! j) 7) [0..<8]"
  unfolding occupied_mask_block [OF assms]
  using marks_block(1,2) [OF assms, where P = "\<lambda>b. \<not> bit b 7"] mark_lanes_eq by (auto intro: filter_cong)

corollary empty_lane:
  fixes bs :: "u8 list"
  assumes "length bs = 8"
  shows "empty_mask (block_of bs) = 0 \<longleftrightarrow> (\<forall>b \<in> set bs. \<not> bit b 7)"
    and "BitScanForward64 (empty_mask (block_of bs)) = Some i \<Longrightarrow>
      drop_bit 3 i < 8 \<and> bit (bs ! drop_bit 3 i) 7 \<and> (\<forall>j < drop_bit 3 i. \<not> bit (bs ! j) 7)"
proof -
  note mb = marks_block [OF assms, where P = "\<lambda>b. bit b 7"]
  show "empty_mask (block_of bs) = 0 \<longleftrightarrow> (\<forall>b \<in> set bs. \<not> bit b 7)"
    unfolding empty_mask_block [OF assms] by (rule mb(3))
  assume "BitScanForward64 (empty_mask (block_of bs)) = Some i"
  note low = BitScanForward64_SomeD [OF this, unfolded empty_mask_block [OF assms]]
  have i: "i = 8 * (i div 8) + 7" "i div 8 < 8"
    using mb(1) low by (auto simp: marks_def) (metis mult_div_mod_eq)
  have "\<not> bit (bs ! j) 7" if "j < i div 8" for j
    using low mb(2) [of j] that i by auto
  moreover have "bit (bs ! (i div 8)) 7"
    using low mb(2) [OF i(2)] i(1) by simp
  ultimately show "drop_bit 3 i < 8 \<and> bit (bs ! drop_bit 3 i) 7 \<and> (\<forall>j < drop_bit 3 i. \<not> bit (bs ! j) 7)"
    using i(2) by (simp add: drop_bit_eq_div)
qed

end
