(* ===== verification/KHashTable.thy ===== *)
theory KHashTable
  imports CtrlGroup
begin

text \<open>
  The two arrays of \<open>KFlatHashMap\<close> (KHashMap.h), the control bytes and the slots, and the
  loops over them: the probe that \<open>FindValueInternal\<close> and \<open>Emplace\<close> share, the search for a
  vacant slot, and the migration of \<open>Rehash\<close>. A slot without an object is \<open>None\<close>, and using
  it as one is a fault (\<open>None\<close> of the option monad), as is a read outside an array or a loop
  that does not stop. The hash function is a parameter \<open>H\<close>.
\<close>

section \<open>The loops\<close>

type_synonym ('k, 'v) slots = "('k \<times> 'v) option list"

definition h2_byte :: "u64 \<Rightarrow> u8" where "h2_byte hash = ucast (drop_bit 57 hash)"

definition next_index :: "u64 \<Rightarrow> u64 \<Rightarrow> u64" where
  "next_index groupMask index = (index + word_of_nat kGroupSize) AND groupMask"

definition group_mask :: "nat \<Rightarrow> u64" where
  "group_mask NewCapacity = (word_of_nat NewCapacity - 1) AND NOT (word_of_nat kGroupSize - 1)"

text \<open>The candidates of a group, in the order of the loop; the first with the key wins.\<close>

fun match_key :: "('k, 'v) slots \<Rightarrow> nat \<Rightarrow> 'k \<Rightarrow> nat list \<Rightarrow> nat option option" where
  "match_key slots base Key [] = Some None"
| "match_key slots base Key (j # js) =
     (case rd slots (base + j) of
        None \<Rightarrow> None
      | Some None \<Rightarrow> None
      | Some (Some (k, v)) \<Rightarrow> if k = Key then Some (Some (base + j)) else match_key slots base Key js)"

datatype probe_result =
    Found nat
  | Vacant u64 u64 \<comment> \<open>the group's index and its mask of empty bytes\<close>
  | Exhausted

partial_function (option) probe_loop ::
  "u8 list \<Rightarrow> ('k, 'v) slots \<Rightarrow> u64 \<Rightarrow> 'k \<Rightarrow> u64 \<Rightarrow> u64 \<Rightarrow> u64 \<Rightarrow> probe_result option" where
  "probe_loop ctrl slots groupMask Key h2 start index =
     do {
       ctrlBlock \<leftarrow> LoadCtrlGroup ctrl (unat index);
       hit \<leftarrow> match_key slots (unat index) Key (mark_lanes (SwarMatch ctrlBlock h2));
       case hit of
         Some i \<Rightarrow> Some (Found i)
       | None \<Rightarrow>
           (if empty_mask ctrlBlock \<noteq> 0 then Some (Vacant index (empty_mask ctrlBlock))
            else let index = next_index groupMask index
                 in if index = start then Some Exhausted
                    else probe_loop ctrl slots groupMask Key h2 start index)
     }"

declare probe_loop.simps [code]

definition probe :: "('k \<Rightarrow> u64) \<Rightarrow> u8 list \<Rightarrow> ('k, 'v) slots \<Rightarrow> u64 \<Rightarrow> 'k \<Rightarrow> probe_result option" where
  "probe H ctrl slots groupMask Key =
     (let hash = H Key; index = hash AND groupMask; start = index; h2 = drop_bit 57 hash
      in probe_loop ctrl slots groupMask Key h2 start index)"

text \<open>The search for a group with an empty byte, and the slot of its first one.\<close>

partial_function (option) vacant_loop :: "u8 list \<Rightarrow> u64 \<Rightarrow> u64 \<Rightarrow> (u64 \<times> u64) option" where
  "vacant_loop ctrl groupMask index =
     do {
       ctrlBlock \<leftarrow> LoadCtrlGroup ctrl (unat index);
       if empty_mask ctrlBlock \<noteq> 0 then Some (index, empty_mask ctrlBlock)
       else vacant_loop ctrl groupMask (next_index groupMask index)
     }"

declare vacant_loop.simps [code]

definition slot_of_mask :: "u64 \<times> u64 \<Rightarrow> nat option" where
  "slot_of_mask g =
     (case BitScanForward64 (snd g) of None \<Rightarrow> None | Some bitPos \<Rightarrow> Some (unat (fst g) + drop_bit 3 bitPos))"

text \<open>
  \<open>Rehash\<close>: the occupied slots of a group are moved to the new arrays one by one. \<open>mv\<close> is
  the move constructor of a value (the new value and what is left of the old), \<open>dtor\<close> its
  destructor.
\<close>

fun migrate_lanes ::
  "('k \<Rightarrow> u64) \<Rightarrow> ('v \<Rightarrow> 'v \<times> 'v) \<Rightarrow> ('s \<Rightarrow> 'v \<Rightarrow> 's) \<Rightarrow> ('k, 'v) slots \<Rightarrow> u64 \<Rightarrow> nat \<Rightarrow> nat list \<Rightarrow>
     u8 list \<times> ('k, 'v) slots \<times> 's \<Rightarrow> (u8 list \<times> ('k, 'v) slots \<times> 's) option" where
  "migrate_lanes H mv dtor old newGroupMask groupIdx [] st = Some st"
| "migrate_lanes H mv dtor old newGroupMask groupIdx (j # js) (newCtrl, newSlots, \<sigma>) =
     (case rd old (groupIdx + j) of
        None \<Rightarrow> None
      | Some None \<Rightarrow> None
      | Some (Some (k, v)) \<Rightarrow>
          (let hash = H k in
           do {
             g \<leftarrow> vacant_loop newCtrl newGroupMask (hash AND newGroupMask);
             realIdx \<leftarrow> slot_of_mask g;
             newCtrl \<leftarrow> wr newCtrl realIdx (h2_byte hash);
             let (v1, v0) = mv v
             in do {
               newSlots \<leftarrow> wr newSlots realIdx (Some (k, v1));
               migrate_lanes H mv dtor old newGroupMask groupIdx js (newCtrl, newSlots, dtor \<sigma> v0)
             }
           }))"

function migrate_groups ::
  "('k \<Rightarrow> u64) \<Rightarrow> ('v \<Rightarrow> 'v \<times> 'v) \<Rightarrow> ('s \<Rightarrow> 'v \<Rightarrow> 's) \<Rightarrow> u8 list \<Rightarrow> ('k, 'v) slots \<Rightarrow> nat \<Rightarrow> u64 \<Rightarrow> nat \<Rightarrow>
     u8 list \<times> ('k, 'v) slots \<times> 's \<Rightarrow> (u8 list \<times> ('k, 'v) slots \<times> 's) option" where
  "migrate_groups H mv dtor ctrl old capacity newGroupMask groupIdx st =
     (if groupIdx < capacity then
        do {
          ctrlBlock \<leftarrow> LoadCtrlGroup ctrl groupIdx;
          st \<leftarrow> migrate_lanes H mv dtor old newGroupMask groupIdx (mark_lanes (occupied_mask ctrlBlock)) st;
          migrate_groups H mv dtor ctrl old capacity newGroupMask (groupIdx + kGroupSize) st
        }
      else Some st)"
  by pat_completeness auto
termination
  by (relation "measure (\<lambda>(H, mv, dtor, ctrl, old, capacity, newGroupMask, groupIdx, st). capacity - groupIdx)")
    (auto simp: kGroupSize_def)

declare migrate_groups.simps [simp del]

text \<open>\<open>DestroyElements\<close>.\<close>

fun destroy_lanes :: "('s \<Rightarrow> 'v \<Rightarrow> 's) \<Rightarrow> ('k, 'v) slots \<Rightarrow> nat \<Rightarrow> nat list \<Rightarrow> 's \<Rightarrow> 's option" where
  "destroy_lanes dtor slots groupIdx [] \<sigma> = Some \<sigma>"
| "destroy_lanes dtor slots groupIdx (j # js) \<sigma> =
     (case rd slots (groupIdx + j) of
        None \<Rightarrow> None
      | Some None \<Rightarrow> None
      | Some (Some (k, v)) \<Rightarrow> destroy_lanes dtor slots groupIdx js (dtor \<sigma> v))"

function destroy_groups :: "('s \<Rightarrow> 'v \<Rightarrow> 's) \<Rightarrow> u8 list \<Rightarrow> ('k, 'v) slots \<Rightarrow> nat \<Rightarrow> nat \<Rightarrow> 's \<Rightarrow> 's option" where
  "destroy_groups dtor ctrl slots capacity groupIdx \<sigma> =
     (if groupIdx < capacity then
        do {
          ctrlBlock \<leftarrow> LoadCtrlGroup ctrl groupIdx;
          \<sigma> \<leftarrow> destroy_lanes dtor slots groupIdx (mark_lanes (occupied_mask ctrlBlock)) \<sigma>;
          destroy_groups dtor ctrl slots capacity (groupIdx + kGroupSize) \<sigma>
        }
      else Some \<sigma>)"
  by pat_completeness auto
termination
  by (relation "measure (\<lambda>(dtor, ctrl, slots, capacity, groupIdx, \<sigma>). capacity - groupIdx)")
    (auto simp: kGroupSize_def)

declare destroy_groups.simps [simp del]

section \<open>Group arithmetic\<close>

text \<open>
  A table has \<open>G\<close> groups, a power of two. \<open>probe_group G h t\<close> is the \<open>t\<close>-th group probed for
  the hash \<open>h\<close>; the masked indices of the code are its groups' first slots.
\<close>

definition groups_ok :: "nat \<Rightarrow> bool" where
  "groups_ok G \<longleftrightarrow> (\<exists>j \<le> 60. G = 2 ^ j)"

definition probe_group :: "nat \<Rightarrow> u64 \<Rightarrow> nat \<Rightarrow> nat" where
  "probe_group G h t = (unat h div 8 + t) mod G"

definition at_group :: "nat \<Rightarrow> u64" where
  "at_group g = word_of_nat (8 * g)"

lemma groups_pos: "groups_ok G \<Longrightarrow> 0 < G"
  by (auto simp: groups_ok_def)

lemma groups_bound: "groups_ok G \<Longrightarrow> G \<le> 2 ^ 60"
  unfolding groups_ok_def by (metis one_le_numeral power_increasing)

lemma probe_group_less: "groups_ok G \<Longrightarrow> probe_group G h t < G"
  using groups_pos by (simp add: probe_group_def)

lemma unat_at_group: "groups_ok G \<Longrightarrow> g \<le> G \<Longrightarrow> unat (at_group g) = 8 * g"
  using groups_bound [of G] by (simp add: at_group_def unat_of_nat del: of_nat_mult)

lemma bit_group_mask:
  assumes "G = 2 ^ j" "j \<le> 60"
  shows "bit (group_mask (8 * G)) i \<longleftrightarrow> 3 \<le> i \<and> i < 3 + j"
proof -
  have "(word_of_nat (8 * G) :: u64) - 1 = mask (3 + j)"
    using assms by (simp add: mask_eq_exp_minus_1 power_add)
  moreover have "(word_of_nat kGroupSize :: u64) - 1 = mask 3"
    by (simp add: kGroupSize_def mask_eq_exp_minus_1)
  ultimately show ?thesis
    using assms(2) by (auto simp: group_mask_def bit_and_iff bit_not_iff bit_mask_iff)
qed

lemma masked_group:
  assumes "groups_ok G"
  shows "h AND group_mask (8 * G) = at_group (unat h div 8 mod G)"
proof -
  obtain j where j: "G = 2 ^ j" "j \<le> 60"
    using assms by (auto simp: groups_ok_def)
  have "h AND group_mask (8 * G) = push_bit 3 (take_bit j (drop_bit 3 h))"
    by (rule bit_eqI)
      (auto simp: bit_and_iff bit_group_mask [OF j] bit_push_bit_iff bit_take_bit_iff bit_drop_bit_eq)
  also have "take_bit j (drop_bit 3 h) = word_of_nat (unat h div 8 mod G)"
  proof (rule word_unat_eq_iff [THEN iffD2])
    have "unat h div 8 mod G < G" "G \<le> 2 ^ 60"
      using groups_bound [OF assms] groups_pos [OF assms] by simp_all
    then have "unat h div 8 mod G < 2 ^ 64"
      by simp
    then have r: "unat (word_of_nat (unat h div 8 mod G) :: u64) = unat h div 8 mod G"
      by (simp add: unat_of_nat)
    have "unat (take_bit j (drop_bit 3 h)) = take_bit j (drop_bit 3 (unat h))"
      by (simp only: unsigned_take_bit_eq unsigned_drop_bit_eq take_bit_nat_eq_self [OF unsigned_less])
    also have "\<dots> = unat h div 8 mod G"
      by (simp add: take_bit_eq_mod drop_bit_eq_div j(1))
    finally show "unat (take_bit j (drop_bit 3 h)) = unat (word_of_nat (unat h div 8 mod G) :: u64)"
      unfolding r .
  qed
  finally show ?thesis
    by (simp add: at_group_def push_bit_eq_mult)
qed

lemma home_index: "groups_ok G \<Longrightarrow> h AND group_mask (8 * G) = at_group (probe_group G h 0)"
  by (simp add: masked_group probe_group_def)

lemma next_index_group:
  assumes "groups_ok G"
  shows "next_index (group_mask (8 * G)) (at_group (probe_group G h t)) = at_group (probe_group G h (Suc t))"
proof -
  let ?g = "probe_group G h t"
  have g: "?g < G"
    by (rule probe_group_less [OF assms])
  have "at_group ?g + word_of_nat kGroupSize = at_group (Suc ?g)"
    by (simp add: at_group_def kGroupSize_def algebra_simps)
  moreover have "unat (at_group (Suc ?g)) = 8 * Suc ?g"
    using g by (intro unat_at_group [OF assms]) simp
  moreover have "Suc ?g mod G = probe_group G h (Suc t)"
    by (simp add: probe_group_def mod_Suc_eq)
  ultimately show ?thesis
    by (simp add: next_index_def masked_group [OF assms])
qed

lemma at_group_eq_iff:
  assumes "groups_ok G" "g < G" "g' < G"
  shows "at_group g = at_group g' \<longleftrightarrow> g = g'"
  using unat_at_group [OF assms(1)] assms(2,3) by (metis less_imp_le mult_left_cancel zero_neq_numeral)

lemma probe_group_mod [simp]: "probe_group G h (t mod G) = probe_group G h t"
  by (simp add: probe_group_def mod_add_right_eq)

lemma probe_group_back:
  assumes "groups_ok G" "t < G" "probe_group G h (Suc t) = probe_group G h 0"
  shows "Suc t = G"
proof -
  have "(unat h div 8 + Suc t) mod G = (unat h div 8) mod G"
    using assms(3) by (simp add: probe_group_def)
  then have "G dvd Suc t"
    using mod_eq_dvd_iff_nat [of "unat h div 8" "unat h div 8 + Suc t" G] by simp
  then show ?thesis
    using assms(2) by (metis Suc_leI dvd_imp_le le_antisym zero_less_Suc)
qed

lemma probe_group_onto:
  assumes "groups_ok G" "g < G"
  obtains t where "t < G" "probe_group G h t = g"
proof -
  let ?a = "unat h div 8 mod G"
  have G: "0 < G" "?a < G"
    using groups_pos [OF assms(1)] by simp_all
  have "probe_group G h ((g + (G - ?a)) mod G) = (unat h div 8 + (g + (G - ?a))) mod G"
    by (simp only: probe_group_def mod_add_right_eq)
  also have "\<dots> = (?a + (g + (G - ?a))) mod G"
    by (simp only: mod_add_left_eq)
  also have "?a + (g + (G - ?a)) = g + G"
    using G(2) by linarith
  finally have "probe_group G h ((g + (G - ?a)) mod G) = g"
    using assms(2) by simp
  then show thesis
    using G(1) by (intro that [of "(g + (G - ?a)) mod G"]) simp_all
qed

section \<open>The invariant of the arrays\<close>

text \<open>
  A slot without an object has the empty control byte; a slot with a key has the key's
  byte, and every group probed for the key before the slot's own is full. No key has two
  slots.
\<close>

definition group_bytes :: "u8 list \<Rightarrow> nat \<Rightarrow> u8 list" where
  "group_bytes ctrl g = take 8 (drop (8 * g) ctrl)"

definition group_full :: "u8 list \<Rightarrow> nat \<Rightarrow> bool" where
  "group_full ctrl g \<longleftrightarrow> (\<forall>j<8. \<not> bit (ctrl ! (8 * g + j)) 7)"

definition reach :: "nat \<Rightarrow> u8 list \<Rightarrow> u64 \<Rightarrow> nat \<Rightarrow> bool" where
  "reach G ctrl h i \<longleftrightarrow>
     (\<exists>t<G. i div 8 = probe_group G h t \<and> (\<forall>s<t. group_full ctrl (probe_group G h s)))"

definition slot_ok :: "('k \<Rightarrow> u64) \<Rightarrow> nat \<Rightarrow> u8 list \<Rightarrow> ('k, 'v) slots \<Rightarrow> nat \<Rightarrow> bool" where
  "slot_ok H G ctrl slots i \<longleftrightarrow>
     (case slots ! i of None \<Rightarrow> ctrl ! i = kEmptyCtrl
      | Some (k, v) \<Rightarrow> ctrl ! i = h2_byte (H k) \<and> reach G ctrl (H k) i)"

definition has_key :: "('k, 'v) slots \<Rightarrow> 'k \<Rightarrow> nat \<Rightarrow> bool" where
  "has_key slots k i \<longleftrightarrow> i < length slots \<and> (\<exists>v. slots ! i = Some (k, v))"

definition one_slot :: "('k, 'v) slots \<Rightarrow> bool" where
  "one_slot slots \<longleftrightarrow> (\<forall>k i j. has_key slots k i \<longrightarrow> has_key slots k j \<longrightarrow> i = j)"

definition tab_ok :: "('k \<Rightarrow> u64) \<Rightarrow> nat \<Rightarrow> u8 list \<Rightarrow> ('k, 'v) slots \<Rightarrow> bool" where
  "tab_ok H G ctrl slots \<longleftrightarrow> groups_ok G \<and> length ctrl = 8 * G \<and> length slots = 8 * G \<and>
     (\<forall>i < 8 * G. slot_ok H G ctrl slots i) \<and> one_slot slots"

lemma h2_byte_low: "\<not> bit (h2_byte h) 7"
  by (auto simp: h2_byte_def bit_unsigned_iff bit_drop_bit_eq dest: bit_imp_le_length)

lemma h2_byte_widen: "ucast (h2_byte h) = drop_bit 57 h"
  by (rule bit_eqI)
    (auto simp: h2_byte_def bit_unsigned_iff bit_drop_bit_eq dest: bit_imp_le_length)

lemma kEmptyCtrl_top: "bit kEmptyCtrl 7"
  by (simp add: kEmptyCtrl_def)

lemma slot_bit:
  assumes "slot_ok H G ctrl slots i"
  shows "bit (ctrl ! i) 7 \<longleftrightarrow> slots ! i = None"
  using assms by (auto simp: slot_ok_def h2_byte_low kEmptyCtrl_top split: option.splits)

lemma load_group:
  assumes "groups_ok G" "length ctrl = 8 * G" "g < G"
  shows "LoadCtrlGroup ctrl (8 * g) = Some (block_of (group_bytes ctrl g))"
    and "length (group_bytes ctrl g) = 8" "j < 8 \<Longrightarrow> group_bytes ctrl g ! j = ctrl ! (8 * g + j)"
    and "unat (at_group g) = 8 * g"
  using assms unat_at_group [OF assms(1), of g]
  by (auto simp: LoadCtrlGroup_def load64_def chars_per_block_def group_bytes_def)

lemma group_full_bytes:
  assumes "groups_ok G" "length ctrl = 8 * G" "g < G"
  shows "group_full ctrl g \<longleftrightarrow> (\<forall>b \<in> set (group_bytes ctrl g). \<not> bit b 7)"
  unfolding group_full_def by (metis in_set_conv_nth load_group(2,3) [OF assms])

lemma lane_less: "g < G \<Longrightarrow> j < 8 \<Longrightarrow> 8 * g + j < 8 * (G :: nat)"
  by linarith

lemma match_key_eq:
  "\<forall>j \<in> set js. base + j < length slots \<and> slots ! (base + j) \<noteq> None \<Longrightarrow>
     match_key slots base Key js = Some (find (has_key slots Key) (map ((+) base) js))"
  by (induction js) (auto simp: has_key_def split: option.splits)

text \<open>What the candidates of one group say about the key.\<close>

lemma scan_group:
  assumes "tab_ok H G ctrl slots" "g < G"
  obtains r where "match_key slots (8 * g) Key
      (mark_lanes (SwarMatch (block_of (group_bytes ctrl g)) (drop_bit 57 (H Key)))) = Some r"
    "\<And>i. r = Some i \<Longrightarrow> has_key slots Key i"
    "\<And>j. r = None \<Longrightarrow> j < 8 \<Longrightarrow> \<not> has_key slots Key (8 * g + j)"
proof -
  have geo: "groups_ok G" "length ctrl = 8 * G" "length slots = 8 * G"
    and so: "\<And>i. i < 8 * G \<Longrightarrow> slot_ok H G ctrl slots i"
    using assms(1) by (auto simp: tab_ok_def)
  note lg = load_group [OF geo(1,2) assms(2)]
  let ?js = "filter (\<lambda>j. group_bytes ctrl g ! j = h2_byte (H Key)) [0..<8]"
  let ?r = "find (has_key slots Key) (map ((+) (8 * g)) ?js)"
  have lanes: "mark_lanes (SwarMatch (block_of (group_bytes ctrl g)) (drop_bit 57 (H Key))) = ?js"
    using match_lanes [OF lg(2) h2_byte_low, of "H Key"] by (simp add: h2_byte_widen)
  have js: "8 * g + j < length slots" "slots ! (8 * g + j) \<noteq> None" if "j \<in> set ?js" for j
  proof -
    have j: "j < 8" "ctrl ! (8 * g + j) = h2_byte (H Key)"
      using that lg(3) by auto
    show "8 * g + j < length slots"
      using lane_less [OF assms(2) j(1)] geo(3) by simp
    show "slots ! (8 * g + j) \<noteq> None"
      using slot_bit [OF so [OF lane_less [OF assms(2) j(1)]]] j(2) by (simp add: h2_byte_low)
  qed
  show thesis
  proof (rule that [of ?r])
    show "match_key slots (8 * g) Key
      (mark_lanes (SwarMatch (block_of (group_bytes ctrl g)) (drop_bit 57 (H Key)))) = Some ?r"
      unfolding lanes using js by (intro match_key_eq) blast
    show "has_key slots Key i" if "?r = Some i" for i
      using that by (auto simp: find_Some_iff)
    show "\<not> has_key slots Key (8 * g + j)" if none: "?r = None" and j: "j < 8" for j
    proof
      assume hk: "has_key slots Key (8 * g + j)"
      then have "ctrl ! (8 * g + j) = h2_byte (H Key)"
        using so [OF lane_less [OF assms(2) j]] by (auto simp: has_key_def slot_ok_def)
      then have "8 * g + j \<in> set (map ((+) (8 * g)) ?js)"
        using lg(3) [OF j] j by auto
      then show False
        using none hk unfolding find_None_iff by blast
    qed
  qed
qed

section \<open>Probing\<close>

text \<open>What a probe promises.\<close>

definition vacant_at :: "nat \<Rightarrow> u8 list \<Rightarrow> u64 \<Rightarrow> u64 \<times> u64 \<Rightarrow> nat \<Rightarrow> bool" where
  "vacant_at G ctrl h g p \<longleftrightarrow> slot_of_mask g = Some p \<and> p < 8 * G \<and> bit (ctrl ! p) 7 \<and> reach G ctrl h p"

lemma vacant_here:
  assumes "groups_ok G" "length ctrl = 8 * G" "t < G" "\<forall>s<t. group_full ctrl (probe_group G h s)"
    and "empty_mask (block_of (group_bytes ctrl (probe_group G h t))) \<noteq> 0"
  shows "\<exists>p. vacant_at G ctrl h (at_group (probe_group G h t), empty_mask (block_of (group_bytes ctrl (probe_group G h t)))) p"
proof -
  let ?g = "probe_group G h t"
  have g: "?g < G"
    by (rule probe_group_less [OF assms(1)])
  note lg = load_group [OF assms(1,2) g]
  obtain b where b: "BitScanForward64 (empty_mask (block_of (group_bytes ctrl ?g))) = Some b"
    using BitScanForward64_nonzero [OF assms(5)] by blast
  have lane: "drop_bit 3 b < 8" "bit (group_bytes ctrl ?g ! drop_bit 3 b) 7"
    using empty_lane(2) [OF lg(2) b] by simp_all
  have "reach G ctrl h (8 * ?g + drop_bit 3 b)"
    using assms(3,4) lane(1) unfolding reach_def by (intro exI [of _ t]) simp
  then show ?thesis
    using b lane lg(3) [OF lane(1)] lane_less [OF g lane(1)]
    by (intro exI [of _ "8 * ?g + drop_bit 3 b"]) (simp add: vacant_at_def slot_of_mask_def lg(4))
qed

text \<open>The groups probed without success say nothing holds the key yet.\<close>

definition probed :: "nat \<Rightarrow> u8 list \<Rightarrow> ('k, 'v) slots \<Rightarrow> 'k \<Rightarrow> u64 \<Rightarrow> nat \<Rightarrow> bool" where
  "probed G ctrl slots Key h t \<longleftrightarrow>
     (\<forall>s<t. group_full ctrl (probe_group G h s) \<and> (\<forall>j<8. \<not> has_key slots Key (8 * probe_group G h s + j)))"

lemma probed_Suc:
  "probed G ctrl slots Key h (Suc t) \<longleftrightarrow> probed G ctrl slots Key h t \<and>
     group_full ctrl (probe_group G h t) \<and> (\<forall>j<8. \<not> has_key slots Key (8 * probe_group G h t + j))"
  by (auto simp: probed_def less_Suc_eq)

lemma absent_after_probe:
  assumes "tab_ok H G ctrl slots" "probed G ctrl slots Key (H Key) t"
    and last: "\<forall>j<8. \<not> has_key slots Key (8 * probe_group G (H Key) t + j)"
    and stop: "\<not> group_full ctrl (probe_group G (H Key) t) \<or> G \<le> Suc t"
  shows "\<not> has_key slots Key i"
proof
  assume hk: "has_key slots Key i"
  then have "slot_ok H G ctrl slots i"
    using assms(1) by (auto simp: tab_ok_def has_key_def)
  then obtain t' where t': "t' < G" "i div 8 = probe_group G (H Key) t'"
      "\<forall>s<t'. group_full ctrl (probe_group G (H Key) s)"
    using hk by (auto simp: slot_ok_def has_key_def reach_def)
  have i: "i = 8 * probe_group G (H Key) t' + i mod 8" "i mod 8 < 8"
    using t'(2) by (metis mult_div_mod_eq) simp
  have "\<not> t' < t" "t' \<noteq> t"
    using assms(2) last hk i unfolding probed_def by metis+
  then have "t < t'"
    by simp
  then show False
    using stop t'(1,3) by auto
qed

text \<open>The result of a probe, by what it says of the key and of the free slot.\<close>

definition probe_spec :: "('k \<Rightarrow> u64) \<Rightarrow> nat \<Rightarrow> u8 list \<Rightarrow> ('k, 'v) slots \<Rightarrow> 'k \<Rightarrow> probe_result \<Rightarrow> bool" where
  "probe_spec H G ctrl slots Key r \<longleftrightarrow>
     (case r of
        Found i \<Rightarrow> has_key slots Key i
      | Vacant idx e \<Rightarrow> (\<forall>i. \<not> has_key slots Key i) \<and> (\<exists>p. vacant_at G ctrl (H Key) (idx, e) p)
      | Exhausted \<Rightarrow> (\<forall>i. \<not> has_key slots Key i) \<and> (\<forall>g<G. group_full ctrl g))"

lemma probe_loop_spec:
  assumes "tab_ok H G ctrl slots"
  shows "t < G \<Longrightarrow> probed G ctrl slots Key (H Key) t \<Longrightarrow>
     \<exists>r. probe_loop ctrl slots (group_mask (8 * G)) Key (drop_bit 57 (H Key))
           (at_group (probe_group G (H Key) 0)) (at_group (probe_group G (H Key) t)) = Some r \<and>
         probe_spec H G ctrl slots Key r"
proof (induction "G - t" arbitrary: t rule: less_induct)
  case less
  have geo: "groups_ok G" "length ctrl = 8 * G"
    using assms by (auto simp: tab_ok_def)
  let ?h = "H Key" let ?g = "probe_group G ?h t"
  have g: "?g < G"
    by (rule probe_group_less [OF geo(1)])
  note lg = load_group [OF geo g]
  obtain r where scan: "match_key slots (8 * ?g) Key
      (mark_lanes (SwarMatch (block_of (group_bytes ctrl ?g)) (drop_bit 57 ?h))) = Some r"
    and hit: "\<And>i. r = Some i \<Longrightarrow> has_key slots Key i"
    and miss: "\<And>j. r = None \<Longrightarrow> j < 8 \<Longrightarrow> \<not> has_key slots Key (8 * ?g + j)"
    by (rule scan_group [OF assms g]) blast
  let ?e = "empty_mask (block_of (group_bytes ctrl ?g))"
  let ?L = "\<lambda>t. probe_loop ctrl slots (group_mask (8 * G)) Key (drop_bit 57 ?h)
           (at_group (probe_group G ?h 0)) (at_group (probe_group G ?h t))"
  have step: "?L t = (case r of Some i \<Rightarrow> Some (Found i)
       | None \<Rightarrow> if ?e \<noteq> 0 then Some (Vacant (at_group ?g) ?e)
                 else if at_group (probe_group G ?h (Suc t)) = at_group (probe_group G ?h 0) then Some Exhausted
                 else ?L (Suc t))"
    by (subst probe_loop.simps)
      (cases r; simp add: lg(1,4) scan next_index_group [OF geo(1)] Let_def)
  have full: "?e = 0 \<longleftrightarrow> group_full ctrl ?g"
    using empty_lane(1) [OF lg(2)] group_full_bytes [OF geo g] by simp
  show ?case
  proof (cases r)
    case (Some i)
    then show ?thesis
      using step hit by (simp add: probe_spec_def)
  next
    case None
    then have here: "\<forall>j<8. \<not> has_key slots Key (8 * ?g + j)"
      using miss by blast
    show ?thesis
    proof (cases "?e = 0")
      case False
      have "\<exists>p. vacant_at G ctrl ?h (at_group ?g, ?e) p"
        using less.prems False by (intro vacant_here [OF geo]) (auto simp: probed_def)
      moreover have "\<not> has_key slots Key i" for i
        using absent_after_probe [OF assms less.prems(2) here] False full by blast
      ultimately show ?thesis
        using step None False by (simp add: probe_spec_def)
    next
      case True
      then have ft: "group_full ctrl ?g"
        using full by simp
      have pr: "probed G ctrl slots Key ?h (Suc t)"
        using less.prems(2) ft here by (simp add: probed_Suc)
      show ?thesis
      proof (cases "Suc t < G")
        case more: True
        have "probe_group G ?h (Suc t) \<noteq> probe_group G ?h 0"
          using probe_group_back [OF geo(1) less.prems(1)] more by fastforce
        then have "?L t = ?L (Suc t)"
          using step None True by (simp add: at_group_eq_iff [OF geo(1)] probe_group_less [OF geo(1)])
        then show ?thesis
          using less.hyps [OF _ more pr] less.prems(1) by simp
      next
        case False
        then have G: "Suc t = G"
          using less.prems(1) by simp
        then have "probe_group G ?h (Suc t) = probe_group G ?h 0"
          by (simp add: probe_group_def)
        then have "?L t = Some Exhausted"
          using step None True by simp
        moreover have "\<not> has_key slots Key i" for i
          using absent_after_probe [OF assms less.prems(2) here] G by simp
        moreover have "group_full ctrl g'" if g': "g' < G" for g'
        proof -
          obtain s where "s < G" "probe_group G ?h s = g'"
            using probe_group_onto [OF geo(1) g'] by blast
          then show ?thesis
            using pr G by (auto simp: probed_def)
        qed
        ultimately show ?thesis
          by (simp add: probe_spec_def)
      qed
    qed
  qed
qed

theorem probe_correct:
  assumes "tab_ok H G ctrl slots"
  obtains r where "probe H ctrl slots (group_mask (8 * G)) Key = Some r" "probe_spec H G ctrl slots Key r"
proof -
  have "groups_ok G"
    using assms by (simp add: tab_ok_def)
  then show thesis
    using probe_loop_spec [OF assms, of 0 Key] groups_pos [of G] that
    by (auto simp: probe_def Let_def home_index probed_def)
qed

text \<open>The search for a vacant slot stops when some group has an empty byte.\<close>

lemma vacant_loop_spec:
  assumes "groups_ok G" "length ctrl = 8 * G" "g < G" "\<not> group_full ctrl g"
  shows "t < G \<Longrightarrow> \<forall>s<t. group_full ctrl (probe_group G h s) \<Longrightarrow>
     \<exists>r p. vacant_loop ctrl (group_mask (8 * G)) (at_group (probe_group G h t)) = Some r \<and> vacant_at G ctrl h r p"
proof (induction "G - t" arbitrary: t rule: less_induct)
  case less
  let ?g = "probe_group G h t"
  have g: "?g < G"
    by (rule probe_group_less [OF assms(1)])
  note lg = load_group [OF assms(1,2) g]
  let ?e = "empty_mask (block_of (group_bytes ctrl ?g))"
  have full: "?e = 0 \<longleftrightarrow> group_full ctrl ?g"
    using empty_lane(1) [OF lg(2)] group_full_bytes [OF assms(1,2) g] by simp
  have step: "vacant_loop ctrl (group_mask (8 * G)) (at_group ?g) =
      (if ?e \<noteq> 0 then Some (at_group ?g, ?e)
       else vacant_loop ctrl (group_mask (8 * G)) (at_group (probe_group G h (Suc t))))"
    by (subst vacant_loop.simps) (simp add: lg(1,4) next_index_group [OF assms(1)])
  show ?case
  proof (cases "?e = 0")
    case False
    then show ?thesis
      using step vacant_here [OF assms(1,2) less.prems] by simp
  next
    case True
    then have all: "\<forall>s<Suc t. group_full ctrl (probe_group G h s)"
      using less.prems(2) full by (simp add: less_Suc_eq)
    have "Suc t < G"
    proof (rule ccontr)
      assume "\<not> Suc t < G"
      then have "Suc t = G"
        using less.prems(1) by simp
      then show False
        using all assms(4) probe_group_onto [OF assms(1,3)] by metis
    qed
    then show ?thesis
      using less.hyps [OF _ _ all] less.prems(1) step True by simp
  qed
qed

corollary vacant_found:
  assumes "groups_ok G" "length ctrl = 8 * G" "g < G" "\<not> group_full ctrl g"
  obtains r p where "vacant_loop ctrl (group_mask (8 * G)) (h AND group_mask (8 * G)) = Some r"
    "vacant_at G ctrl h r p"
  using vacant_loop_spec [OF assms, of 0 h] groups_pos [OF assms(1)] home_index [OF assms(1)] by auto

section \<open>The map of a table\<close>

fun entries :: "('k, 'v) slots \<Rightarrow> ('k \<times> 'v) list" where
  "entries [] = []"
| "entries (None # ss) = entries ss"
| "entries (Some kv # ss) = kv # entries ss"

definition tab_map :: "('k, 'v) slots \<Rightarrow> 'k \<rightharpoonup> 'v" where
  "tab_map slots = map_of (entries slots)"

lemma entries_append: "entries (xs @ ys) = entries xs @ entries ys"
  by (induction xs rule: entries.induct) auto

lemma set_entries: "kv \<in> set (entries slots) \<longleftrightarrow> Some kv \<in> set slots"
  by (induction slots rule: entries.induct) auto

lemma entries_replicate_None [simp]: "entries (replicate n None) = []"
  by (induction n) auto

lemma has_key_Cons:
  "has_key (x # xs) k (Suc i) \<longleftrightarrow> has_key xs k i" "has_key (x # xs) k 0 \<longleftrightarrow> (\<exists>v. x = Some (k, v))"
  by (auto simp: has_key_def)

lemma one_slot_Cons:
  assumes "one_slot (x # xs)"
  shows "one_slot xs" "x = Some (k, v) \<Longrightarrow> \<not> has_key xs k i"
proof -
  show "one_slot xs"
    unfolding one_slot_def
    by (metis assms has_key_Cons(1) nat.inject one_slot_def)
  show "\<not> has_key xs k i" if "x = Some (k, v)"
    using assms that has_key_Cons unfolding one_slot_def by (metis nat.distinct(1))
qed

lemma distinct_entries: "one_slot slots \<Longrightarrow> distinct (map fst (entries slots))"
proof (induction slots rule: entries.induct)
  case (3 kv ss)
  obtain k v where kv: "kv = (k, v)"
    by (cases kv)
  have "k \<notin> fst ` set (entries ss)"
  proof
    assume "k \<in> fst ` set (entries ss)"
    then obtain w where "Some (k, w) \<in> set ss"
      by (auto simp: set_entries)
    then obtain i where "has_key ss k i"
      by (auto simp: in_set_conv_nth has_key_def)
    then show False
      using one_slot_Cons(2) [OF 3(2)] kv by blast
  qed
  then show ?case
    using 3 one_slot_Cons(1) kv by auto
qed (auto dest: one_slot_Cons(1))

lemma tab_map_Some:
  "one_slot slots \<Longrightarrow> tab_map slots k = Some v \<longleftrightarrow> (\<exists>i<length slots. slots ! i = Some (k, v))"
  unfolding tab_map_def map_of_eq_Some_iff [OF distinct_entries] set_entries by (auto simp: in_set_conv_nth)

lemma tab_map_None: "tab_map slots k = None \<longleftrightarrow> (\<forall>i. \<not> has_key slots k i)"
proof -
  have "tab_map slots k = None \<longleftrightarrow> (\<forall>v. Some (k, v) \<notin> set slots)"
    unfolding tab_map_def map_of_eq_None_iff by (force simp flip: set_entries)
  then show ?thesis
    by (auto simp: in_set_conv_nth has_key_def)
qed

lemma map_eqI: "(\<And>k v. m k = Some v \<longleftrightarrow> m' k = Some v) \<Longrightarrow> m = m'"
  by (rule ext) (metis not_None_eq)

lemma tab_map_empty [simp]: "tab_map (replicate n None) = Map.empty"
  by (simp add: tab_map_def)

lemma slot_put_has_key:
  "p < length slots \<Longrightarrow> has_key (slots[p := Some (k, v)]) k' i \<longleftrightarrow>
     (if i = p then k' = k else has_key slots k' i)"
  by (auto simp: has_key_def nth_list_update)

text \<open>Writing a key's slot: a new one, or the value of the one it has.\<close>

lemma tab_map_put:
  assumes "one_slot slots" "p < length slots" "slots ! p = None \<and> (\<forall>i. \<not> has_key slots k i) \<or> has_key slots k p"
  shows "one_slot (slots[p := Some (k, v)])" "tab_map (slots[p := Some (k, v)]) = (tab_map slots)(k \<mapsto> v)"
proof -
  have other: "i = p" if "has_key slots k i" for i
    using assms(1,3) that by (auto simp: one_slot_def)
  show os: "one_slot (slots[p := Some (k, v)])"
    unfolding one_slot_def slot_put_has_key [OF assms(2)]
    using assms(1) other by (auto simp: one_slot_def split: if_splits)
  have p: "k' = k" if "slots ! p = Some (k', w)" for k' w
    using assms(3) that by (auto simp: has_key_def)
  have new: "(\<exists>i<length slots. slots[p := Some (k, v)] ! i = Some (k, w)) \<longleftrightarrow> v = w" for w
  proof
    assume "\<exists>i<length slots. slots[p := Some (k, v)] ! i = Some (k, w)"
    then obtain i where i: "i < length slots" "slots[p := Some (k, v)] ! i = Some (k, w)"
      by blast
    then have "i = p"
      using other [of i] by (cases "i = p") (auto simp: has_key_def)
    then show "v = w"
      using i by simp
  qed (use assms(2) in auto)
  have old: "slots[p := Some (k, v)] ! i = Some (k', w) \<longleftrightarrow> slots ! i = Some (k', w)" if "k' \<noteq> k" for i k' w
    using that assms(2) p [of k' w] by (cases "i = p") auto
  show "tab_map (slots[p := Some (k, v)]) = (tab_map slots)(k \<mapsto> v)"
  proof (rule map_eqI)
    fix k' w
    show "tab_map (slots[p := Some (k, v)]) k' = Some w \<longleftrightarrow> ((tab_map slots)(k \<mapsto> v)) k' = Some w"
      using new old by (cases "k' = k") (simp_all add: tab_map_Some [OF os] tab_map_Some [OF assms(1)])
  qed
qed

lemma tab_map_update:
  assumes "tab_ok H G ctrl slots" "has_key slots k p"
  shows "tab_ok H G ctrl (slots[p := Some (k, v)])" "tab_map (slots[p := Some (k, v)]) = (tab_map slots)(k \<mapsto> v)"
proof -
  have os: "one_slot slots" and p: "p < length slots"
    using assms by (auto simp: tab_ok_def has_key_def)
  note put = tab_map_put [OF os p disjI2 [OF assms(2)]]
  show "tab_map (slots[p := Some (k, v)]) = (tab_map slots)(k \<mapsto> v)"
    by (rule put)
  show "tab_ok H G ctrl (slots[p := Some (k, v)])"
    using assms put(1) by (auto simp: tab_ok_def slot_ok_def nth_list_update has_key_def)
qed

lemma reach_fill:
  assumes "reach G ctrl h i" "\<not> bit b 7"
  shows "reach G (ctrl[p := b]) h i"
proof -
  have "group_full (ctrl[p := b]) g" if "group_full ctrl g" for g
    using that assms(2) by (cases "p < length ctrl") (auto simp: group_full_def nth_list_update list_update_beyond)
  then show ?thesis
    using assms(1) unfolding reach_def by blast
qed

lemma tab_put:
  assumes "tab_ok H G ctrl slots" "\<forall>i. \<not> has_key slots k i" "vacant_at G ctrl (H k) g p"
  shows "tab_ok H G (ctrl[p := h2_byte (H k)]) (slots[p := Some (k, v)])"
    "tab_map (slots[p := Some (k, v)]) = (tab_map slots)(k \<mapsto> v)" "tab_map slots k = None"
proof -
  have ok: "groups_ok G" "length ctrl = 8 * G" "length slots = 8 * G" "one_slot slots"
    and so: "\<And>i. i < 8 * G \<Longrightarrow> slot_ok H G ctrl slots i"
    using assms(1) by (auto simp: tab_ok_def)
  have p: "p < 8 * G" "bit (ctrl ! p) 7" "reach G ctrl (H k) p"
    using assms(3) by (auto simp: vacant_at_def)
  have none: "slots ! p = None"
    using slot_bit [OF so [OF p(1)]] p(2) by simp
  note put = tab_map_put [OF ok(4), of p k v]
  show "tab_map (slots[p := Some (k, v)]) = (tab_map slots)(k \<mapsto> v)"
    using put none assms(2) p(1) ok(3) by simp
  show "tab_map slots k = None"
    using assms(2) by (simp add: tab_map_None)
  have "slot_ok H G (ctrl[p := h2_byte (H k)]) (slots[p := Some (k, v)]) i" if "i < 8 * G" for i
    using so [OF that] that p ok(2,3) reach_fill [OF _ h2_byte_low, of G ctrl _ _ p "H k"]
    by (cases "i = p") (auto simp: slot_ok_def split: option.splits)
  then show "tab_ok H G (ctrl[p := h2_byte (H k)]) (slots[p := Some (k, v)])"
    using ok put none assms(2) p(1) by (simp add: tab_ok_def)
qed

lemma tab_empty:
  "groups_ok G \<Longrightarrow> tab_ok H G (replicate (8 * G) kEmptyCtrl) (replicate (8 * G) None)"
  by (auto simp: tab_ok_def slot_ok_def one_slot_def has_key_def)

text \<open>A table with fewer keys than slots has a group with an empty byte.\<close>

lemma finite_tab_map [simp]: "finite (dom (tab_map slots))"
  by (simp add: tab_map_def finite_dom_map_of)

lemma tab_room:
  assumes "tab_ok H G ctrl slots" "card (dom (tab_map slots)) < 8 * G"
  obtains g where "g < G" "\<not> group_full ctrl g"
proof -
  have ok: "length slots = 8 * G" "one_slot slots" and so: "\<And>i. i < 8 * G \<Longrightarrow> slot_ok H G ctrl slots i"
    using assms(1) by (auto simp: tab_ok_def)
  have "\<exists>i<8 * G. slots ! i = None"
  proof (rule ccontr)
    assume "\<not> (\<exists>i<8 * G. slots ! i = None)"
    then have occ: "\<exists>k v. slots ! i = Some (k, v)" if "i < 8 * G" for i
      using that by (metis not_None_eq surj_pair)
    define key where "key i = fst (the (slots ! i))" for i
    have hk: "has_key slots (key i) i" if "i < 8 * G" for i
      using occ [OF that] that ok(1) by (auto simp: key_def has_key_def)
    have "inj_on key {..<8 * G}"
      using hk ok(2) unfolding inj_on_def one_slot_def by (metis lessThan_iff)
    moreover have "key ` {..<8 * G} \<subseteq> dom (tab_map slots)"
      using hk tab_map_None by (fastforce simp: dom_def)
    ultimately have "card {..<8 * G} \<le> card (dom (tab_map slots))"
      by (metis card_inj_on_le finite_tab_map)
    then show False
      using assms(2) by simp
  qed
  then obtain i where i: "i < 8 * G" "slots ! i = None"
    by blast
  have "i = 8 * (i div 8) + i mod 8" "i mod 8 < 8"
    by simp_all
  then have "\<not> group_full ctrl (i div 8)"
    using slot_bit [OF so [OF i(1)]] i(2) unfolding group_full_def by metis
  moreover have "i div 8 < G"
    using i(1) by simp
  ultimately show thesis
    using that by blast
qed

lemma tab_key:
  assumes "tab_ok H G ctrl slots" "has_key slots k i"
  obtains v where "slots ! i = Some (k, v)" "tab_map slots k = Some v" "i < length slots"
  using assms tab_map_Some [of slots k] by (auto simp: has_key_def tab_ok_def)

end
