(* ===== verification/KHashMigrate.thy ===== *)
theory KHashMigrate
  imports KHashTable
begin

text \<open>
  The loops of \<open>Rehash\<close> and \<open>DestroyElements\<close> over the occupied slots (KHashMap.h) visit the
  entries of the table in slot order, and migrating into a table with room keeps the map.
\<close>

section \<open>The loops as loops over the entries\<close>

fun migrate_entries ::
  "('k \<Rightarrow> u64) \<Rightarrow> ('v \<Rightarrow> 'v \<times> 'v) \<Rightarrow> ('s \<Rightarrow> 'v \<Rightarrow> 's) \<Rightarrow> u64 \<Rightarrow> ('k \<times> 'v) list \<Rightarrow>
     u8 list \<times> ('k, 'v) slots \<times> 's \<Rightarrow> (u8 list \<times> ('k, 'v) slots \<times> 's) option" where
  "migrate_entries H mv dtor m [] st = Some st"
| "migrate_entries H mv dtor m ((k, v) # es) (newCtrl, newSlots, \<sigma>) =
     do {
       g \<leftarrow> vacant_loop newCtrl m (H k AND m);
       p \<leftarrow> slot_of_mask g;
       newCtrl \<leftarrow> wr newCtrl p (h2_byte (H k));
       newSlots \<leftarrow> wr newSlots p (Some (k, fst (mv v)));
       migrate_entries H mv dtor m es (newCtrl, newSlots, dtor \<sigma> (snd (mv v)))
     }"

lemma migrate_lanes_entries:
  "\<forall>j \<in> set js. base + j < length old \<and> old ! (base + j) \<noteq> None \<Longrightarrow>
     migrate_lanes H mv dtor old m base js st =
     migrate_entries H mv dtor m (map (\<lambda>j. the (old ! (base + j))) js) st"
proof (induction js arbitrary: st)
  case Nil
  then show ?case by (cases st) simp
next
  case (Cons j js)
  obtain c s \<sigma> k v where st: "st = (c, s, \<sigma>)" and kv: "old ! (base + j) = Some (k, v)"
    using Cons.prems by (cases st) fastforce
  show ?case
    using Cons.prems by (simp add: st kv Cons.IH Let_def case_prod_unfold)
qed

lemma migrate_entries_append:
  "migrate_entries H mv dtor m (es @ fs) st =
     Option.bind (migrate_entries H mv dtor m es st) (migrate_entries H mv dtor m fs)"
proof (induction es arbitrary: st)
  case Nil
  then show ?case by (cases st) simp
next
  case (Cons e es)
  obtain c s \<sigma> k v where "st = (c, s, \<sigma>)" "e = (k, v)"
    by (metis prod.exhaust)
  then show ?case
    by (simp add: Cons.IH Option.bind_assoc)
qed

lemma destroy_lanes_fold:
  "\<forall>j \<in> set js. base + j < length slots \<and> slots ! (base + j) \<noteq> None \<Longrightarrow>
     destroy_lanes dtor slots base js \<sigma> =
     Some (fold (\<lambda>kv \<sigma>. dtor \<sigma> (snd kv)) (map (\<lambda>j. the (slots ! (base + j))) js) \<sigma>)"
  by (induction js arbitrary: \<sigma>) (auto split: option.splits)

lemma entries_nth:
  "entries xs = map (\<lambda>j. the (xs ! j)) (filter (\<lambda>j. xs ! j \<noteq> None) [0..<length xs])"
proof (induction xs rule: rev_induct)
  case Nil
  then show ?case by simp
next
  case (snoc x xs)
  have "filter (\<lambda>j. (xs @ [x]) ! j \<noteq> None) [0..<length xs] = filter (\<lambda>j. xs ! j \<noteq> None) [0..<length xs]"
    by (rule filter_cong) (simp_all add: nth_append)
  moreover have "map (\<lambda>j. the ((xs @ [x]) ! j)) (filter P [0..<length xs]) =
      map (\<lambda>j. the (xs ! j)) (filter P [0..<length xs])" for P
    by (rule map_cong) (simp_all add: nth_append)
  moreover have "entries [x] = (if x = None then [] else [the x])"
    by (cases x) auto
  ultimately show ?case
    by (simp add: snoc.IH entries_append)
qed

text \<open>The occupied lanes of a group are its entries.\<close>

lemma group_entries:
  assumes "tab_ok H G ctrl slots" "g < G"
  defines "js \<equiv> mark_lanes (occupied_mask (block_of (group_bytes ctrl g)))"
  shows "\<forall>j \<in> set js. 8 * g + j < length slots \<and> slots ! (8 * g + j) \<noteq> None"
    and "drop (8 * g) slots = take 8 (drop (8 * g) slots) @ drop (8 * Suc g) slots"
    and "entries (take 8 (drop (8 * g) slots)) = map (\<lambda>j. the (slots ! (8 * g + j))) js"
proof -
  have ok: "groups_ok G" "length ctrl = 8 * G" "length slots = 8 * G"
    and so: "\<And>i. i < 8 * G \<Longrightarrow> slot_ok H G ctrl slots i"
    using assms(1) by (auto simp: tab_ok_def)
  note lg = load_group [OF ok(1,2) assms(2)]
  have "js = filter (\<lambda>j. \<not> bit (group_bytes ctrl g ! j) 7) [0..<8]"
    unfolding js_def by (rule occupied_lanes [OF lg(2)])
  also have "\<dots> = filter (\<lambda>j. slots ! (8 * g + j) \<noteq> None) [0..<8]"
    using lg(3) slot_bit [OF so [OF lane_less [OF assms(2)]]] by (intro filter_cong) auto
  finally have js: "js = filter (\<lambda>j. slots ! (8 * g + j) \<noteq> None) [0..<8]" .
  show "\<forall>j \<in> set js. 8 * g + j < length slots \<and> slots ! (8 * g + j) \<noteq> None"
    using js lane_less [OF assms(2)] ok(3) by auto
  show "drop (8 * g) slots = take 8 (drop (8 * g) slots) @ drop (8 * Suc g) slots"
    using append_take_drop_id [of 8 "drop (8 * g) slots"] by (simp add: add.commute)
  let ?xs = "take 8 (drop (8 * g) slots)"
  have len: "length ?xs = 8"
    using assms(2) ok(3) by simp
  have nth: "?xs ! j = slots ! (8 * g + j)" if "j < 8" for j
    using that assms(2) ok(3) by simp
  have "entries ?xs = map (\<lambda>j. the (?xs ! j)) (filter (\<lambda>j. ?xs ! j \<noteq> None) [0..<8])"
    using entries_nth [of ?xs] len by simp
  also have "filter (\<lambda>j. ?xs ! j \<noteq> None) [0..<8] = js"
    unfolding js using nth by (intro filter_cong) auto
  also have "map (\<lambda>j. the (?xs ! j)) js = map (\<lambda>j. the (slots ! (8 * g + j))) js"
    using nth by (intro map_cong) (auto simp: js)
  finally show "entries ?xs = map (\<lambda>j. the (slots ! (8 * g + j))) js" .
qed

lemma migrate_groups_entries:
  assumes "tab_ok H G ctrl slots"
  shows "g \<le> G \<Longrightarrow> migrate_groups H mv dtor ctrl slots (8 * G) m (8 * g) st =
     migrate_entries H mv dtor m (entries (drop (8 * g) slots)) st"
proof (induction "G - g" arbitrary: g st)
  case 0
  then show ?case
    using assms by (subst migrate_groups.simps) (cases st, simp add: tab_ok_def)
next
  case (Suc n)
  then have g: "g < G"
    by simp
  have ok: "groups_ok G" "length ctrl = 8 * G"
    using assms by (auto simp: tab_ok_def)
  note lg = load_group(1) [OF ok g] and ge = group_entries [OF assms g]
  have IH: "migrate_groups H mv dtor ctrl slots (8 * G) m (8 * Suc g) =
      migrate_entries H mv dtor m (entries (drop (8 * Suc g) slots))"
    using Suc.hyps(2) g by (intro ext Suc.hyps(1)) simp_all
  have "migrate_groups H mv dtor ctrl slots (8 * G) m (8 * g) st =
      Option.bind (migrate_entries H mv dtor m (entries (take 8 (drop (8 * g) slots))) st)
        (migrate_entries H mv dtor m (entries (drop (8 * Suc g) slots)))"
    using g IH by (subst migrate_groups.simps)
      (simp add: lg migrate_lanes_entries [OF ge(1)] ge(3) kGroupSize_def add.commute)
  then show ?case
    unfolding migrate_entries_append [symmetric] entries_append [symmetric] ge(2) [symmetric] .
qed

lemma destroy_groups_fold:
  assumes "tab_ok H G ctrl slots"
  shows "g \<le> G \<Longrightarrow> destroy_groups dtor ctrl slots (8 * G) (8 * g) \<sigma> =
     Some (fold (\<lambda>kv \<sigma>. dtor \<sigma> (snd kv)) (entries (drop (8 * g) slots)) \<sigma>)"
proof (induction "G - g" arbitrary: g \<sigma>)
  case 0
  then show ?case
    using assms by (subst destroy_groups.simps) (simp add: tab_ok_def)
next
  case (Suc n)
  then have g: "g < G"
    by simp
  have ok: "groups_ok G" "length ctrl = 8 * G"
    using assms by (auto simp: tab_ok_def)
  note lg = load_group(1) [OF ok g] and ge = group_entries [OF assms g]
  have IH: "destroy_groups dtor ctrl slots (8 * G) (8 * Suc g) \<sigma> =
      Some (fold (\<lambda>kv \<sigma>. dtor \<sigma> (snd kv)) (entries (drop (8 * Suc g) slots)) \<sigma>)" for \<sigma>
    using Suc.hyps(2) g by (intro Suc.hyps(1)) simp_all
  have "destroy_groups dtor ctrl slots (8 * G) (8 * g) \<sigma> =
      Some (fold (\<lambda>kv \<sigma>. dtor \<sigma> (snd kv)) (entries (take 8 (drop (8 * g) slots) @ drop (8 * Suc g) slots)) \<sigma>)"
    using g IH by (subst destroy_groups.simps)
      (simp add: lg destroy_lanes_fold [OF ge(1)] ge(3) kGroupSize_def add.commute entries_append del: map_map fold_map)
  then show ?case
    unfolding ge(2) [symmetric] .
qed

section \<open>Migration keeps the map\<close>

lemma tab_vacant:
  assumes "tab_ok H G ctrl slots" "card (dom (tab_map slots)) < 8 * G"
  obtains r p where "vacant_loop ctrl (group_mask (8 * G)) (h AND group_mask (8 * G)) = Some r"
    "vacant_at G ctrl h r p" "slot_of_mask r = Some p"
proof -
  obtain g where "g < G" "\<not> group_full ctrl g"
    using tab_room [OF assms] by blast
  then obtain r p where "vacant_loop ctrl (group_mask (8 * G)) (h AND group_mask (8 * G)) = Some r"
      "vacant_at G ctrl h r p"
    using assms(1) vacant_found [of G ctrl g h] by (auto simp: tab_ok_def)
  then show thesis
    by (intro that) (auto simp: vacant_at_def)
qed

lemma migrate_entries_spec:
  assumes "tab_ok H G ctrl slots" "distinct (map fst es)" "dom (tab_map slots) \<inter> fst ` set es = {}"
    and "card (dom (tab_map slots)) + length es \<le> 8 * G"
    and "\<forall>kv \<in> set es. fst (mv (snd kv)) = snd kv \<and> (\<forall>\<sigma>. dtor \<sigma> (snd (mv (snd kv))) = \<sigma>)"
  shows "\<exists>ctrl' slots'. migrate_entries H mv dtor (group_mask (8 * G)) es (ctrl, slots, \<sigma>) = Some (ctrl', slots', \<sigma>) \<and>
     tab_ok H G ctrl' slots' \<and> tab_map slots' = tab_map slots ++ map_of es"
  using assms
proof (induction es arbitrary: ctrl slots)
  case Nil
  then show ?case by simp
next
  case (Cons e es)
  obtain k v where e: "e = (k, v)"
    by (cases e)
  have "card (dom (tab_map slots)) < 8 * G"
    using Cons.prems(4) by simp
  then obtain r p where vac: "vacant_loop ctrl (group_mask (8 * G)) (H k AND group_mask (8 * G)) = Some r"
      "vacant_at G ctrl (H k) r p" "slot_of_mask r = Some p"
    using tab_vacant [OF Cons.prems(1)] by blast
  have none: "tab_map slots k = None"
    using Cons.prems(3) e by auto
  then have absent: "\<forall>i. \<not> has_key slots k i"
    by (simp add: tab_map_None)
  have p: "p < length ctrl" "p < length slots"
    using vac(2) Cons.prems(1) by (simp_all add: vacant_at_def tab_ok_def)
  note put = tab_put(1,2) [OF Cons.prems(1) absent vac(2), where v = v]
  let ?c = "ctrl[p := h2_byte (H k)]" and ?s = "slots[p := Some (k, v)]"
  have card: "card (dom (tab_map ?s)) = Suc (card (dom (tab_map slots)))"
    using none by (simp add: put(2) domIff)
  have "\<exists>ctrl' slots'. migrate_entries H mv dtor (group_mask (8 * G)) es (?c, ?s, \<sigma>) = Some (ctrl', slots', \<sigma>) \<and>
     tab_ok H G ctrl' slots' \<and> tab_map slots' = tab_map ?s ++ map_of es"
  proof (rule Cons.IH [OF put(1)])
    show "distinct (map fst es)"
      using Cons.prems(2) by simp
    show "dom (tab_map ?s) \<inter> fst ` set es = {}"
      using Cons.prems(2,3) e by (auto simp: put(2) disjoint_iff)
    show "card (dom (tab_map ?s)) + length es \<le> 8 * G"
      using Cons.prems(4) card by simp
    show "\<forall>kv \<in> set es. fst (mv (snd kv)) = snd kv \<and> (\<forall>\<sigma>. dtor \<sigma> (snd (mv (snd kv))) = \<sigma>)"
      using Cons.prems(5) by simp
  qed
  then obtain ctrl' slots' where IH:
      "migrate_entries H mv dtor (group_mask (8 * G)) es (?c, ?s, \<sigma>) = Some (ctrl', slots', \<sigma>)"
      "tab_ok H G ctrl' slots'" "tab_map slots' = tab_map ?s ++ map_of es"
    by blast
  have "k \<notin> dom (map_of es)"
    using Cons.prems(2) e by (auto simp: dom_map_of_conv_image_fst)
  then have "tab_map ?s ++ map_of es = tab_map slots ++ map_of (e # es)"
    by (simp add: put(2) e map_add_upd_left)
  then have "tab_map slots' = tab_map slots ++ map_of (e # es)"
    by (simp only: IH(3))
  moreover have "migrate_entries H mv dtor (group_mask (8 * G)) (e # es) (ctrl, slots, \<sigma>) = Some (ctrl', slots', \<sigma>)"
    using IH(1) Cons.prems(5) p by (simp add: e vac)
  ultimately show ?case
    using IH(2) by blast
qed

theorem migrate_groups_spec:
  assumes "tab_ok H G ctrl slots" "groups_ok G'" "card (dom (tab_map slots)) \<le> 8 * G'"
    and "\<forall>v \<in> ran (tab_map slots). fst (mv v) = v \<and> (\<forall>\<sigma>. dtor \<sigma> (snd (mv v)) = \<sigma>)"
  obtains ctrl' slots' where
    "migrate_groups H mv dtor ctrl slots (8 * G) (group_mask (8 * G')) 0
       (replicate (8 * G') kEmptyCtrl, replicate (8 * G') None, \<sigma>) = Some (ctrl', slots', \<sigma>)"
    "tab_ok H G' ctrl' slots'" "tab_map slots' = tab_map slots"
proof -
  have os: "one_slot slots"
    using assms(1) by (simp add: tab_ok_def)
  note de = distinct_entries [OF os]
  have "card (dom (tab_map slots)) = length (entries slots)"
    using de unfolding tab_map_def dom_map_of_conv_image_fst
    by (metis distinct_card length_map list.set_map)
  moreover have "snd kv \<in> ran (tab_map slots)" if "kv \<in> set (entries slots)" for kv
    using that de by (simp add: tab_map_def ran_distinct)
  moreover have "migrate_groups H mv dtor ctrl slots (8 * G) (group_mask (8 * G')) 0 st =
      migrate_entries H mv dtor (group_mask (8 * G')) (entries slots) st" for st
    using migrate_groups_entries [OF assms(1), of 0] by simp
  ultimately show thesis
    using migrate_entries_spec [OF tab_empty [OF assms(2)] de, where H = H and mv = mv and dtor = dtor and \<sigma> = \<sigma>] assms(3,4) that
    by (auto simp: tab_map_def [symmetric])
qed

end
