(* ===== verification/KHashMap.thy ===== *)
theory KHashMap
  imports KHashMigrate
begin

text \<open>
  \<open>KFlatHashMap\<close> (KHashMap.h): the map object, its operations, and its invariant over the
  pool. The parameters are the hash function \<open>H\<close>, the size \<open>ssz\<close> of a slot in bytes, and
  the move constructor and destructor of the value type. The operations run in the option
  monad; \<open>None\<close> is a fault or a loop that does not end, and the specifications show that it
  does not happen.
\<close>

section \<open>State\<close>

record 'v vops =
  vo_move :: "'v \<Rightarrow> 'v \<times> 'v"
  vo_dtor :: "sys \<Rightarrow> 'v \<Rightarrow> sys"

record ('k, 'v) kmap =
  hm_ctrl :: "u8 list"
  hm_slots :: "('k, 'v) slots"
  hm_cap :: nat
  hm_size :: nat
  hm_load :: nat
  hm_mask :: u64
  hm_block :: "nat option"

definition KFlatHashMap_new :: "('k, 'v) kmap" where
  "KFlatHashMap_new =
     \<lparr>hm_ctrl = [], hm_slots = [], hm_cap = 0, hm_size = 0, hm_load = 0, hm_mask = 0, hm_block = None\<rparr>"

definition KFlatHashMap_Size :: "('k, 'v) kmap \<Rightarrow> nat" where "KFlatHashMap_Size m = hm_size m"

definition KFlatHashMap_Capacity :: "('k, 'v) kmap \<Rightarrow> nat" where "KFlatHashMap_Capacity m = hm_cap m"

definition KFlatHashMap_IsEmpty :: "('k, 'v) kmap \<Rightarrow> bool" where "KFlatHashMap_IsEmpty m \<longleftrightarrow> hm_size m = 0"

section \<open>Operations\<close>

text \<open>The block holds the control bytes, padding to a multiple of 128, and the slots.\<close>

definition maxPadding :: nat where "maxPadding = 127"

definition table_bytes :: "sys \<Rightarrow> nat \<Rightarrow> nat \<Rightarrow> nat option" where
  "table_bytes \<sigma> ssz NewCapacity =
     do {
       slotBytes \<leftarrow> SizeTMult \<sigma> NewCapacity ssz;
       total \<leftarrow> SizeTAdd \<sigma> NewCapacity maxPadding;
       SizeTAdd \<sigma> total slotBytes
     }"

definition slots_addr :: "u64 \<Rightarrow> nat \<Rightarrow> u64" where
  "slots_addr ctrlAddr ctrlBytes =
     (ctrlAddr + word_of_nat ctrlBytes + word_of_nat maxPadding) AND NOT (word_of_nat maxPadding)"

definition max_load :: "nat \<Rightarrow> nat" where
  "max_load NewCapacity = (NewCapacity div 10) * 7 + ((NewCapacity mod 10) * 7 + 9) div 10"

definition free_table :: "sys \<Rightarrow> ('k, 'v) kmap \<Rightarrow> sys" where
  "free_table \<sigma> m = (case hm_block m of None \<Rightarrow> \<sigma> | Some b \<Rightarrow> ExFreePoolWithTag \<sigma> b)"

definition KFlatHashMap_Rehash ::
  "('k \<Rightarrow> u64) \<Rightarrow> 'v vops \<Rightarrow> nat \<Rightarrow> sys \<Rightarrow> ('k, 'v) kmap \<Rightarrow> nat \<Rightarrow> (ntstatus \<times> ('k, 'v) kmap \<times> sys) option" where
  "KFlatHashMap_Rehash H vo ssz \<sigma> m NewCapacity =
     (case table_bytes \<sigma> ssz NewCapacity of
        None \<Rightarrow> Some (STATUS_INTEGER_OVERFLOW, m, \<sigma>)
      | Some totalAllocSize \<Rightarrow>
          (case ExAllocatePool2 \<sigma> totalAllocSize of
             (None, \<sigma>1) \<Rightarrow> Some (STATUS_INSUFFICIENT_RESOURCES, m, \<sigma>1)
           | (Some pNewCtrl, \<sigma>1) \<Rightarrow>
               (let new = (replicate NewCapacity kEmptyCtrl, replicate NewCapacity None, \<sigma>1);
                    newGroupMask = group_mask NewCapacity
                in do {
                  (c, s, \<sigma>2) \<leftarrow>
                    (if hm_block m \<noteq> None \<and> hm_size m \<noteq> 0 then
                       migrate_groups H (vo_move vo) (vo_dtor vo) (hm_ctrl m) (hm_slots m) (hm_cap m) newGroupMask 0 new
                     else Some new);
                  Some (STATUS_SUCCESS,
                    \<lparr>hm_ctrl = c, hm_slots = s, hm_cap = NewCapacity, hm_size = hm_size m,
                     hm_load = max_load NewCapacity, hm_mask = newGroupMask, hm_block = Some pNewCtrl\<rparr>,
                    free_table \<sigma>2 m)
                })))"

definition KFlatHashMap_Reserve ::
  "('k \<Rightarrow> u64) \<Rightarrow> 'v vops \<Rightarrow> nat \<Rightarrow> sys \<Rightarrow> ('k, 'v) kmap \<Rightarrow> nat \<Rightarrow> (ntstatus \<times> ('k, 'v) kmap \<times> sys) option" where
  "KFlatHashMap_Reserve H vo ssz \<sigma> m Capacity =
     (if Capacity \<le> hm_load m then Some (STATUS_SUCCESS, m, \<sigma>)
      else case SizeTMult \<sigma> Capacity 10 of
        None \<Rightarrow> Some (STATUS_INTEGER_OVERFLOW, m, \<sigma>)
      | Some scaledCap \<Rightarrow>
          (let targetCap = (scaledCap - 3) div 7;
               targetCap = (if targetCap < 16 then 16 else targetCap)
           in do {
             msbIndex \<leftarrow> BitScanReverse64 (word_of_nat (targetCap - 1));
             if msbIndex \<ge> 63 then Some (STATUS_INTEGER_OVERFLOW, m, \<sigma>)
             else KFlatHashMap_Rehash H vo ssz \<sigma> m (push_bit (msbIndex + 1) 1)
           }))"

text \<open>Constructing the pair in the slot of a vacant group, and counting it.\<close>

definition construct_pair ::
  "('k \<Rightarrow> u64) \<Rightarrow> ('k, 'v) kmap \<Rightarrow> 'k \<Rightarrow> 'v \<Rightarrow> u64 \<times> u64 \<Rightarrow> (nat \<times> ('k, 'v) kmap) option" where
  "construct_pair H m Key x g =
     do {
       p \<leftarrow> slot_of_mask g;
       c \<leftarrow> wr (hm_ctrl m) p (h2_byte (H Key));
       s \<leftarrow> wr (hm_slots m) p (Some (Key, x));
       Some (p, m\<lparr>hm_ctrl := c, hm_slots := s, hm_size := hm_size m + 1\<rparr>)
     }"

definition KFlatHashMap_Emplace ::
  "('k \<Rightarrow> u64) \<Rightarrow> 'v vops \<Rightarrow> nat \<Rightarrow> sys \<Rightarrow> ('k, 'v) kmap \<Rightarrow> 'k \<Rightarrow> 'v \<Rightarrow>
     (ntstatus \<times> nat option \<times> ('k, 'v) kmap \<times> sys) option" where
  "KFlatHashMap_Emplace H vo ssz \<sigma> m Key x =
     do {
       (status, m, \<sigma>) \<leftarrow>
         (if hm_cap m = 0 then KFlatHashMap_Rehash H vo ssz \<sigma> m 16 else Some (STATUS_SUCCESS, m, \<sigma>));
       if \<not> NT_SUCCESS status then Some (status, None, m, \<sigma>)
       else do {
         r \<leftarrow> probe H (hm_ctrl m) (hm_slots m) (hm_mask m) Key;
         case r of
           Found i \<Rightarrow> Some (STATUS_OBJECT_NAME_EXISTS, Some i, m, \<sigma>)
         | Exhausted \<Rightarrow> Some (STATUS_INSUFFICIENT_RESOURCES, None, m, \<sigma>)
         | Vacant index e \<Rightarrow>
             (if hm_size m \<ge> hm_load m then
                (case SizeTMult \<sigma> (hm_cap m) 2 of
                   None \<Rightarrow> Some (STATUS_INTEGER_OVERFLOW, None, m, \<sigma>)
                 | Some newCap \<Rightarrow>
                     do {
                       (status, m, \<sigma>) \<leftarrow> KFlatHashMap_Rehash H vo ssz \<sigma> m newCap;
                       if \<not> NT_SUCCESS status then Some (status, None, m, \<sigma>)
                       else do {
                         g \<leftarrow> vacant_loop (hm_ctrl m) (hm_mask m) (H Key AND hm_mask m);
                         (p, m) \<leftarrow> construct_pair H m Key x g;
                         Some (STATUS_SUCCESS, Some p, m, \<sigma>)
                       }
                     })
              else do {
                (p, m) \<leftarrow> construct_pair H m Key x (index, e);
                Some (STATUS_SUCCESS, Some p, m, \<sigma>)
              })
       }
     }"

text \<open>\<open>GetOrInsert\<close> constructs the value by default; \<open>x\<close> is the default value.\<close>

definition KFlatHashMap_GetOrInsert where
  "KFlatHashMap_GetOrInsert H vo ssz x \<sigma> m Key = KFlatHashMap_Emplace H vo ssz \<sigma> m Key x"

definition KFlatHashMap_Find :: "('k \<Rightarrow> u64) \<Rightarrow> ('k, 'v) kmap \<Rightarrow> 'k \<Rightarrow> nat option option" where
  "KFlatHashMap_Find H m Key =
     (if hm_size m = 0 then Some None
      else do {
        r \<leftarrow> probe H (hm_ctrl m) (hm_slots m) (hm_mask m) Key;
        case r of Found i \<Rightarrow> Some (Some i) | Vacant index e \<Rightarrow> Some None | Exhausted \<Rightarrow> Some None
      })"

text \<open>The value a returned pointer leads to, and a write through it.\<close>

definition value_at :: "('k, 'v) kmap \<Rightarrow> nat \<Rightarrow> 'v option" where
  "value_at m i = do { s \<leftarrow> rd (hm_slots m) i; kv \<leftarrow> s; Some (snd kv) }"

definition set_value_at :: "('k, 'v) kmap \<Rightarrow> nat \<Rightarrow> 'v \<Rightarrow> ('k, 'v) kmap option" where
  "set_value_at m i x =
     do {
       s \<leftarrow> rd (hm_slots m) i;
       kv \<leftarrow> s;
       Some (m\<lparr>hm_slots := (hm_slots m)[i := Some (fst kv, x)]\<rparr>)
     }"

definition KFlatHashMap_DestroyElements :: "'v vops \<Rightarrow> sys \<Rightarrow> ('k, 'v) kmap \<Rightarrow> sys option" where
  "KFlatHashMap_DestroyElements vo \<sigma> m =
     (if hm_block m \<noteq> None \<and> hm_size m \<noteq> 0 then
        destroy_groups (vo_dtor vo) (hm_ctrl m) (hm_slots m) (hm_cap m) 0 \<sigma>
      else Some \<sigma>)"

definition KFlatHashMap_Clear :: "'v vops \<Rightarrow> sys \<Rightarrow> ('k, 'v) kmap \<Rightarrow> (('k, 'v) kmap \<times> sys) option" where
  "KFlatHashMap_Clear vo \<sigma> m =
     (if hm_block m \<noteq> None \<and> hm_size m \<noteq> 0 then
        do {
          \<sigma> \<leftarrow> KFlatHashMap_DestroyElements vo \<sigma> m;
          Some (m\<lparr>hm_ctrl := replicate (hm_cap m) kEmptyCtrl,
                  hm_slots := replicate (hm_cap m) None, hm_size := 0\<rparr>, \<sigma>)
        }
      else Some (m\<lparr>hm_size := 0\<rparr>, \<sigma>))"

definition KFlatHashMap_destroy :: "'v vops \<Rightarrow> sys \<Rightarrow> ('k, 'v) kmap \<Rightarrow> sys option" where
  "KFlatHashMap_destroy vo \<sigma> m =
     do { \<sigma> \<leftarrow> KFlatHashMap_DestroyElements vo \<sigma> m; Some (free_table \<sigma> m) }"

definition KFlatHashMap_move_construct :: "('k, 'v) kmap \<Rightarrow> ('k, 'v) kmap \<times> ('k, 'v) kmap" where
  "KFlatHashMap_move_construct Other =
     (Other, \<lparr>hm_ctrl = [], hm_slots = [], hm_cap = 0, hm_size = 0, hm_load = 0, hm_mask = 0, hm_block = None\<rparr>)"

definition KFlatHashMap_move_assign ::
  "'v vops \<Rightarrow> sys \<Rightarrow> ('k, 'v) kmap \<Rightarrow> ('k, 'v) kmap \<Rightarrow> (('k, 'v) kmap \<times> ('k, 'v) kmap \<times> sys) option" where
  "KFlatHashMap_move_assign vo \<sigma> m Other =
     do {
       \<sigma> \<leftarrow> KFlatHashMap_DestroyElements vo \<sigma> m;
       let \<sigma>' = free_table \<sigma> m
       in Some (Other,
            \<lparr>hm_ctrl = [], hm_slots = [], hm_cap = 0, hm_size = 0, hm_load = 0, hm_mask = 0, hm_block = None\<rparr>, \<sigma>')
     }"

section \<open>Iteration\<close>

text \<open>\<open>BaseIterator\<close>: the index into the map's arrays.\<close>

function AdvanceToOccupied :: "u8 list \<Rightarrow> nat \<Rightarrow> nat \<Rightarrow> nat option" where
  "AdvanceToOccupied ctrl capacity index =
     (if index < capacity then
        do {
          c \<leftarrow> rd ctrl index;
          if c = kEmptyCtrl then AdvanceToOccupied ctrl capacity (index + 1) else Some index
        }
      else Some index)"
  by pat_completeness auto
termination by (relation "measure (\<lambda>(ctrl, capacity, index). capacity - index)") auto

declare AdvanceToOccupied.simps [simp del]

definition KFlatHashMap_begin :: "('k, 'v) kmap \<Rightarrow> nat option" where
  "KFlatHashMap_begin m = AdvanceToOccupied (hm_ctrl m) (hm_cap m) 0"

definition KFlatHashMap_end :: "('k, 'v) kmap \<Rightarrow> nat option" where
  "KFlatHashMap_end m = AdvanceToOccupied (hm_ctrl m) (hm_cap m) (hm_cap m)"

definition iterator_next :: "('k, 'v) kmap \<Rightarrow> nat \<Rightarrow> nat option" where
  "iterator_next m it = AdvanceToOccupied (hm_ctrl m) (hm_cap m) (it + 1)"

definition iterator_deref :: "('k, 'v) kmap \<Rightarrow> nat \<Rightarrow> ('k \<times> 'v) option" where
  "iterator_deref m it = do { s \<leftarrow> rd (hm_slots m) it; s }"

text \<open>A range-based for loop over the map: what it visits, in its order.\<close>

partial_function (option) iterate_from :: "('k, 'v) kmap \<Rightarrow> nat \<Rightarrow> ('k \<times> 'v) list option" where
  "iterate_from m it =
     do {
       e \<leftarrow> KFlatHashMap_end m;
       if it \<noteq> e then
         do {
           kv \<leftarrow> iterator_deref m it;
           it \<leftarrow> iterator_next m it;
           rest \<leftarrow> iterate_from m it;
           Some (kv # rest)
         }
       else Some []
     }"

declare iterate_from.simps [code]

definition iterate :: "('k, 'v) kmap \<Rightarrow> ('k \<times> 'v) list option" where
  "iterate m = do { it \<leftarrow> KFlatHashMap_begin m; iterate_from m it }"

end
