(* ===== verification/KHashMapSpec.thy ===== *)
theory KHashMapSpec
  imports KHashMap
begin

text \<open>
  The invariant of \<open>KFlatHashMap\<close> over the pool and what each operation does to the map, to
  the pool blocks and to the invariant. The value type enters through the locale
  \<open>map_value\<close>: what a value owns, and that moving and destroying it accounts for that.
\<close>

section \<open>The highest set bit\<close>

lemma BitScanReverse64_bounds:
  fixes w :: u64
  assumes "w \<noteq> 0"
  obtains i where "BitScanReverse64 w = Some i" "i < 64" "2 ^ i \<le> unat w" "unat w < 2 ^ Suc i"
proof -
  have "\<exists>i. BitScanReverse64 w = Some i"
  proof (rule ccontr)
    assume "\<nexists>i. BitScanReverse64 w = Some i"
    then have "find (bit w) (rev [0..<64]) = None"
      by (simp add: BitScanReverse64_def)
    then have "\<not> bit w n" if "n < 64" for n
      using that unfolding find_None_iff by auto
    then have "w = 0"
      by (intro bit_eqI) auto
    then show False
      using assms by simp
  qed
  then obtain i where i: "find (bit w) (rev [0..<64]) = Some i"
    by (auto simp: BitScanReverse64_def)
  then obtain k where k: "k < 64" "bit w i" "i = 63 - k" "\<forall>l<k. \<not> bit w (63 - l)"
    unfolding find_Some_iff by (auto simp: rev_nth)
  have high: "\<not> bit w j" if "i < j" for j
  proof (cases "j < 64")
    case True
    then have "63 - j < k" "63 - (63 - j) = j"
      using that k(1,3) by simp_all
    then show ?thesis
      using k(4) by metis
  qed (auto dest: bit_imp_le_length)
  have "take_bit (Suc i) w = w"
    by (rule bit_eqI) (use high not_less_eq in \<open>auto simp: bit_take_bit_iff\<close>)
  then have "unat w < 2 ^ Suc i"
    by (metis take_bit_nat_less_exp unsigned_take_bit_eq)
  moreover have "2 ^ i \<le> unat w"
  proof (rule ccontr)
    assume "\<not> 2 ^ i \<le> unat w"
    then have "take_bit i (unat w) = unat w"
      by (simp add: take_bit_nat_eq_self_iff)
    then have "\<not> bit (unat w) i"
      by (metis bit_take_bit_iff less_irrefl)
    then show False
      using k(2) by (simp add: bit_unsigned_iff)
  qed
  ultimately show thesis
    using i k(1,3) by (intro that) (simp_all add: BitScanReverse64_def)
qed

section \<open>The interface of the value type\<close>

locale map_value =
  fixes vo :: "'v vops" and vowned :: "'v \<Rightarrow> nat set" and vok :: "sys \<Rightarrow> 'v \<Rightarrow> bool"
  assumes vok_owned: "vok \<sigma> v \<Longrightarrow> vowned v \<subseteq> dom (live \<sigma>)"
    and vok_frame: "vok \<sigma> v \<Longrightarrow> \<forall>b \<in> vowned v. live \<sigma>' b = live \<sigma> b \<Longrightarrow> vok \<sigma>' v"
    and move_same: "vok \<sigma> v \<Longrightarrow> fst (vo_move vo v) = v"
    and moved_dtor: "vok \<sigma> v \<Longrightarrow> vo_dtor vo \<sigma>' (snd (vo_move vo v)) = \<sigma>'"
    and dtor_owns: "sys_ok \<sigma> \<Longrightarrow> vok \<sigma> v \<Longrightarrow> owns_step \<sigma> (vowned v) (vo_dtor vo \<sigma> v) {}"

section \<open>The invariant\<close>

definition hm_map :: "('k, 'v) kmap \<Rightarrow> 'k \<rightharpoonup> 'v" where
  "hm_map m = tab_map (hm_slots m)"

definition hm_owned :: "('v \<Rightarrow> nat set) \<Rightarrow> ('k, 'v) kmap \<Rightarrow> nat set" where
  "hm_owned vowned m = set_option (hm_block m) \<union> \<Union> (vowned ` ran (hm_map m))"

definition table_ok :: "('k \<Rightarrow> u64) \<Rightarrow> nat \<Rightarrow> sys \<Rightarrow> ('k, 'v) kmap \<Rightarrow> bool" where
  "table_ok H ssz \<sigma> m \<longleftrightarrow>
     m = KFlatHashMap_new \<or>
     (\<exists>G b. 2 \<le> G \<and> hm_cap m = 8 * G \<and> tab_ok H G (hm_ctrl m) (hm_slots m) \<and>
        hm_mask m = group_mask (8 * G) \<and> hm_load m = max_load (8 * G) \<and>
        hm_size m = card (dom (hm_map m)) \<and> hm_size m \<le> hm_load m \<and>
        hm_block m = Some b \<and> live \<sigma> b = Some (8 * G + maxPadding + 8 * G * ssz))"

definition values_ok :: "('v \<Rightarrow> nat set) \<Rightarrow> (sys \<Rightarrow> 'v \<Rightarrow> bool) \<Rightarrow> sys \<Rightarrow> nat set \<Rightarrow> ('k \<rightharpoonup> 'v) \<Rightarrow> bool" where
  "values_ok vowned vok \<sigma> B M \<longleftrightarrow>
     (\<forall>v \<in> ran M. vok \<sigma> v \<and> vowned v \<inter> B = {}) \<and>
     (\<forall>k l v w. k \<noteq> l \<longrightarrow> M k = Some v \<longrightarrow> M l = Some w \<longrightarrow> vowned v \<inter> vowned w = {})"

definition hm_ok :: "('k \<Rightarrow> u64) \<Rightarrow> nat \<Rightarrow> ('v \<Rightarrow> nat set) \<Rightarrow> (sys \<Rightarrow> 'v \<Rightarrow> bool) \<Rightarrow> sys \<Rightarrow> ('k, 'v) kmap \<Rightarrow> bool" where
  "hm_ok H ssz vowned vok \<sigma> m \<longleftrightarrow>
     table_ok H ssz \<sigma> m \<and> values_ok vowned vok \<sigma> (set_option (hm_block m)) (hm_map m)"

lemma new_map [simp]:
  "hm_map KFlatHashMap_new = Map.empty" "hm_owned vowned KFlatHashMap_new = {}"
  "hm_cap KFlatHashMap_new = 0" "hm_size KFlatHashMap_new = 0" "hm_block KFlatHashMap_new = None"
  "hm_load KFlatHashMap_new = 0"
  by (simp_all add: KFlatHashMap_new_def hm_map_def hm_owned_def tab_map_def)

lemma values_ok_empty [simp]: "values_ok vowned vok \<sigma> B Map.empty"
  by (simp add: values_ok_def)

lemma hm_ok_new [simp]: "hm_ok H ssz vowned vok \<sigma> KFlatHashMap_new"
  by (simp add: hm_ok_def table_ok_def)

lemma finite_hm_map [simp]: "finite (dom (hm_map m))"
  by (simp add: hm_map_def)

lemma max_load_eq: "max_load n = (7 * n + 9) div 10"
proof -
  have "n = 10 * (n div 10) + n mod 10"
    by simp
  then have "7 * n + 9 = (7 * (n mod 10) + 9) + (7 * (n div 10)) * 10"
    by linarith
  then have "(7 * n + 9) div 10 = 7 * (n div 10) + (7 * (n mod 10) + 9) div 10"
    by (simp only: div_mult_self1)
  then show ?thesis
    by (simp add: max_load_def mult.commute)
qed

lemma max_load_bounds: "16 \<le> n \<Longrightarrow> max_load n < n" "16 \<le> n \<Longrightarrow> 0 < max_load n"
  unfolding max_load_eq by (auto intro: less_mult_imp_div_less simp: div_greater_zero_iff)

lemma max_load_double: "16 \<le> n \<Longrightarrow> max_load n < max_load (2 * n)"
proof -
  assume "16 \<le> n"
  then have "(7 * n + 9 + 10) div 10 \<le> (7 * (2 * n) + 9) div 10"
    by (intro div_le_mono) simp
  then show ?thesis
    unfolding max_load_eq by simp
qed

lemma max_load_mono: "a \<le> b \<Longrightarrow> max_load a \<le> max_load b"
  unfolding max_load_eq by (simp add: div_le_mono)

lemma groups_ok_double:
  assumes "groups_ok G" "8 * (2 * G) < 2 ^ 64"
  shows "groups_ok (2 * G)"
proof -
  obtain j where j: "G = 2 ^ j"
    using assms(1) by (auto simp: groups_ok_def)
  then have "(2 :: nat) ^ (j + 4) < 2 ^ 64"
    using assms(2) by (simp add: power_add)
  then have "j + 4 < 64"
    by (rule power_less_imp_less_exp [rotated]) simp
  then show ?thesis
    using j by (auto simp: groups_ok_def intro!: exI [of _ "Suc j"])
qed

lemma table_size:
  assumes "table_ok H ssz \<sigma> m"
  shows "hm_size m = card (dom (hm_map m))" "hm_size m \<le> hm_load m" "hm_load m \<le> hm_cap m"
    "hm_size m = 0 \<longleftrightarrow> hm_map m = Map.empty" "hm_block m = None \<longleftrightarrow> hm_cap m = 0"
    "hm_cap m = 0 \<longleftrightarrow> m = KFlatHashMap_new"
proof -
  show size: "hm_size m = card (dom (hm_map m))"
    using assms by (auto simp: table_ok_def)
  then show "hm_size m = 0 \<longleftrightarrow> hm_map m = Map.empty"
    by simp
  show "hm_size m \<le> hm_load m" "hm_block m = None \<longleftrightarrow> hm_cap m = 0" "hm_cap m = 0 \<longleftrightarrow> m = KFlatHashMap_new"
    using assms by (auto simp: table_ok_def)
  show "hm_load m \<le> hm_cap m"
    using assms max_load_bounds(1) by (fastforce simp: table_ok_def intro: less_imp_le)
qed

text \<open>The slots fit the block, wherever the allocator put it.\<close>

lemma slots_in_block:
  fixes a :: u64
  assumes "unat a + (n + maxPadding + n * ssz) < 2 ^ 64"
  shows "unat a + n \<le> unat (slots_addr a n)"
    and "unat (slots_addr a n) + n * ssz \<le> unat a + (n + maxPadding + n * ssz)"
    and "unat (slots_addr a n) mod 128 = 0"
proof -
  let ?w = "a + word_of_nat n + word_of_nat maxPadding"
  have w: "unat ?w = unat a + n + 127"
    using assms by (simp add: maxPadding_def unat_word_ariths unat_of_nat)
  have m: "(word_of_nat maxPadding :: u64) = mask 7"
    by (simp add: maxPadding_def mask_eq_exp_minus_1)
  have "slots_addr a n = push_bit 7 (drop_bit 7 ?w)"
    unfolding slots_addr_def m
    by (rule bit_eqI) (auto simp: bit_and_iff bit_not_iff bit_mask_iff bit_push_bit_iff bit_drop_bit_eq)
  moreover have d: "unat (drop_bit 7 ?w) = unat ?w div 128"
    unfolding unsigned_drop_bit_eq take_bit_nat_eq_self [OF unsigned_less] by (simp add: drop_bit_eq_div)
  moreover have "unat (push_bit 7 x) = unat x * 128" if "unat x * 128 < 2 ^ 64" for x :: u64
    using that by (simp add: push_bit_eq_mult unat_word_ariths)
  moreover have "unat ?w div 128 * 128 < 2 ^ 64"
    by (rule le_less_trans [OF div_times_less_eq_dividend]) (use unsigned_less [of ?w] in simp)
  ultimately have s: "unat (slots_addr a n) = (unat a + n + 127) div 128 * 128"
    using w by (simp only:)
  show "unat a + n \<le> unat (slots_addr a n)" "unat (slots_addr a n) mod 128 = 0"
    unfolding s using div_mult_mod_eq [of "unat a + n + 127" 128] by linarith simp
  show "unat (slots_addr a n) + n * ssz \<le> unat a + (n + maxPadding + n * ssz)"
    unfolding s using div_times_less_eq_dividend [of "unat a + n + 127" 128] by (simp add: maxPadding_def)
qed

text \<open>The geometry of a table that has been allocated.\<close>

lemma table_geometry:
  assumes "table_ok H ssz \<sigma> m" "hm_cap m \<noteq> 0"
  obtains G where "groups_ok G" "2 \<le> G" "hm_cap m = 8 * G" "tab_ok H G (hm_ctrl m) (hm_slots m)"
    "hm_mask m = group_mask (8 * G)" "hm_load m = max_load (8 * G)"
proof -
  obtain G where "2 \<le> G" "hm_cap m = 8 * G" "tab_ok H G (hm_ctrl m) (hm_slots m)"
    "hm_mask m = group_mask (8 * G)" "hm_load m = max_load (8 * G)"
    using assms by (auto simp: table_ok_def)
  then show thesis
    by (intro that) (auto simp: tab_ok_def)
qed

section \<open>Rehashing\<close>

context map_value
begin

lemma values_owned: "values_ok vowned vok \<sigma> B M \<Longrightarrow> v \<in> ran M \<Longrightarrow> vowned v \<subseteq> dom (live \<sigma>)"
  by (rule vok_owned) (simp add: values_ok_def)

lemma hm_ok_owned:
  assumes "hm_ok H ssz vowned vok \<sigma> m"
  shows "hm_owned vowned m \<subseteq> dom (live \<sigma>)"
proof -
  have "set_option (hm_block m) \<subseteq> dom (live \<sigma>)"
    using assms by (auto simp: hm_ok_def table_ok_def)
  then show ?thesis
    using assms values_owned unfolding hm_owned_def hm_ok_def by blast
qed

lemma values_ok_frame:
  assumes "values_ok vowned vok \<sigma> B M" "\<forall>b \<in> \<Union> (vowned ` ran M). live \<sigma>' b = live \<sigma> b"
  shows "values_ok vowned vok \<sigma>' B M"
proof -
  have "vok \<sigma>' v" if "v \<in> ran M" for v
  proof (rule vok_frame)
    show "vok \<sigma> v"
      using assms(1) that by (simp add: values_ok_def)
    show "\<forall>b \<in> vowned v. live \<sigma>' b = live \<sigma> b"
      using assms(2) that by blast
  qed
  then show ?thesis
    using assms(1) by (simp add: values_ok_def)
qed

lemma hm_ok_frame:
  assumes "hm_ok H ssz vowned vok \<sigma> m" "\<forall>b \<in> hm_owned vowned m. live \<sigma>' b = live \<sigma> b"
  shows "hm_ok H ssz vowned vok \<sigma>' m"
proof -
  have "\<forall>b \<in> set_option (hm_block m). live \<sigma>' b = live \<sigma> b"
    and vals: "\<forall>b \<in> \<Union> (vowned ` ran (hm_map m)). live \<sigma>' b = live \<sigma> b"
    using assms(2) unfolding hm_owned_def by blast+
  then have "table_ok H ssz \<sigma>' m"
    using hm_ok_def [THEN iffD1, OF assms(1), THEN conjunct1] unfolding table_ok_def by fastforce
  moreover have "values_ok vowned vok \<sigma>' (set_option (hm_block m)) (hm_map m)"
    using hm_ok_def [THEN iffD1, OF assms(1), THEN conjunct2] vals by (rule values_ok_frame)
  ultimately show ?thesis
    by (simp only: hm_ok_def)
qed

lemma hm_ok_step:
  assumes "hm_ok H ssz vowned vok \<sigma> m" "owns_step \<sigma> A \<sigma>' A'" "sys_ok \<sigma>" "A \<inter> hm_owned vowned m = {}"
  shows "hm_ok H ssz vowned vok \<sigma>' m"
  using owns_step_frame(3) [OF assms(2,3) hm_ok_owned [OF assms(1)] assms(4)] by (rule hm_ok_frame [OF assms(1)])

lemma hm_ok_table: "hm_ok H ssz vowned vok \<sigma> m \<Longrightarrow> table_ok H ssz \<sigma> m"
  by (simp add: hm_ok_def)

lemma hm_values_move:
  "hm_ok H ssz vowned vok \<sigma> m \<Longrightarrow>
     \<forall>v \<in> ran (hm_map m). fst (vo_move vo v) = v \<and> (\<forall>\<sigma>. vo_dtor vo \<sigma> (snd (vo_move vo v)) = \<sigma>)"
  unfolding hm_ok_def values_ok_def by (intro ballI conjI allI move_same [of \<sigma>] moved_dtor [of \<sigma>]) simp_all

text \<open>The block of the table is replaced; the values are where they were.\<close>

lemma replace_table:
  assumes "sys_ok \<sigma>" "hm_ok H ssz vowned vok \<sigma> m" "ExAllocatePool2 \<sigma> bytes = (Some b, \<sigma>1)"
    and "hm_block m' = Some b" "hm_map m' = hm_map m"
  shows "owns_step \<sigma> (hm_owned vowned m) (free_table \<sigma>1 m) (hm_owned vowned m')"
    and "live (free_table \<sigma>1 m) b = Some bytes"
    and "values_ok vowned vok (free_table \<sigma>1 m) (set_option (hm_block m')) (hm_map m')"
proof -
  note own = hm_ok_owned [OF assms(2)]
  note al = alloc_Some [OF assms(3,1) own]
  let ?V = "\<Union> (vowned ` ran (hm_map m))"
  have vals: "values_ok vowned vok \<sigma> (set_option (hm_block m)) (hm_map m)"
    using assms(2) by (simp add: hm_ok_def)
  have fresh: "b \<notin> hm_owned vowned m"
    using al(3) own by blast
  have o': "hm_owned vowned m' = insert b ?V"
    by (simp add: hm_owned_def assms(4,5))
  show blk: "live (free_table \<sigma>1 m) b = Some bytes"
    using al(2) fresh by (cases "hm_block m") (auto simp: free_table_def hm_owned_def free_other)
  show st: "owns_step \<sigma> (hm_owned vowned m) (free_table \<sigma>1 m) (hm_owned vowned m')"
  proof (cases "hm_block m")
    case None
    then show ?thesis
      using al(1) unfolding o' by (simp add: free_table_def hm_owned_def)
  next
    case (Some c)
    have "?V \<inter> {c} = {}"
      using vals Some by (auto simp: values_ok_def)
    then have A: "insert b (hm_owned vowned m) - {c} = insert b ?V"
      using fresh Some by (auto simp: hm_owned_def)
    have "owns_step \<sigma>1 (insert b (hm_owned vowned m)) (ExFreePoolWithTag \<sigma>1 c) (insert b (hm_owned vowned m) - {c})"
      using owns_step_sys_ok [OF al(1)] owns_step_owned [OF al(1)] Some
      by (intro free_owned) (auto simp: hm_owned_def)
    then have "owns_step \<sigma>1 (insert b (hm_owned vowned m)) (free_table \<sigma>1 m) (hm_owned vowned m')"
      unfolding A o' by (simp add: free_table_def Some)
    then show ?thesis
      by (rule owns_step_trans [OF al(1) _ assms(1)])
  qed
  have "live (free_table \<sigma>1 m) d = live \<sigma> d" if "d \<in> ?V" for d
  proof -
    have "hm_block m \<noteq> Some d"
      using that vals by (auto simp: values_ok_def)
    then have "live (free_table \<sigma>1 m) d = live \<sigma>1 d"
      by (cases "hm_block m") (auto simp: free_table_def free_other)
    moreover have "d \<noteq> b"
      using that fresh by (auto simp: hm_owned_def)
    ultimately show ?thesis
      using assms(3) by (auto simp: ExAllocatePool2_def Let_def split: if_splits)
  qed
  then have "values_ok vowned vok (free_table \<sigma>1 m) (set_option (hm_block m)) (hm_map m)"
    by (intro values_ok_frame [OF vals]) blast
  then show "values_ok vowned vok (free_table \<sigma>1 m) (set_option (hm_block m')) (hm_map m')"
    using fresh by (auto simp: values_ok_def assms(4,5) hm_owned_def)
qed

lemma table_bytes_eq:
  "sys_ok \<sigma> \<Longrightarrow> table_bytes \<sigma> ssz n = Some t \<Longrightarrow> t = n + maxPadding + n * ssz \<and> t < 2 ^ 64"
  using size_t_mult [of \<sigma> n ssz] size_t_add [of \<sigma>] by (fastforce simp: table_bytes_def bind_eq_Some_conv)

theorem Rehash_spec:
  fixes H :: "'k \<Rightarrow> u64"
  assumes "sys_ok \<sigma>" "hm_ok H ssz vowned vok \<sigma> m" "groups_ok G" "2 \<le> G" "hm_size m \<le> max_load (8 * G)"
  obtains r m' \<sigma>' where "KFlatHashMap_Rehash H vo ssz \<sigma> m (8 * G) = Some (r, m', \<sigma>')"
    "hm_ok H ssz vowned vok \<sigma>' m'" "owns_step \<sigma> (hm_owned vowned m) \<sigma>' (hm_owned vowned m')"
    "hm_map m' = hm_map m"
    "r = STATUS_SUCCESS \<and> hm_cap m' = 8 * G \<and> hm_load m' = max_load (8 * G) \<or> \<not> NT_SUCCESS r \<and> m' = m"
proof -
  note own = hm_ok_owned [OF assms(2)] and tab = hm_ok_table [OF assms(2)]
  note size = table_size [OF tab]
  show thesis
  proof (cases "table_bytes \<sigma> ssz (8 * G)")
    case None
    then show ?thesis
      using assms(2) owns_step_refl [OF assms(1) own] by (intro that) (auto simp: KFlatHashMap_Rehash_def)
  next
    case (Some bytes)
    obtain a \<sigma>1 where al: "ExAllocatePool2 \<sigma> bytes = (a, \<sigma>1)"
      by (cases "ExAllocatePool2 \<sigma> bytes")
    show ?thesis
    proof (cases a)
      case None
      note an = alloc_None [OF al [unfolded None] assms(1) own]
      have "hm_ok H ssz vowned vok \<sigma>1 m"
        by (rule hm_ok_frame [OF assms(2)]) (simp add: an(2))
      then show ?thesis
        using an(1) Some al None by (intro that) (auto simp: KFlatHashMap_Rehash_def)
    next
      case (Some b)
      let ?new = "(replicate (8 * G) kEmptyCtrl, replicate (8 * G) None, \<sigma>1)"
      obtain c s where cs: "(if hm_block m \<noteq> None \<and> hm_size m \<noteq> 0 then
            migrate_groups H (vo_move vo) (vo_dtor vo) (hm_ctrl m) (hm_slots m) (hm_cap m) (group_mask (8 * G)) 0 ?new
          else Some ?new) = Some (c, s, \<sigma>1)"
        "tab_ok H G c s" "tab_map s = hm_map m"
      proof (cases "hm_block m \<noteq> None \<and> hm_size m \<noteq> 0")
        case True
        then obtain G0 where G0: "hm_cap m = 8 * G0" "tab_ok H G0 (hm_ctrl m) (hm_slots m)"
          using tab by (auto simp: table_ok_def)
        have "card (dom (tab_map (hm_slots m))) \<le> 8 * G"
          using size(1) assms(4,5) max_load_bounds(1) [of "8 * G"] by (simp add: hm_map_def)
        then obtain c s where "migrate_groups H (vo_move vo) (vo_dtor vo) (hm_ctrl m) (hm_slots m) (8 * G0)
              (group_mask (8 * G)) 0 ?new = Some (c, s, \<sigma>1)"
            "tab_ok H G c s" "tab_map s = tab_map (hm_slots m)"
          using migrate_groups_spec [OF G0(2) assms(3) _ hm_values_move [OF assms(2), unfolded hm_map_def]] by blast
        then show thesis
          using that True G0(1) by (simp add: hm_map_def)
      next
        case False
        then have "hm_map m = Map.empty"
          using size(4,5,6) by auto
        moreover note if_not_P [OF False]
        ultimately show thesis
          by (intro that [OF _ tab_empty [OF assms(3)]]) (simp_all only: tab_map_empty)
      qed
      let ?m' = "\<lparr>hm_ctrl = c, hm_slots = s, hm_cap = 8 * G, hm_size = hm_size m,
                     hm_load = max_load (8 * G), hm_mask = group_mask (8 * G), hm_block = Some b\<rparr>"
      have run: "KFlatHashMap_Rehash H vo ssz \<sigma> m (8 * G) = Some (STATUS_SUCCESS, ?m', free_table \<sigma>1 m)"
        using \<open>table_bytes \<sigma> ssz (8 * G) = Some bytes\<close> al Some cs(1) by (simp add: KFlatHashMap_Rehash_def Let_def)
      have mm: "hm_map ?m' = hm_map m"
        using cs(3) by (simp add: hm_map_def)
      note rt = replace_table [OF assms(1,2) al [unfolded Some], of ?m', OF _ mm]
      have "live (free_table \<sigma>1 m) b = Some (8 * G + maxPadding + 8 * G * ssz)"
        using rt(2) table_bytes_eq [OF assms(1) \<open>table_bytes \<sigma> ssz (8 * G) = Some bytes\<close>] by simp
      then have "table_ok H ssz (free_table \<sigma>1 m) ?m'"
        using assms(4,5) cs size(1) mm
        unfolding table_ok_def by (intro disjI2 exI [of _ G] exI [of _ b]) simp
      then show ?thesis
        using rt mm run by (intro that [OF run]) (simp_all add: hm_ok_def)
    qed
  qed
qed

section \<open>Looking up\<close>

lemma Find_spec:
  assumes "table_ok H ssz \<sigma> m"
  obtains r where "KFlatHashMap_Find H m Key = Some r"
    "\<And>i. r = Some i \<Longrightarrow> has_key (hm_slots m) Key i" "r = None \<longleftrightarrow> hm_map m Key = None"
proof (cases "hm_size m = 0")
  case True
  then show thesis
    using table_size(4) [OF assms] by (intro that [of None]) (simp_all add: KFlatHashMap_Find_def)
next
  case False
  then have "hm_cap m \<noteq> 0"
    using table_size(2,3) [OF assms] by simp
  then obtain G where G: "tab_ok H G (hm_ctrl m) (hm_slots m)" "hm_mask m = group_mask (8 * G)"
    using table_geometry [OF assms] by metis
  obtain r where r: "probe H (hm_ctrl m) (hm_slots m) (hm_mask m) Key = Some r"
      "probe_spec H G (hm_ctrl m) (hm_slots m) Key r"
    using probe_correct [OF G(1)] G(2) by metis
  show thesis
  proof (cases r)
    case (Found i)
    then have "has_key (hm_slots m) Key i"
      using r(2) by (simp add: probe_spec_def)
    moreover from this have "hm_map m Key \<noteq> None"
      unfolding hm_map_def tab_map_None by blast
    ultimately show ?thesis
      using r(1) Found False by (intro that [of "Some i"]) (simp_all add: KFlatHashMap_Find_def)
  next
    case (Vacant idx e)
    then show ?thesis
      using r False by (intro that [of None]) (simp_all add: KFlatHashMap_Find_def probe_spec_def hm_map_def tab_map_None)
  next
    case Exhausted
    then show ?thesis
      using r False by (intro that [of None]) (simp_all add: KFlatHashMap_Find_def probe_spec_def hm_map_def tab_map_None)
  qed
qed

lemma has_key_value:
  assumes "table_ok H ssz \<sigma> m" "has_key (hm_slots m) Key i"
  obtains v where "value_at m i = Some v" "hm_map m Key = Some v" "hm_slots m ! i = Some (Key, v)"
proof -
  have "hm_cap m \<noteq> 0"
    using assms by (auto simp: table_ok_def KFlatHashMap_new_def has_key_def)
  then obtain G where "tab_ok H G (hm_ctrl m) (hm_slots m)"
    using table_geometry [OF assms(1)] by metis
  then obtain v where "hm_slots m ! i = Some (Key, v)" "tab_map (hm_slots m) Key = Some v" "i < length (hm_slots m)"
    using tab_key [OF _ assms(2)] by metis
  then show thesis
    by (intro that [of v]) (simp_all add: value_at_def hm_map_def)
qed

section \<open>Inserting\<close>

lemma construct_pair_spec:
  fixes H :: "'k \<Rightarrow> u64"
  assumes "table_ok H ssz \<sigma> m" "hm_cap m = 8 * G" "tab_ok H G (hm_ctrl m) (hm_slots m)"
    and "hm_map m Key = None" "hm_size m < hm_load m" "vacant_at G (hm_ctrl m) (H Key) g p"
  obtains m' where "construct_pair H m Key x g = Some (p, m')" "table_ok H ssz \<sigma> m'"
    "hm_map m' = (hm_map m)(Key \<mapsto> x)" "hm_block m' = hm_block m" "has_key (hm_slots m') Key p"
proof -
  have absent: "\<forall>i. \<not> has_key (hm_slots m) Key i"
    using assms(4) by (simp add: hm_map_def tab_map_None)
  note put = tab_put(1,2) [OF assms(3) absent assms(6), where v = x]
  have p: "p < length (hm_ctrl m)" "p < length (hm_slots m)" "slot_of_mask g = Some p"
    using assms(3,6) by (simp_all add: vacant_at_def tab_ok_def)
  let ?m' = "m\<lparr>hm_ctrl := (hm_ctrl m)[p := h2_byte (H Key)], hm_slots := (hm_slots m)[p := Some (Key, x)],
    hm_size := hm_size m + 1\<rparr>"
  have run: "construct_pair H m Key x g = Some (p, ?m')"
    using p by (simp add: construct_pair_def)
  have mm: "hm_map ?m' = (hm_map m)(Key \<mapsto> x)"
    using put(2) by (simp add: hm_map_def)
  have "card (dom (hm_map ?m')) = Suc (hm_size m)"
    unfolding mm using assms(4) table_size(1) [OF assms(1)] by (simp add: domIff)
  moreover have "m \<noteq> KFlatHashMap_new"
    using assms(5) by auto
  ultimately have "table_ok H ssz \<sigma> ?m'"
    using assms(1,2,5) put(1) by (auto simp: table_ok_def)
  then show thesis
    using p mm by (intro that [OF run]) (simp_all add: has_key_def)
qed

lemma vals_put:
  assumes "values_ok vowned vok \<sigma> B M" "vok \<sigma> x" "vowned x \<inter> B = {}"
    and "\<And>l w. l \<noteq> k \<Longrightarrow> M l = Some w \<Longrightarrow> vowned x \<inter> vowned w = {}"
  shows "values_ok vowned vok \<sigma> B (M(k \<mapsto> x))"
proof -
  have "v = x \<or> v \<in> ran M" if "v \<in> ran (M(k \<mapsto> x))" for v
    using that by (auto simp: ran_def split: if_splits)
  moreover have "vowned v \<inter> vowned w = {}"
    if "k1 \<noteq> l1" "(M(k \<mapsto> x)) k1 = Some v" "(M(k \<mapsto> x)) l1 = Some w" for k1 l1 v w
    using that assms(1) assms(4) [of k1 v] assms(4) [of l1 w]
    unfolding values_ok_def by (auto split: if_splits)
  moreover have "vok \<sigma> v \<and> vowned v \<inter> B = {}" if "v = x \<or> v \<in> ran M" for v
    using that assms(1-3) unfolding values_ok_def by blast
  ultimately show ?thesis
    unfolding values_ok_def by blast
qed

lemma construct_ok:
  fixes H :: "'k \<Rightarrow> u64"
  assumes "hm_ok H ssz vowned vok \<sigma> m" "hm_cap m = 8 * G" "tab_ok H G (hm_ctrl m) (hm_slots m)"
    and "hm_map m Key = None" "hm_size m < hm_load m" "vacant_at G (hm_ctrl m) (H Key) g p"
    and "vok \<sigma> x" "vowned x = {}"
  obtains m' where "construct_pair H m Key x g = Some (p, m')" "hm_ok H ssz vowned vok \<sigma> m'"
    "hm_map m' = (hm_map m)(Key \<mapsto> x)" "hm_owned vowned m' = hm_owned vowned m" "has_key (hm_slots m') Key p"
proof -
  obtain m' where m': "construct_pair H m Key x g = Some (p, m')" "table_ok H ssz \<sigma> m'"
    "hm_map m' = (hm_map m)(Key \<mapsto> x)" "hm_block m' = hm_block m" "has_key (hm_slots m') Key p"
    using construct_pair_spec [OF hm_ok_table [OF assms(1)] assms(2-6)] by metis
  have "values_ok vowned vok \<sigma> (set_option (hm_block m)) ((hm_map m)(Key \<mapsto> x))"
    using assms(1,7,8) by (intro vals_put) (simp_all add: hm_ok_def)
  then have "hm_ok H ssz vowned vok \<sigma> m'"
    using m'(2-4) by (simp add: hm_ok_def)
  moreover have "hm_owned vowned m' = hm_owned vowned m"
    using m'(3,4) assms(4,8) by (simp add: hm_owned_def)
  ultimately show thesis
    using m' that by blast
qed

text \<open>
  \<open>Emplace\<close> of a value that owns no block. An existing key is reported and nothing changes;
  a new key is added; a failure leaves the map as it was.
\<close>

definition emplace_spec ::
  "sys \<Rightarrow> ('k, 'v) kmap \<Rightarrow> 'k \<Rightarrow> 'v \<Rightarrow> ntstatus \<Rightarrow> nat option \<Rightarrow> ('k, 'v) kmap \<Rightarrow> sys \<Rightarrow> bool" where
  "emplace_spec \<sigma> m Key x r i m' \<sigma>' \<longleftrightarrow>
     r = STATUS_OBJECT_NAME_EXISTS \<and> hm_map m Key \<noteq> None \<and> m' = m \<and> \<sigma>' = \<sigma> \<and>
       (\<exists>p. i = Some p \<and> has_key (hm_slots m) Key p) \<or>
     r = STATUS_SUCCESS \<and> hm_map m Key = None \<and> hm_map m' = (hm_map m)(Key \<mapsto> x) \<and>
       (\<exists>p. i = Some p \<and> has_key (hm_slots m') Key p) \<or>
     \<not> NT_SUCCESS r \<and> hm_map m Key = None \<and> i = None \<and> hm_map m' = hm_map m"

text \<open>After a successful rehash to twice the size there is a free slot, and the pair goes there.\<close>

lemma grown_construct:
  fixes H :: "'k \<Rightarrow> u64"
  assumes tab: "table_ok H ssz \<sigma> m" "hm_cap m = 8 * G" "2 \<le> G" "hm_load m = max_load (8 * G)"
    and m1: "hm_ok H ssz vowned vok \<sigma>1 m1" "hm_cap m1 = 8 * (2 * G)" "hm_map m1 = hm_map m"
    and x: "hm_map m Key = None" "vok \<sigma>1 x" "vowned x = {}"
  obtains g p m' where "vacant_loop (hm_ctrl m1) (hm_mask m1) (H Key AND hm_mask m1) = Some g"
    "construct_pair H m1 Key x g = Some (p, m')" "hm_ok H ssz vowned vok \<sigma>1 m'"
    "hm_map m' = (hm_map m)(Key \<mapsto> x)" "hm_owned vowned m' = hm_owned vowned m1" "has_key (hm_slots m') Key p"
proof -
  note tab1 = hm_ok_table [OF m1(1)]
  obtain G1 where G1: "hm_cap m1 = 8 * G1" "tab_ok H G1 (hm_ctrl m1) (hm_slots m1)"
    "hm_mask m1 = group_mask (8 * G1)" "hm_load m1 = max_load (8 * G1)" "2 \<le> G1"
    using table_geometry [OF tab1] m1(2) tab(3) by (metis mult_is_0 not_numeral_le_zero zero_neq_numeral)
  have "8 * G1 = 2 * (8 * G)"
    using G1(1) m1(2) by simp
  then have "max_load (8 * G) < hm_load m1"
    using G1(4) tab(3) max_load_double [of "8 * G"] by (simp only:)
  moreover have "hm_size m1 = hm_size m"
    using table_size(1) [OF tab(1)] table_size(1) [OF tab1] m1(3) by simp
  ultimately have less: "hm_size m1 < hm_load m1"
    using table_size(2) [OF tab(1)] tab(4) by simp
  have "card (dom (tab_map (hm_slots m1))) < 8 * G1"
    using less table_size(1) [OF tab1] G1(4,5) max_load_bounds(1) [of "8 * G1"] by (simp add: hm_map_def)
  then obtain g p where g: "vacant_loop (hm_ctrl m1) (hm_mask m1) (H Key AND hm_mask m1) = Some g"
      "vacant_at G1 (hm_ctrl m1) (H Key) g p"
    using tab_vacant [OF G1(2), of "H Key"] G1(3) by metis
  have "hm_map m1 Key = None"
    using x(1) m1(3) by simp
  from construct_ok [OF m1(1) G1(1,2) this less g(2) x(2,3)] show thesis
    using that g(1) m1(3) by metis
qed

text \<open>The new key meets a full table: the table is doubled first, which may fail.\<close>

lemma Emplace_full:
  fixes H :: "'k \<Rightarrow> u64"
  assumes sys: "sys_ok \<sigma>" "hm_ok H ssz vowned vok \<sigma> m" and x: "\<And>\<sigma>. vok \<sigma> x" "vowned x = {}"
    and cap: "hm_cap m \<noteq> 0" and full: "\<not> hm_size m < hm_load m"
    and pr: "probe H (hm_ctrl m) (hm_slots m) (hm_mask m) Key = Some (Vacant idx e)" "hm_map m Key = None"
  shows "\<exists>r i m' \<sigma>'. KFlatHashMap_Emplace H vo ssz \<sigma> m Key x = Some (r, i, m', \<sigma>') \<and>
    hm_ok H ssz vowned vok \<sigma>' m' \<and> owns_step \<sigma> (hm_owned vowned m) \<sigma>' (hm_owned vowned m') \<and>
    emplace_spec \<sigma> m Key x r i m' \<sigma>'"
proof -
  note tab = hm_ok_table [OF sys(2)]
  have refl: "owns_step \<sigma> (hm_owned vowned m) \<sigma> (hm_owned vowned m)"
    by (rule owns_step_refl [OF sys(1) hm_ok_owned [OF sys(2)]])
  obtain G where G: "groups_ok G" "2 \<le> G" "hm_cap m = 8 * G" "hm_load m = max_load (8 * G)"
    by (rule table_geometry [OF tab cap])
  show ?thesis
  proof (cases "SizeTMult \<sigma> (hm_cap m) 2")
    case None
    then show ?thesis
      using sys(2) cap pr full refl by (simp add: KFlatHashMap_Emplace_def emplace_spec_def)
  next
    case (Some n)
    have n: "n = 8 * (2 * G)" "n < 2 ^ 64"
      using size_t_mult [OF sys(1) Some] G(3) by simp_all
    have "groups_ok (2 * G)"
      using G(1) n by (intro groups_ok_double) simp_all
    moreover have "hm_size m \<le> max_load (8 * (2 * G))"
      using table_size(2) [OF tab] G(2,4) max_load_double [of "8 * G"] by simp
    ultimately obtain r1 m1 \<sigma>1 where re: "KFlatHashMap_Rehash H vo ssz \<sigma> m (8 * (2 * G)) = Some (r1, m1, \<sigma>1)"
        "hm_ok H ssz vowned vok \<sigma>1 m1" "owns_step \<sigma> (hm_owned vowned m) \<sigma>1 (hm_owned vowned m1)"
        "hm_map m1 = hm_map m"
        "r1 = STATUS_SUCCESS \<and> hm_cap m1 = 8 * (2 * G) \<and> hm_load m1 = max_load (8 * (2 * G)) \<or> \<not> NT_SUCCESS r1 \<and> m1 = m"
      using Rehash_spec [OF sys, of "2 * G"] G(2) by auto
    show ?thesis
    proof (cases "NT_SUCCESS r1")
      case False
      then show ?thesis
        using cap pr full Some n(1) re by (simp add: KFlatHashMap_Emplace_def emplace_spec_def)
    next
      case True
      then have m1: "r1 = STATUS_SUCCESS" "hm_cap m1 = 8 * (2 * G)"
        using re(5) by simp_all
      obtain g p m' where "vacant_loop (hm_ctrl m1) (hm_mask m1) (H Key AND hm_mask m1) = Some g"
          "construct_pair H m1 Key x g = Some (p, m')" "hm_ok H ssz vowned vok \<sigma>1 m'"
          "hm_map m' = (hm_map m)(Key \<mapsto> x)" "hm_owned vowned m' = hm_owned vowned m1" "has_key (hm_slots m') Key p"
        by (rule grown_construct [OF tab G(3,2,4) re(2) m1(2) re(4) pr(2) x])
      then show ?thesis
        using cap pr full Some n(1) re m1(1) by (simp add: KFlatHashMap_Emplace_def emplace_spec_def)
    qed
  qed
qed

lemma Emplace_allocated:
  fixes H :: "'k \<Rightarrow> u64"
  assumes "sys_ok \<sigma>" "hm_ok H ssz vowned vok \<sigma> m" "\<And>\<sigma>. vok \<sigma> x" "vowned x = {}" "hm_cap m \<noteq> 0"
  shows "\<exists>r i m' \<sigma>'. KFlatHashMap_Emplace H vo ssz \<sigma> m Key x = Some (r, i, m', \<sigma>') \<and>
    hm_ok H ssz vowned vok \<sigma>' m' \<and> owns_step \<sigma> (hm_owned vowned m) \<sigma>' (hm_owned vowned m') \<and>
    emplace_spec \<sigma> m Key x r i m' \<sigma>'"
proof -
  note tab = hm_ok_table [OF assms(2)]
  have refl: "owns_step \<sigma> (hm_owned vowned m) \<sigma> (hm_owned vowned m)"
    by (rule owns_step_refl [OF assms(1) hm_ok_owned [OF assms(2)]])
  obtain G where G: "2 \<le> G" "hm_cap m = 8 * G" "tab_ok H G (hm_ctrl m) (hm_slots m)"
    "hm_mask m = group_mask (8 * G)" "hm_load m = max_load (8 * G)"
    by (rule table_geometry [OF tab assms(5)])
  obtain pr where pr: "probe H (hm_ctrl m) (hm_slots m) (hm_mask m) Key = Some pr"
      "probe_spec H G (hm_ctrl m) (hm_slots m) Key pr"
    using probe_correct [OF G(3)] G(4) by metis
  show ?thesis
  proof (cases pr)
    case (Found p)
    then have hk: "has_key (hm_slots m) Key p"
      using pr(2) by (simp add: probe_spec_def)
    then have "hm_map m Key \<noteq> None"
      unfolding hm_map_def tab_map_None by blast
    then show ?thesis
      using assms(2,5) pr(1) Found refl hk by (simp add: KFlatHashMap_Emplace_def emplace_spec_def)
  next
    case Exhausted
    have "max_load (8 * G) < 8 * G"
      using G(1) by (intro max_load_bounds) simp
    then have "card (dom (tab_map (hm_slots m))) < 8 * G"
      using table_size(1,2) [OF tab] G(5) by (simp add: hm_map_def)
    then show ?thesis
      using tab_room [OF G(3)] pr(2) Exhausted unfolding probe_spec_def by auto
  next
    case (Vacant idx e)
    then have none: "hm_map m Key = None"
      using pr(2) by (simp add: probe_spec_def hm_map_def tab_map_None)
    obtain p where p: "vacant_at G (hm_ctrl m) (H Key) (idx, e) p"
      using pr(2) Vacant by (auto simp: probe_spec_def)
    show ?thesis
    proof (cases "hm_size m < hm_load m")
      case True
      obtain m' where "construct_pair H m Key x (idx, e) = Some (p, m')" "hm_ok H ssz vowned vok \<sigma> m'"
          "hm_map m' = (hm_map m)(Key \<mapsto> x)" "hm_owned vowned m' = hm_owned vowned m" "has_key (hm_slots m') Key p"
        by (rule construct_ok [OF assms(2) G(2,3) none True p assms(3,4)])
      then show ?thesis
        using assms(5) pr(1) Vacant True refl none by (simp add: KFlatHashMap_Emplace_def emplace_spec_def)
    next
      case False
      from Emplace_full [OF assms this pr(1) [unfolded Vacant] none] show ?thesis .
    qed
  qed
qed

theorem Emplace_spec:
  fixes H :: "'k \<Rightarrow> u64"
  assumes "sys_ok \<sigma>" "hm_ok H ssz vowned vok \<sigma> m" "\<And>\<sigma>. vok \<sigma> x" "vowned x = {}"
  shows "\<exists>r i m' \<sigma>'. KFlatHashMap_Emplace H vo ssz \<sigma> m Key x = Some (r, i, m', \<sigma>') \<and>
    hm_ok H ssz vowned vok \<sigma>' m' \<and> owns_step \<sigma> (hm_owned vowned m) \<sigma>' (hm_owned vowned m') \<and>
    emplace_spec \<sigma> m Key x r i m' \<sigma>'"
proof (cases "hm_cap m = 0")
  case False
  then show ?thesis
    by (rule Emplace_allocated [OF assms])
next
  case True
  then have m: "m = KFlatHashMap_new"
    using table_size(6) [OF hm_ok_table [OF assms(2)]] by simp
  have g2: "groups_ok 2"
    unfolding groups_ok_def by (intro exI [of _ 1]) simp
  have sz: "hm_size m \<le> max_load (8 * 2)"
    using m by simp
  have "\<exists>r1 m1 \<sigma>1. KFlatHashMap_Rehash H vo ssz \<sigma> m (8 * 2) = Some (r1, m1, \<sigma>1) \<and>
      hm_ok H ssz vowned vok \<sigma>1 m1 \<and> owns_step \<sigma> (hm_owned vowned m) \<sigma>1 (hm_owned vowned m1) \<and>
      hm_map m1 = hm_map m \<and> (r1 = STATUS_SUCCESS \<and> hm_cap m1 = 8 * 2 \<or> \<not> NT_SUCCESS r1 \<and> m1 = m)"
    by (rule Rehash_spec [OF assms(1,2) g2 order_refl sz]) blast
  then obtain r1 m1 \<sigma>1 where re: "KFlatHashMap_Rehash H vo ssz \<sigma> m 16 = Some (r1, m1, \<sigma>1)"
      "hm_ok H ssz vowned vok \<sigma>1 m1" "owns_step \<sigma> (hm_owned vowned m) \<sigma>1 (hm_owned vowned m1)"
      "hm_map m1 = hm_map m" "r1 = STATUS_SUCCESS \<and> hm_cap m1 = 16 \<or> \<not> NT_SUCCESS r1 \<and> m1 = m"
    by auto
  show ?thesis
  proof (cases "NT_SUCCESS r1")
    case False
    then show ?thesis
      using re True m by (simp add: KFlatHashMap_Emplace_def emplace_spec_def)
  next
    case True
    then have cap: "hm_cap m1 \<noteq> 0" "r1 = STATUS_SUCCESS"
      using re(5) by auto
    then have eq: "KFlatHashMap_Emplace H vo ssz \<sigma> m Key x = KFlatHashMap_Emplace H vo ssz \<sigma>1 m1 Key x"
      using \<open>hm_cap m = 0\<close> re(1) by (simp add: KFlatHashMap_Emplace_def)
    obtain r i m' \<sigma>' where em: "KFlatHashMap_Emplace H vo ssz \<sigma>1 m1 Key x = Some (r, i, m', \<sigma>')"
        "hm_ok H ssz vowned vok \<sigma>' m'" "owns_step \<sigma>1 (hm_owned vowned m1) \<sigma>' (hm_owned vowned m')"
        "emplace_spec \<sigma>1 m1 Key x r i m' \<sigma>'"
      using Emplace_allocated [OF owns_step_sys_ok [OF re(3)] re(2) assms(3,4) cap(1)] by blast
    have "emplace_spec \<sigma> m Key x r i m' \<sigma>'"
      using em(4) re(4) m by (simp add: emplace_spec_def)
    then show ?thesis
      using eq em owns_step_trans [OF re(3) em(3) assms(1)] by metis
  qed
qed

section \<open>Writing a value\<close>

text \<open>What a map owns, split into the blocks of the value of one key and the rest.\<close>

lemma values_split:
  assumes vals: "values_ok vowned vok \<sigma> B M" and v: "M k = Some v"
  defines "R \<equiv> B \<union> \<Union> (vowned ` ran (M(k := None)))"
  shows "values_ok vowned vok \<sigma> B (M(k := None))" "B \<union> \<Union> (vowned ` ran M) = vowned v \<union> R"
    "B \<union> \<Union> (vowned ` ran (M(k \<mapsto> x))) = vowned x \<union> R" "vowned v \<inter> R = {}"
proof -
  have upd: "ran (M(k \<mapsto> x)) = insert x (ran (M(k := None)))" for x
    by (auto simp: ran_def split: if_splits)
  moreover have "M = M(k \<mapsto> v)"
    using v by auto
  ultimately have ran: "ran M = insert v (ran (M(k := None)))"
    by metis
  show "B \<union> \<Union> (vowned ` ran M) = vowned v \<union> R" "B \<union> \<Union> (vowned ` ran (M(k \<mapsto> x))) = vowned x \<union> R"
    unfolding upd ran R_def by auto
  show "values_ok vowned vok \<sigma> B (M(k := None))"
    using vals unfolding values_ok_def by (auto simp: ran_def split: if_splits)
  have "vowned v \<inter> vowned u = {}" if u: "u \<in> ran (M(k := None))" for u
  proof -
    obtain l where "l \<noteq> k" "M l = Some u"
      using u by (auto simp: ran_def split: if_splits)
    then show ?thesis
      using vals v unfolding values_ok_def by blast
  qed
  moreover have "vowned v \<inter> B = {}"
    using vals v unfolding values_ok_def by (blast intro: ranI)
  ultimately show "vowned v \<inter> R = {}"
    unfolding R_def by blast
qed

lemma values_replace:
  assumes vals: "values_ok vowned vok \<sigma> B M" and v: "M k = Some v"
    and sys: "sys_ok \<sigma>" "B \<union> \<Union> (vowned ` ran M) \<subseteq> dom (live \<sigma>)"
    and step: "owns_step \<sigma> (vowned v) \<sigma>' (vowned x)" and x: "vok \<sigma>' x"
  shows "values_ok vowned vok \<sigma>' B (M(k \<mapsto> x))"
    and "owns_step \<sigma> (B \<union> \<Union> (vowned ` ran M)) \<sigma>' (B \<union> \<Union> (vowned ` ran (M(k \<mapsto> x))))"
    and "b \<in> B \<Longrightarrow> live \<sigma>' b = live \<sigma> b"
proof -
  define R where "R = B \<union> \<Union> (vowned ` ran (M(k := None)))"
  note split = values_split [where M = M and k = k, OF vals v, folded R_def]
  have own: "R \<subseteq> dom (live \<sigma>)"
    using sys(2) split(2) by blast
  note fr = owns_step_frame [OF step sys(1) own split(4)]
  show "owns_step \<sigma> (B \<union> \<Union> (vowned ` ran M)) \<sigma>' (B \<union> \<Union> (vowned ` ran (M(k \<mapsto> x))))"
    unfolding split(2,3) by (rule owns_step_widen [OF step sys(1) own split(4)])
  have B: "B \<subseteq> R" "vowned u \<subseteq> R" if "(M(k := None)) l = Some u" for l u
    using ranI [of "M(k := None)" l u, OF that] unfolding R_def by blast+
  show "b \<in> B \<Longrightarrow> live \<sigma>' b = live \<sigma> b"
    using fr(3) by (simp add: R_def)
  have "values_ok vowned vok \<sigma>' B (M(k := None))"
    using fr(3) by (intro values_ok_frame [OF split(1)]) (auto simp: R_def)
  then have "values_ok vowned vok \<sigma>' B ((M(k := None))(k \<mapsto> x))"
  proof (rule vals_put [OF _ x])
    show "vowned x \<inter> B = {}"
      using fr(2) unfolding R_def by blast
    show "vowned x \<inter> vowned u = {}" if "l \<noteq> k" "(M(k := None)) l = Some u" for l u
      using fr(2) B(2) [OF that(2)] by blast
  qed
  then show "values_ok vowned vok \<sigma>' B (M(k \<mapsto> x))"
    by simp
qed

text \<open>
  A caller that has a pointer to a value may replace it, changing the blocks the value owns.
\<close>

theorem set_value_spec:
  fixes H :: "'k \<Rightarrow> u64"
  assumes "sys_ok \<sigma>" "hm_ok H ssz vowned vok \<sigma> m" "has_key (hm_slots m) Key p" "hm_map m Key = Some v"
    and "owns_step \<sigma> (vowned v) \<sigma>' (vowned x)" "vok \<sigma>' x"
  obtains m' where "set_value_at m p x = Some m'" "hm_ok H ssz vowned vok \<sigma>' m'"
    "hm_map m' = (hm_map m)(Key \<mapsto> x)" "owns_step \<sigma> (hm_owned vowned m) \<sigma>' (hm_owned vowned m')"
proof -
  note tab = hm_ok_table [OF assms(2)]
  obtain w where w: "hm_map m Key = Some w" "hm_slots m ! p = Some (Key, w)"
    by (rule has_key_value [OF tab assms(3)])
  have p: "p < length (hm_slots m)"
    using assms(3) by (simp add: has_key_def)
  let ?m' = "m\<lparr>hm_slots := (hm_slots m)[p := Some (Key, x)]\<rparr>"
  have run: "set_value_at m p x = Some ?m'"
    using p w(2) by (simp add: set_value_at_def)
  have cap: "hm_cap m \<noteq> 0"
    using tab p by (auto simp: table_ok_def KFlatHashMap_new_def)
  obtain G where G: "hm_cap m = 8 * G" "tab_ok H G (hm_ctrl m) (hm_slots m)"
    by (rule table_geometry [OF tab cap])
  note up = tab_map_update [OF G(2) assms(3), of x]
  have mm: "hm_map ?m' = (hm_map m)(Key \<mapsto> x)"
    using up(2) by (simp add: hm_map_def)
  have "values_ok vowned vok \<sigma> (set_option (hm_block m)) (hm_map m)"
    using assms(2) by (simp add: hm_ok_def)
  note new = values_replace [OF this assms(4,1) hm_ok_owned [OF assms(2), unfolded hm_owned_def] assms(5,6)]
  have "table_ok H ssz \<sigma>' ?m'"
  proof -
    obtain b where b: "hm_block m = Some b" "live \<sigma> b = Some (8 * G + maxPadding + 8 * G * ssz)" "2 \<le> G"
        "hm_mask m = group_mask (8 * G)" "hm_load m = max_load (8 * G)"
      using tab cap G(1) by (auto simp: table_ok_def)
    have "live \<sigma>' b = live \<sigma> b"
      using new(3) b(1) by auto
    moreover have "card (dom (hm_map ?m')) = hm_size m"
      unfolding mm using assms(4) table_size(1) [OF tab] by (simp add: insert_absorb domI)
    ultimately show ?thesis
      using up(1) b G(1) table_size(2) [OF tab] unfolding table_ok_def
      by (intro disjI2 exI [of _ G] exI [of _ b]) simp
  qed
  then have "hm_ok H ssz vowned vok \<sigma>' ?m'"
    using new(1) by (simp add: hm_ok_def mm)
  moreover have "owns_step \<sigma> (hm_owned vowned m) \<sigma>' (hm_owned vowned ?m')"
    using new(2) by (simp add: hm_owned_def mm)
  ultimately show thesis
    using mm by (intro that [OF run])
qed

section \<open>Destroying, clearing, moving\<close>

lemma fold_dtor:
  fixes es :: "('k \<times> 'v) list"
  shows "sys_ok \<sigma> \<Longrightarrow> distinct (map fst es) \<Longrightarrow> \<forall>kv \<in> set es. vok \<sigma> (snd kv) \<Longrightarrow>
    \<forall>e \<in> set es. \<forall>f \<in> set es. fst e \<noteq> fst f \<longrightarrow> vowned (snd e) \<inter> vowned (snd f) = {} \<Longrightarrow>
    owns_step \<sigma> (\<Union>kv \<in> set es. vowned (snd kv)) (fold (\<lambda>kv \<sigma>. vo_dtor vo \<sigma> (snd kv)) es \<sigma>) {}"
proof (induction es arbitrary: \<sigma>)
  case Nil
  then show ?case by (simp add: owns_step_refl)
next
  case (Cons e es)
  let ?B = "\<Union>kv \<in> set es. vowned (snd kv)" and ?\<sigma> = "vo_dtor vo \<sigma> (snd e)"
  have st: "owns_step \<sigma> (vowned (snd e)) ?\<sigma> {}"
    using Cons.prems by (intro dtor_owns) simp_all
  have B: "?B \<subseteq> dom (live \<sigma>)"
  proof (rule UN_least)
    fix kv assume "kv \<in> set es"
    then show "vowned (snd kv) \<subseteq> dom (live \<sigma>)"
      using Cons.prems(3) by (intro vok_owned) simp
  qed
  have disj: "vowned (snd e) \<inter> ?B = {}"
  proof -
    have "vowned (snd e) \<inter> vowned (snd f) = {}" if "f \<in> set es" for f
    proof -
      have "fst e \<noteq> fst f"
        using Cons.prems(2) that by auto
      then show ?thesis
        using Cons.prems(4) that by simp
    qed
    then show ?thesis by blast
  qed
  note fr = owns_step_frame [OF st Cons.prems(1) B disj]
  have "vok ?\<sigma> (snd kv)" if "kv \<in> set es" for kv
  proof (rule vok_frame)
    show "vok \<sigma> (snd kv)"
      using Cons.prems(3) that by simp
    show "\<forall>b \<in> vowned (snd kv). live ?\<sigma> b = live \<sigma> b"
      using fr(3) that by blast
  qed
  then have "owns_step ?\<sigma> ?B (fold (\<lambda>kv \<sigma>. vo_dtor vo \<sigma> (snd kv)) es ?\<sigma>) {}"
    using Cons.prems owns_step_sys_ok [OF st] by (intro Cons.IH) simp_all
  moreover have "owns_step \<sigma> (vowned (snd e) \<union> ?B) ?\<sigma> ?B"
    using owns_step_widen [OF st Cons.prems(1) B disj] by simp
  ultimately have "owns_step \<sigma> (vowned (snd e) \<union> ?B) (fold (\<lambda>kv \<sigma>. vo_dtor vo \<sigma> (snd kv)) es ?\<sigma>) {}"
    using owns_step_trans Cons.prems(1) by blast
  then show ?case by simp
qed

lemma DestroyElements_spec:
  assumes "sys_ok \<sigma>" "hm_ok H ssz vowned vok \<sigma> m"
  obtains \<sigma>' where "KFlatHashMap_DestroyElements vo \<sigma> m = Some \<sigma>'"
    "owns_step \<sigma> (\<Union> (vowned ` ran (hm_map m))) \<sigma>' {}"
proof (cases "hm_block m \<noteq> None \<and> hm_size m \<noteq> 0")
  case False
  then have "hm_map m = Map.empty"
    using table_size(4-6) [OF hm_ok_table [OF assms(2)]] by auto
  then show thesis
    using False owns_step_refl [OF assms(1), of "{}"] by (intro that [of \<sigma>]) (auto simp: KFlatHashMap_DestroyElements_def)
next
  case True
  note tab = hm_ok_table [OF assms(2)]
  have "hm_cap m \<noteq> 0"
    using True table_size(5) [OF tab] by simp
  then obtain G where G: "hm_cap m = 8 * G" "tab_ok H G (hm_ctrl m) (hm_slots m)"
    using table_geometry [OF tab] by metis
  let ?es = "entries (hm_slots m)"
  have de: "distinct (map fst ?es)"
    using G(2) by (intro distinct_entries) (simp add: tab_ok_def)
  have val: "hm_map m (fst e) = Some (snd e)" if "e \<in> set ?es" for e
    using that de by (simp add: hm_map_def tab_map_def)
  have ran: "ran (hm_map m) = snd ` set ?es"
    using de by (simp add: hm_map_def tab_map_def ran_distinct)
  have vals: "values_ok vowned vok \<sigma> (set_option (hm_block m)) (hm_map m)"
    using assms(2) by (simp add: hm_ok_def)
  have "owns_step \<sigma> (\<Union>kv \<in> set ?es. vowned (snd kv)) (fold (\<lambda>kv \<sigma>. vo_dtor vo \<sigma> (snd kv)) ?es \<sigma>) {}"
  proof (rule fold_dtor [OF assms(1) de])
    show "\<forall>kv \<in> set ?es. vok \<sigma> (snd kv)"
      using vals ran by (simp add: values_ok_def)
    show "\<forall>e \<in> set ?es. \<forall>f \<in> set ?es. fst e \<noteq> fst f \<longrightarrow> vowned (snd e) \<inter> vowned (snd f) = {}"
      using vals val unfolding values_ok_def by blast
  qed
  moreover have "(\<Union>kv \<in> set ?es. vowned (snd kv)) = \<Union> (vowned ` ran (hm_map m))"
    by (simp add: ran image_image)
  moreover have "KFlatHashMap_DestroyElements vo \<sigma> m = Some (fold (\<lambda>kv \<sigma>. vo_dtor vo \<sigma> (snd kv)) ?es \<sigma>)"
    using True G(1) destroy_groups_fold [OF G(2), of 0] by (simp add: KFlatHashMap_DestroyElements_def)
  ultimately show thesis
    using that by simp
qed

lemma block_after_destroy:
  assumes "sys_ok \<sigma>" "hm_ok H ssz vowned vok \<sigma> m" "owns_step \<sigma> (\<Union> (vowned ` ran (hm_map m))) \<sigma>' {}"
  shows "owns_step \<sigma> (hm_owned vowned m) \<sigma>' (set_option (hm_block m))"
    "\<forall>b \<in> set_option (hm_block m). live \<sigma>' b = live \<sigma> b"
proof -
  let ?V = "\<Union> (vowned ` ran (hm_map m))" and ?B = "set_option (hm_block m)"
  have B: "?B \<subseteq> dom (live \<sigma>)"
    using hm_ok_owned [OF assms(2)] by (simp add: hm_owned_def)
  have disj: "?V \<inter> ?B = {}"
    using assms(2) unfolding hm_ok_def values_ok_def by blast
  show "owns_step \<sigma> (hm_owned vowned m) \<sigma>' ?B"
    using owns_step_widen [OF assms(3,1) B disj] by (simp add: hm_owned_def Un_commute)
  show "\<forall>b \<in> ?B. live \<sigma>' b = live \<sigma> b"
    by (rule owns_step_frame(3) [OF assms(3,1) B disj])
qed

theorem destroy_spec:
  assumes "sys_ok \<sigma>" "hm_ok H ssz vowned vok \<sigma> m"
  obtains \<sigma>' where "KFlatHashMap_destroy vo \<sigma> m = Some \<sigma>'" "owns_step \<sigma> (hm_owned vowned m) \<sigma>' {}"
proof -
  obtain \<sigma>1 where d: "KFlatHashMap_DestroyElements vo \<sigma> m = Some \<sigma>1"
      "owns_step \<sigma> (\<Union> (vowned ` ran (hm_map m))) \<sigma>1 {}"
    by (rule DestroyElements_spec [OF assms])
  note b = block_after_destroy(1) [OF assms d(2)]
  have "owns_step \<sigma>1 (set_option (hm_block m)) (free_table \<sigma>1 m) {}"
    using owns_step_sys_ok [OF b] owns_step_owned [OF b] free_owned [of \<sigma>1 "set_option (hm_block m)"]
    by (cases "hm_block m") (simp_all add: free_table_def owns_step_refl)
  then have "owns_step \<sigma> (hm_owned vowned m) (free_table \<sigma>1 m) {}"
    by (rule owns_step_trans [OF b _ assms(1)])
  then show thesis
    using d(1) by (intro that) (simp_all add: KFlatHashMap_destroy_def)
qed

theorem Clear_spec:
  assumes "sys_ok \<sigma>" "hm_ok H ssz vowned vok \<sigma> m"
  obtains m' \<sigma>' where "KFlatHashMap_Clear vo \<sigma> m = Some (m', \<sigma>')" "hm_ok H ssz vowned vok \<sigma>' m'"
    "hm_map m' = Map.empty" "owns_step \<sigma> (hm_owned vowned m) \<sigma>' (hm_owned vowned m')"
    "hm_cap m' = hm_cap m" "hm_block m' = hm_block m"
proof (cases "hm_block m \<noteq> None \<and> hm_size m \<noteq> 0")
  case False
  then have "hm_map m = Map.empty" "m\<lparr>hm_size := 0\<rparr> = m"
    using table_size(4-6) [OF hm_ok_table [OF assms(2)]] by (auto simp: KFlatHashMap_new_def)
  then show thesis
    using False assms(2) owns_step_refl [OF assms(1) hm_ok_owned [OF assms(2)]]
    by (intro that [of m \<sigma>]) (auto simp: KFlatHashMap_Clear_def)
next
  case True
  note tab = hm_ok_table [OF assms(2)]
  obtain \<sigma>1 where d: "KFlatHashMap_DestroyElements vo \<sigma> m = Some \<sigma>1"
      "owns_step \<sigma> (\<Union> (vowned ` ran (hm_map m))) \<sigma>1 {}"
    by (rule DestroyElements_spec [OF assms])
  note b = block_after_destroy [OF assms d(2)]
  let ?m' = "m\<lparr>hm_ctrl := replicate (hm_cap m) kEmptyCtrl, hm_slots := replicate (hm_cap m) None, hm_size := 0\<rparr>"
  have mm: "hm_map ?m' = Map.empty"
    by (simp add: hm_map_def)
  have "table_ok H ssz \<sigma>1 ?m'"
  proof -
    obtain G bl where G: "2 \<le> G" "hm_cap m = 8 * G" "tab_ok H G (hm_ctrl m) (hm_slots m)"
        "hm_mask m = group_mask (8 * G)" "hm_load m = max_load (8 * G)"
        "hm_block m = Some bl" "live \<sigma> bl = Some (8 * G + maxPadding + 8 * G * ssz)"
      using tab True by (auto simp: table_ok_def)
    have "live \<sigma>1 bl = live \<sigma> bl"
      using b(2) G(6) by simp
    then show ?thesis
      using G tab_empty [of G H] unfolding table_ok_def mm
      by (intro disjI2 exI [of _ G] exI [of _ bl]) (simp add: tab_ok_def)
  qed
  then have "hm_ok H ssz vowned vok \<sigma>1 ?m'"
    by (simp add: hm_ok_def mm)
  moreover have "hm_owned vowned ?m' = set_option (hm_block m)"
    by (simp add: hm_owned_def mm)
  moreover have "KFlatHashMap_Clear vo \<sigma> m = Some (?m', \<sigma>1)"
    using True d(1) by (auto simp: KFlatHashMap_Clear_def)
  ultimately show thesis
    using b(1) mm by (intro that [of ?m' \<sigma>1]) simp_all
qed

theorem move_assign_spec:
  assumes "sys_ok \<sigma>" "hm_ok H ssz vowned vok \<sigma> m" "hm_ok H ssz vowned vok \<sigma> w"
    and "hm_owned vowned m \<inter> hm_owned vowned w = {}"
  obtains \<sigma>' where "KFlatHashMap_move_assign vo \<sigma> m w = Some (w, KFlatHashMap_new, \<sigma>')"
    "hm_ok H ssz vowned vok \<sigma>' w"
    "owns_step \<sigma> (hm_owned vowned m \<union> hm_owned vowned w) \<sigma>' (hm_owned vowned w)"
proof -
  obtain \<sigma>' where d: "KFlatHashMap_destroy vo \<sigma> m = Some \<sigma>'" "owns_step \<sigma> (hm_owned vowned m) \<sigma>' {}"
    by (rule destroy_spec [OF assms(1,2)])
  then have "KFlatHashMap_move_assign vo \<sigma> m w = Some (w, KFlatHashMap_new, \<sigma>')"
    by (auto simp: KFlatHashMap_destroy_def KFlatHashMap_move_assign_def KFlatHashMap_new_def bind_eq_Some_conv)
  then show thesis
    using hm_ok_step [OF assms(3) d(2) assms(1,4)]
      owns_step_widen [OF d(2) assms(1) hm_ok_owned [OF assms(3)] assms(4)] that by simp
qed

lemma move_construct_spec:
  "KFlatHashMap_move_construct m = (m, KFlatHashMap_new)"
  by (simp add: KFlatHashMap_move_construct_def KFlatHashMap_new_def)

section \<open>Reserving\<close>

text \<open>The scaled request, rounded up to a power of two: the capacity that is asked for, unless it overflows.\<close>

lemma Reserve_capacity:
  fixes m :: "('k, 'v) kmap"
  assumes sys: "sys_ok \<sigma>" and big: "\<not> n \<le> hm_load m" and sc: "SizeTMult \<sigma> n 10 = Some sc"
  shows "KFlatHashMap_Reserve H vo ssz \<sigma> m n = Some (STATUS_INTEGER_OVERFLOW, m, \<sigma>) \<or>
     (\<exists>G. groups_ok G \<and> 2 \<le> G \<and> n \<le> max_load (8 * G) \<and>
        KFlatHashMap_Reserve H vo ssz \<sigma> m n = KFlatHashMap_Rehash H vo ssz \<sigma> m (8 * G))"
proof -
  have n: "sc = n * 10" "sc < 2 ^ 64"
    using size_t_mult [OF sys sc] by simp_all
  define t where "t = (if (sc - 3) div 7 < 16 then 16 else (sc - 3) div 7)"
  have "7 * ((sc - 3) div 7) + (sc - 3) mod 7 = sc - 3" "(sc - 3) mod 7 < 7"
    by simp_all
  then have t: "16 \<le> t" "t - 1 < 2 ^ 64" "10 * n \<le> 7 * t + 9"
    using n unfolding t_def by (auto split: if_splits)
  define w where "w = (word_of_nat (t - 1) :: u64)"
  have uw: "unat w = t - 1"
    using t(2) by (simp add: w_def unat_of_nat)
  then have "w \<noteq> 0"
    using t(1) by auto
  then obtain i where i: "BitScanReverse64 w = Some i" "i < 64" "2 ^ i \<le> unat w" "unat w < 2 ^ Suc i"
    by (rule BitScanReverse64_bounds)
  have run: "KFlatHashMap_Reserve H vo ssz \<sigma> m n =
      (if i \<ge> 63 then Some (STATUS_INTEGER_OVERFLOW, m, \<sigma>) else KFlatHashMap_Rehash H vo ssz \<sigma> m (2 ^ Suc i))"
    using big sc i(1) unfolding KFlatHashMap_Reserve_def t_def w_def by (simp add: Let_def push_bit_eq_mult)
  have "3 \<le> i"
  proof (rule ccontr)
    assume "\<not> 3 \<le> i"
    then have "(2 :: nat) ^ Suc i \<le> 2 ^ 3"
      by (intro power_increasing) simp_all
    then show False
      using i(4) uw t(1) by simp
  qed
  then obtain j where j: "i = j + 3"
    using le_Suc_ex add.commute by metis
  define G where "G = (2 :: nat) ^ Suc j"
  have p: "(2 :: nat) ^ Suc i = 8 * G"
    by (simp add: j G_def power_add)
  have "t \<le> 8 * G"
    using i(4) uw t(1) unfolding p by simp
  then have "10 * n \<le> 7 * (8 * G) + 9"
    using t(3) by linarith
  then have "n \<le> max_load (8 * G)"
    unfolding max_load_eq by (metis div_le_mono nonzero_mult_div_cancel_left zero_neq_numeral)
  moreover have "groups_ok G \<and> 2 \<le> G" if "\<not> i \<ge> 63"
    using that j unfolding groups_ok_def G_def by (auto intro!: exI [of _ "Suc j"])
  ultimately show ?thesis
    using run unfolding p by (cases "i \<ge> 63") auto
qed

theorem Reserve_spec:
  fixes H :: "'k \<Rightarrow> u64"
  assumes "sys_ok \<sigma>" "hm_ok H ssz vowned vok \<sigma> m"
  obtains r m' \<sigma>' where "KFlatHashMap_Reserve H vo ssz \<sigma> m n = Some (r, m', \<sigma>')"
    "hm_ok H ssz vowned vok \<sigma>' m'" "owns_step \<sigma> (hm_owned vowned m) \<sigma>' (hm_owned vowned m')"
    "hm_map m' = hm_map m" "r = STATUS_SUCCESS \<and> n \<le> hm_load m' \<or> \<not> NT_SUCCESS r \<and> m' = m"
proof -
  have refl: "owns_step \<sigma> (hm_owned vowned m) \<sigma> (hm_owned vowned m)"
    by (rule owns_step_refl [OF assms(1) hm_ok_owned [OF assms(2)]])
  consider (enough) "n \<le> hm_load m" | (wide) "\<not> n \<le> hm_load m" "SizeTMult \<sigma> n 10 = None"
    | (overflow) "KFlatHashMap_Reserve H vo ssz \<sigma> m n = Some (STATUS_INTEGER_OVERFLOW, m, \<sigma>)"
    | (rehash) G where "\<not> n \<le> hm_load m" "groups_ok G" "2 \<le> G" "n \<le> max_load (8 * G)"
        "KFlatHashMap_Reserve H vo ssz \<sigma> m n = KFlatHashMap_Rehash H vo ssz \<sigma> m (8 * G)"
    using Reserve_capacity [OF assms(1), where n = n and m = m and H = H and ssz = ssz] by fastforce
  then show thesis
  proof cases
    case enough
    then show ?thesis
      using assms(2) refl by (intro that) (auto simp: KFlatHashMap_Reserve_def)
  next
    case wide
    then show ?thesis
      using assms(2) refl by (intro that) (auto simp: KFlatHashMap_Reserve_def)
  next
    case overflow
    then show ?thesis
      using assms(2) refl by (intro that [OF overflow]) auto
  next
    case (rehash G)
    then have "hm_size m \<le> max_load (8 * G)"
      using table_size(2) [OF hm_ok_table [OF assms(2)]] by linarith
    then obtain r m' \<sigma>' where "KFlatHashMap_Rehash H vo ssz \<sigma> m (8 * G) = Some (r, m', \<sigma>')"
        "hm_ok H ssz vowned vok \<sigma>' m'" "owns_step \<sigma> (hm_owned vowned m) \<sigma>' (hm_owned vowned m')"
        "hm_map m' = hm_map m"
        "r = STATUS_SUCCESS \<and> hm_cap m' = 8 * G \<and> hm_load m' = max_load (8 * G) \<or> \<not> NT_SUCCESS r \<and> m' = m"
      using Rehash_spec [OF assms rehash(2,3)] by metis
    then show ?thesis
      using rehash(4,5) by (intro that [of r m' \<sigma>']) auto
  qed
qed

end

section \<open>Iterating\<close>

lemma Advance_spec:
  assumes "tab_ok H G ctrl slots"
  shows "i \<le> 8 * G \<Longrightarrow> \<exists>j. AdvanceToOccupied ctrl (8 * G) i = Some j \<and> i \<le> j \<and> j \<le> 8 * G \<and>
     entries (drop i slots) = entries (drop j slots) \<and> (j < 8 * G \<longrightarrow> slots ! j \<noteq> None)"
proof (induction "8 * G - i" arbitrary: i)
  case 0
  then show ?case
    by (subst AdvanceToOccupied.simps) simp
next
  case (Suc n)
  have i: "i < 8 * G"
    using Suc.hyps(2) by simp
  have len: "length ctrl = 8 * G" "length slots = 8 * G" and so: "slot_ok H G ctrl slots i"
    using assms i by (auto simp: tab_ok_def)
  have e: "ctrl ! i = kEmptyCtrl \<longleftrightarrow> slots ! i = None"
    using so slot_bit [OF so] kEmptyCtrl_top by (auto simp: slot_ok_def split: option.splits)
  show ?case
  proof (cases "slots ! i")
    case None
    obtain j where "AdvanceToOccupied ctrl (8 * G) (Suc i) = Some j" "Suc i \<le> j" "j \<le> 8 * G"
        "entries (drop (Suc i) slots) = entries (drop j slots)" "j < 8 * G \<longrightarrow> slots ! j \<noteq> None"
      using Suc.hyps(1) [of "Suc i"] Suc.hyps(2) i by (metis Suc_diff_Suc Suc_leI diff_Suc_1)
    moreover have "AdvanceToOccupied ctrl (8 * G) i = AdvanceToOccupied ctrl (8 * G) (Suc i)"
      using i len e None by (subst AdvanceToOccupied.simps) simp
    moreover have "entries (drop i slots) = entries (drop (Suc i) slots)"
      using i len None by (simp add: drop_Cons_nth)
    ultimately show ?thesis
      by (intro exI [of _ j]) simp
  next
    case (Some kv)
    then show ?thesis
      using i len e by (intro exI [of _ i], subst AdvanceToOccupied.simps) simp
  qed
qed

lemma iterate_from_spec:
  assumes "tab_ok H G (hm_ctrl m) (hm_slots m)" "hm_cap m = 8 * G"
  shows "j \<le> 8 * G \<Longrightarrow> j < 8 * G \<longrightarrow> hm_slots m ! j \<noteq> None \<Longrightarrow>
     iterate_from m j = Some (entries (drop j (hm_slots m)))"
proof (induction "8 * G - j" arbitrary: j rule: less_induct)
  case less
  have len: "length (hm_slots m) = 8 * G"
    using assms(1) by (simp add: tab_ok_def)
  have e: "KFlatHashMap_end m = Some (8 * G)"
    by (simp add: KFlatHashMap_end_def assms(2) AdvanceToOccupied.simps)
  show ?case
  proof (cases "j = 8 * G")
    case True
    then show ?thesis
      using len e by (subst iterate_from.simps) simp
  next
    case False
    then have j: "j < 8 * G"
      using less.prems by simp
    then obtain kv where kv: "hm_slots m ! j = Some kv"
      using less.prems by auto
    obtain j' where j': "AdvanceToOccupied (hm_ctrl m) (8 * G) (Suc j) = Some j'" "Suc j \<le> j'" "j' \<le> 8 * G"
        "entries (drop (Suc j) (hm_slots m)) = entries (drop j' (hm_slots m))" "j' < 8 * G \<longrightarrow> hm_slots m ! j' \<noteq> None"
      using Advance_spec [OF assms(1), of "Suc j"] j by auto
    have "iterate_from m j' = Some (entries (drop j' (hm_slots m)))"
      using j'(2,3,5) j by (intro less.hyps) simp_all
    then show ?thesis
      using False j len kv j'(1,4) e assms(2)
      by (subst iterate_from.simps) (simp add: iterator_deref_def iterator_next_def drop_Cons_nth)
  qed
qed

text \<open>Iterating from \<open>begin\<close> to \<open>end\<close> visits each entry of the map exactly once.\<close>

theorem iterate_spec:
  assumes "table_ok H ssz \<sigma> m"
  obtains es where "iterate m = Some es" "distinct (map fst es)" "map_of es = hm_map m"
proof (cases "hm_cap m = 0")
  case True
  then have m: "m = KFlatHashMap_new"
    using table_size(6) [OF assms] by simp
  have "iterate m = Some []"
    by (simp add: m iterate_def KFlatHashMap_begin_def KFlatHashMap_end_def KFlatHashMap_new_def
        AdvanceToOccupied.simps iterate_from.simps)
  then show thesis
    using m that [of "[]"] by simp
next
  case False
  then obtain G where G: "tab_ok H G (hm_ctrl m) (hm_slots m)" "hm_cap m = 8 * G"
    using table_geometry [OF assms] by metis
  obtain j where j: "AdvanceToOccupied (hm_ctrl m) (8 * G) 0 = Some j" "j \<le> 8 * G"
      "entries (hm_slots m) = entries (drop j (hm_slots m))" "j < 8 * G \<longrightarrow> hm_slots m ! j \<noteq> None"
    using Advance_spec [OF G(1), of 0] by auto
  have "iterate m = Some (entries (hm_slots m))"
    using j iterate_from_spec [OF G j(2,4)] G(2) by (simp add: iterate_def KFlatHashMap_begin_def)
  moreover have "distinct (map fst (entries (hm_slots m)))"
    using G(1) by (intro distinct_entries) (simp add: tab_ok_def)
  ultimately show thesis
    using that by (simp add: hm_map_def tab_map_def)
qed

end
