(* ===== verification/Resources.thy ===== *)
theory Resources
  imports KVector KDeque StringArena KHashMapSpec
begin

text \<open>
  When the operations succeed. The specifications of the containers allow a failure at every
  allocation; here the allocator grants every request, and then no operation fails but for the
  limits the code states: the block table of the deque and the arithmetic of sizes.
\<close>

section \<open>An allocator that does not refuse\<close>

definition generous :: "sys \<Rightarrow> bool" where
  "generous \<sigma> \<longleftrightarrow> (\<forall>n bytes. grants \<sigma> n bytes)"

lemma generous_step: "owns_step \<sigma> A \<sigma>' A' \<Longrightarrow> generous \<sigma>' = generous \<sigma>"
  by (simp add: owns_step_def same_params_def generous_def)

lemma generous_alloc:
  assumes "generous \<sigma>"
  obtains b \<sigma>' where "ExAllocatePool2 \<sigma> bytes = (Some b, \<sigma>')"
  using assms by (simp add: generous_def ExAllocatePool2_def Let_def)

text \<open>
  The vector and the map ask for moderate sizes only: for them it is enough that requests below
  \<open>2 ^ 60\<close> bytes are granted.
\<close>

definition affords :: "sys \<Rightarrow> bool" where
  "affords \<sigma> \<longleftrightarrow> (\<forall>n bytes. bytes < 2 ^ 60 \<longrightarrow> grants \<sigma> n bytes)"

lemma generous_affords [simp]: "generous \<sigma> \<Longrightarrow> affords \<sigma>"
  by (simp add: generous_def affords_def)

lemma affords_step: "owns_step \<sigma> A \<sigma>' A' \<Longrightarrow> affords \<sigma>' = affords \<sigma>"
  by (simp add: owns_step_def same_params_def affords_def)

lemma affords_alloc:
  assumes "affords \<sigma>" "bytes < 2 ^ 60"
  obtains b \<sigma>' where "ExAllocatePool2 \<sigma> bytes = (Some b, \<sigma>')"
  using assms by (simp add: affords_def ExAllocatePool2_def Let_def)

lemma moderate:
  fixes n sz :: nat
  assumes "n < 2 ^ 42" "sz \<le> 2 ^ 16"
  shows "n * sz < 2 ^ 59" "n * sz < 2 ^ 60" "n + 127 + n * sz < 2 ^ 60"
proof -
  show "n * sz < 2 ^ 59"
    using mult_strict_mono' [of n "2 ^ 42" sz "2 ^ 17"] assms by simp
  moreover have "(2 :: nat) ^ 59 + 2 ^ 59 = 2 ^ 60" "(2 :: nat) ^ 42 + 127 < 2 ^ 59"
    by simp_all
  ultimately show "n * sz < 2 ^ 60" "n + 127 + n * sz < 2 ^ 60"
    using assms(1) by linarith+
qed

text \<open>Sizes far below the range of SIZE_T.\<close>

named_theorems small_arith

lemma small_mult [small_arith]: "sys_ok \<sigma> \<Longrightarrow> a < 2 ^ 42 \<Longrightarrow> b \<le> 2 ^ 16 \<Longrightarrow> SizeTMult \<sigma> a b = Some (a * b)"
  using mult_strict_mono' [of a "2 ^ 42" b "2 ^ 17"] by (simp add: sys_ok_def wdk_arith_def)

lemma small_add [small_arith]: "sys_ok \<sigma> \<Longrightarrow> a < 2 ^ 62 \<Longrightarrow> b < 2 ^ 62 \<Longrightarrow> SizeTAdd \<sigma> a b = Some (a + b)"
  by (simp add: sys_ok_def wdk_arith_def)

section \<open>The vector\<close>

lemma next_capacity_small:
  assumes "sys_ok \<sigma>" "kv_cap v < 2 ^ 40"
  obtains n where "KVector_ComputeNextCapacity \<sigma> v = Some n" "n < 2 ^ 42"
proof -
  let ?c = "kv_cap v"
  have h: "drop_bit 1 ?c \<le> ?c"
    by (simp add: drop_bit_eq_div)
  have c: "?c < 2 ^ 42" "?c < 2 ^ 62"
    using assms(2) by simp_all
  have "SizeTMult \<sigma> ?c 2 = Some (?c * 2)"
    by (rule small_mult [OF assms(1) c(1)]) simp
  moreover have "SizeTAdd \<sigma> ?c (drop_bit 1 ?c) = Some (?c + drop_bit 1 ?c)"
    using c(2) h by (intro small_add [OF assms(1)]) simp_all
  ultimately have "KVector_ComputeNextCapacity \<sigma> v =
      Some (if ?c < 4 then 8 else if ?c < 1024 then ?c * 2 else ?c + drop_bit 1 ?c)"
    by (simp add: KVector_ComputeNextCapacity_def)
  then show thesis
    using h assms(2) by (intro that) auto
qed

lemma Reserve_room:
  assumes "sys_ok \<sigma>" "affords \<sigma>" "sz \<le> 2 ^ 16" "n < 2 ^ 42" "KVector_Reserve sz \<sigma> v n = (r, v', \<sigma>')"
  shows "r = STATUS_SUCCESS"
proof -
  obtain b \<sigma>1 where "ExAllocatePool2 \<sigma> (n * sz) = (Some b, \<sigma>1)"
    by (rule affords_alloc [OF assms(2) moderate(2) [OF assms(4,3)]])
  then show ?thesis
    using assms(5) small_mult [OF assms(1,4,3)] by (simp add: KVector_Reserve_def split: if_splits)
qed

lemma PushBack_room:
  assumes "sys_ok \<sigma>" "affords \<sigma>" "kv_ok sz \<sigma> v" "sz \<le> 2 ^ 16" "length (kv_elems v) < 2 ^ 40"
    and "KVector_PushBack sz \<sigma> v x = (r, v', \<sigma>')"
  shows "r = STATUS_SUCCESS"
proof (cases "length (kv_elems v) < kv_cap v")
  case True
  then show ?thesis
    using assms(6) by (simp add: KVector_PushBack_def)
next
  case False
  then have "kv_cap v < 2 ^ 40"
    using assms(3,5) by (simp add: kv_ok_def)
  then obtain n where n: "KVector_ComputeNextCapacity \<sigma> v = Some n" "n < 2 ^ 42"
    using next_capacity_small [OF assms(1)] by metis
  obtain b \<sigma>1 where "ExAllocatePool2 \<sigma> (n * sz) = (Some b, \<sigma>1)"
    by (rule affords_alloc [OF assms(2) moderate(2) [OF n(2) assms(4)]])
  then show ?thesis
    using False assms(1,4,6) n by (simp add: KVector_PushBack_def KVector_GrowAndEmplace_def small_arith)
qed

lemma Insert_room:
  assumes "sys_ok \<sigma>" "affords \<sigma>" "kv_ok sz \<sigma> v" "sz \<le> 2 ^ 16" "length (kv_elems v) < 2 ^ 40"
    and "i \<le> length (kv_elems v)" "KVector_Insert triv sz \<sigma> v i x = (r, v', \<sigma>')"
  shows "r = STATUS_SUCCESS"
proof (cases "length (kv_elems v) \<ge> kv_cap v")
  case False
  then show ?thesis
    using assms(6,7) by (simp add: KVector_Insert_def Let_def)
next
  case True
  then have "kv_cap v < 2 ^ 40"
    using assms(5) by simp
  then obtain n where n: "KVector_ComputeNextCapacity \<sigma> v = Some n" "n < 2 ^ 42"
    using next_capacity_small [OF assms(1)] by metis
  obtain r1 v1 \<sigma>1 where rs: "KVector_Reserve sz \<sigma> v n = (r1, v1, \<sigma>1)"
    by (cases "KVector_Reserve sz \<sigma> v n")
  have "r1 = STATUS_SUCCESS"
    by (rule Reserve_room [OF assms(1,2,4) n(2) rs])
  then show ?thesis
    using True n(1) rs assms(6,7) by (simp add: KVector_Insert_def Let_def)
qed

section \<open>The deque\<close>

lemma EmplaceBack_granted:
  assumes "\<And>n. grants \<sigma> n (BC * sz)" "dq_ok BC sz \<sigma> q" "dq_size q < kMaxBlocks * BC"
    and "KDeque_EmplaceBack BC sz \<sigma> q x = (r, q', \<sigma>')"
  shows "r = STATUS_SUCCESS"
proof -
  obtain k where BC: "BC = 2 ^ k"
    using assms(2) by (auto simp: dq_ok_def)
  have d: "drop_bit (Log2 BC) (dq_size q) < kMaxBlocks"
    using assms(3) by (simp add: index_arith(1) [OF BC] less_mult_imp_div_less)
  obtain b \<sigma>1 where "ExAllocatePool2 \<sigma> (BC * sz) = (Some b, \<sigma>1)"
    using assms(1) by (simp add: ExAllocatePool2_def Let_def)
  then show ?thesis
    using assms(4) d by (auto simp: KDeque_EmplaceBack_def AllocateBlock_def Let_def split: if_splits option.splits)
qed

lemma EmplaceBack_room:
  assumes "sys_ok \<sigma>" "generous \<sigma>" "dq_ok BC sz \<sigma> q" "dq_size q < kMaxBlocks * BC"
    and "KDeque_EmplaceBack BC sz \<sigma> q x = (r, q', \<sigma>')"
  shows "r = STATUS_SUCCESS"
  using EmplaceBack_granted [OF _ assms(3-5)] assms(2) by (simp add: generous_def)

lemma dq_contents_length [simp]: "length (dq_contents BC q) = dq_size q"
  by (simp add: dq_contents_def)

section \<open>Stores that have room\<close>

text \<open>
  The interface of \<^theory_text>\<open>append_store\<close> with a limit below which appending cannot fail; a
  client that stays below the limit appends everything.
\<close>

locale bounded_store = append_store append contents owned ok
  for append :: "sys \<Rightarrow> 's \<Rightarrow> 'a \<Rightarrow> ntstatus \<times> 's \<times> sys"
    and contents :: "'s \<Rightarrow> 'a list"
    and owned :: "'s \<Rightarrow> nat set"
    and ok :: "sys \<Rightarrow> 's \<Rightarrow> bool" +
  fixes limit :: nat
  assumes append_room: "sys_ok \<sigma> \<Longrightarrow> generous \<sigma> \<Longrightarrow> ok \<sigma> s \<Longrightarrow> length (contents s) < limit \<Longrightarrow>
    append \<sigma> s x = (r, s', \<sigma>') \<Longrightarrow> r = STATUS_SUCCESS"
begin

lemma append_list_room:
  "sys_ok \<sigma> \<Longrightarrow> generous \<sigma> \<Longrightarrow> ok \<sigma> s \<Longrightarrow> length (contents s) + length xs \<le> limit \<Longrightarrow>
     append_list append \<sigma> s xs = (r, s', \<sigma>') \<Longrightarrow> r = STATUS_SUCCESS \<and> contents s' = contents s @ xs"
proof (induction xs arbitrary: \<sigma> s)
  case Nil
  then show ?case by simp
next
  case (Cons x xs)
  obtain r1 s1 \<sigma>1 where a: "append \<sigma> s x = (r1, s1, \<sigma>1)"
    by (cases "append \<sigma> s x")
  have r1: "r1 = STATUS_SUCCESS"
    using append_room [OF Cons.prems(1-3) _ a] Cons.prems(4) by simp
  then have c: "contents s1 = contents s @ [x]"
    using append_contents [OF Cons.prems(1,3) a] by simp
  note own = append_owns [OF Cons.prems(1,3) a]
  show ?case
    using Cons.IH [of \<sigma>1 s1] Cons.prems append_ok [OF Cons.prems(1,3) a] a r1 c
      owns_step_sys_ok [OF own] generous_step [OF own] by simp
qed

end

interpretation vector_room: bounded_store "KVector_PushBack sz" kv_elems kv_owned "\<lambda>\<sigma> v. kv_ok sz \<sigma> v \<and> sz \<le> 2 ^ 16" "2 ^ 40" for sz
proof
  fix \<sigma> \<sigma>' :: sys and s s' :: "'a kvector" and x r
  show "kv_owned s \<subseteq> dom (live \<sigma>)" if "kv_ok sz \<sigma> s \<and> sz \<le> 2 ^ 16"
    using that kv_ok_owned by blast
  show "r = STATUS_SUCCESS \<or> \<not> NT_SUCCESS r" if "KVector_PushBack sz \<sigma> s x = (r, s', \<sigma>')"
    by (rule vector.append_status [OF that])
  assume a: "sys_ok \<sigma>" "kv_ok sz \<sigma> s \<and> sz \<le> 2 ^ 16" "KVector_PushBack sz \<sigma> s x = (r, s', \<sigma>')"
  then have ok: "kv_ok sz \<sigma> s"
    by simp
  show "kv_elems s' = (if NT_SUCCESS r then kv_elems s @ [x] else kv_elems s)"
    by (rule vector.append_contents [OF a(1) ok a(3)])
  show "kv_ok sz \<sigma>' s' \<and> sz \<le> 2 ^ 16"
    using vector.append_ok [OF a(1) ok a(3)] a(2) by simp
  show "owns_step \<sigma> (kv_owned s) \<sigma>' (kv_owned s')"
    by (rule vector.append_owns [OF a(1) ok a(3)])
next
  fix \<sigma> \<sigma>' :: sys and s s' :: "'a kvector" and x r
  assume "sys_ok \<sigma>" "generous \<sigma>" "kv_ok sz \<sigma> s \<and> sz \<le> 2 ^ 16" "length (kv_elems s) < 2 ^ 40"
    "KVector_PushBack sz \<sigma> s x = (r, s', \<sigma>')"
  then show "r = STATUS_SUCCESS"
    by (blast intro: PushBack_room generous_affords)
qed

interpretation deque_room: bounded_store "KDeque_EmplaceBack BC sz" "dq_contents BC" dq_owned "dq_ok BC sz" "kMaxBlocks * BC" for BC sz
  by unfold_locales (use EmplaceBack_room in \<open>simp add: dq_contents_length\<close>)

section \<open>The string arena\<close>

lemma Allocate_room:
  fixes a :: "'c::len word arena"
  assumes "tchar_ok TYPE('c)" "sys_ok \<sigma>" "generous \<sigma>" "arena_chain \<sigma> a bs" "0 < n" "n < 2 ^ 33"
    and "Allocate \<sigma> a n = (r, a', \<sigma>')"
  shows "r \<noteq> None"
proof -
  let ?al = "aligned_length TYPE('c) n"
  note guard = allocate_sizes(1) [OF assms(1,5,6)]
  have carve: "fst (carve a1 ?al) \<noteq> None" if "arena_chain \<sigma>1 a1 cs" "Tail a1 = Some t" for a1 :: "'c word arena" and \<sigma>1 cs t
  proof -
    have "t \<in> dom (slabs a1)"
      using that last_in_set [of cs] by (auto simp: arena_chain_def last_opt_def split: if_splits)
    then show ?thesis
      using that(2) by (auto simp: carve_def)
  qed
  show ?thesis
  proof (cases "needs_slab a ?al")
    case False
    then obtain t where "Tail a = Some t"
      by (auto simp: needs_slab_def split: option.splits)
    from carve [OF assms(4) this] show ?thesis
      using assms(7) guard False by (auto simp: Allocate_def Let_def split: prod.splits)
  next
    case True
    obtain b \<sigma>1 where al: "ExAllocatePool2 \<sigma> (slab_bytes TYPE('c) ?al) = (Some b, \<sigma>1)"
      by (rule generous_alloc [OF assms(3)])
    then obtain a1 where n: "new_slab \<sigma> a ?al = (Some a1, \<sigma>1)" "Tail a1 = Some b"
      by (simp add: new_slab_def Let_def)
    obtain c where "arena_chain \<sigma>1 a1 (bs @ [c])"
      using new_slab_spec [OF assms(1,2,4,5,6) n(1)] by auto
    from carve [OF this n(2)] show ?thesis
      using assms(7) guard True n by (auto simp: Allocate_def Let_def split: prod.splits)
  qed
qed

section \<open>The map\<close>

lemma Rehash_room:
  assumes "sys_ok \<sigma>" "affords \<sigma>" "ssz \<le> 2 ^ 16" "n < 2 ^ 42"
    and "KFlatHashMap_Rehash H vo ssz \<sigma> m n = Some (r, m', \<sigma>')"
  shows "r = STATUS_SUCCESS"
proof -
  have n: "n * ssz < 2 ^ 59"
    by (rule moderate(1) [OF assms(4,3)])
  then have "table_bytes \<sigma> ssz n = Some (n + maxPadding + n * ssz)"
    using assms(1,3,4) by (simp add: table_bytes_def small_arith maxPadding_def)
  moreover obtain b \<sigma>1 where "ExAllocatePool2 \<sigma> (n + maxPadding + n * ssz) = (Some b, \<sigma>1)"
    by (rule affords_alloc [OF assms(2) moderate(3) [OF assms(4,3)], folded maxPadding_def])
  ultimately show ?thesis
    using assms(5) by (auto simp: KFlatHashMap_Rehash_def Let_def bind_eq_Some_conv)
qed

text \<open>The probe of a table below its load finds the key or a vacancy.\<close>

lemma probe_not_exhausted:
  assumes tab: "table_ok H ssz \<sigma> m" and cap: "hm_cap m \<noteq> 0"
  shows "probe H (hm_ctrl m) (hm_slots m) (hm_mask m) Key \<noteq> Some Exhausted"
proof
  assume ex: "probe H (hm_ctrl m) (hm_slots m) (hm_mask m) Key = Some Exhausted"
  obtain G where G: "2 \<le> G" "hm_cap m = 8 * G" "tab_ok H G (hm_ctrl m) (hm_slots m)"
    "hm_mask m = group_mask (8 * G)" "hm_load m = max_load (8 * G)"
    using table_geometry [OF tab cap] by metis
  have "card (dom (tab_map (hm_slots m))) < 8 * G"
    using table_size(1,2) [OF tab] G(1,5) max_load_bounds(1) [of "8 * G"] by (simp add: hm_map_def)
  moreover have "probe_spec H G (hm_ctrl m) (hm_slots m) Key Exhausted"
    using probe_correct [OF G(3)] ex G(4) by (metis option.inject)
  ultimately show False
    using tab_room [OF G(3)] unfolding probe_spec_def by auto
qed

lemma Emplace_allocated_room:
  assumes "sys_ok \<sigma>" "affords \<sigma>" "table_ok H ssz \<sigma> m" "hm_cap m \<noteq> 0" "ssz \<le> 2 ^ 16" "hm_cap m < 2 ^ 40"
    and em: "KFlatHashMap_Emplace H vo ssz \<sigma> m Key x = Some (r, i, m', \<sigma>')"
  shows "NT_SUCCESS r"
proof -
  obtain pr where pr: "probe H (hm_ctrl m) (hm_slots m) (hm_mask m) Key = Some pr" "pr \<noteq> Exhausted"
    using probe_not_exhausted [OF assms(3,4)] em assms(4) by (auto simp: KFlatHashMap_Emplace_def bind_eq_Some_conv)
  show ?thesis
  proof (cases pr)
    case (Vacant index e)
    show ?thesis
    proof (cases "hm_size m < hm_load m")
      case True
      then show ?thesis
        using em pr Vacant assms(4) by (auto simp: KFlatHashMap_Emplace_def bind_eq_Some_conv)
    next
      case False
      have mult: "SizeTMult \<sigma> (hm_cap m) 2 = Some (hm_cap m * 2)"
        using assms(6) by (intro small_mult [OF assms(1)]) simp_all
      obtain r1 m1 \<sigma>1 where re: "KFlatHashMap_Rehash H vo ssz \<sigma> m (hm_cap m * 2) = Some (r1, m1, \<sigma>1)"
        using em pr Vacant assms(4) False mult by (auto simp: KFlatHashMap_Emplace_def bind_eq_Some_conv)
      have "r1 = STATUS_SUCCESS"
        using assms(6) by (intro Rehash_room [OF assms(1,2,5) _ re]) simp
      then show ?thesis
        using em pr Vacant assms(4) False mult re by (auto simp: KFlatHashMap_Emplace_def bind_eq_Some_conv)
    qed
  qed (use em pr assms(4) in \<open>auto simp: KFlatHashMap_Emplace_def bind_eq_Some_conv\<close>)
qed

context map_value
begin

lemma Emplace_room:
  fixes H :: "'k \<Rightarrow> u64"
  assumes "sys_ok \<sigma>" "affords \<sigma>" "hm_ok H ssz vowned vok \<sigma> m" "ssz \<le> 2 ^ 16" "hm_cap m < 2 ^ 40"
    and em: "KFlatHashMap_Emplace H vo ssz \<sigma> m Key x = Some (r, i, m', \<sigma>')"
  shows "NT_SUCCESS r"
proof (cases "hm_cap m = 0")
  case False
  then show ?thesis
    using Emplace_allocated_room [OF assms(1,2) hm_ok_table [OF assms(3)] _ assms(4,5) em] by simp
next
  case True
  then have m: "m = KFlatHashMap_new"
    using table_size(6) [OF hm_ok_table [OF assms(3)]] by simp
  have g2: "groups_ok 2"
    unfolding groups_ok_def by (intro exI [of _ 1]) simp
  have sz: "hm_size m \<le> max_load (8 * 2)"
    using m by simp
  have "\<exists>r1 m1 \<sigma>1. KFlatHashMap_Rehash H vo ssz \<sigma> m (8 * 2) = Some (r1, m1, \<sigma>1) \<and>
      hm_ok H ssz vowned vok \<sigma>1 m1 \<and> owns_step \<sigma> (hm_owned vowned m) \<sigma>1 (hm_owned vowned m1) \<and>
      (r1 = STATUS_SUCCESS \<and> hm_cap m1 = 8 * 2 \<or> \<not> NT_SUCCESS r1)"
    by (rule Rehash_spec [OF assms(1,3) g2 order_refl sz]) blast
  then obtain r1 m1 \<sigma>1 where re: "KFlatHashMap_Rehash H vo ssz \<sigma> m 16 = Some (r1, m1, \<sigma>1)"
      "hm_ok H ssz vowned vok \<sigma>1 m1" "owns_step \<sigma> (hm_owned vowned m) \<sigma>1 (hm_owned vowned m1)"
      "r1 = STATUS_SUCCESS \<and> hm_cap m1 = 16 \<or> \<not> NT_SUCCESS r1"
    by auto
  have "r1 = STATUS_SUCCESS"
    by (rule Rehash_room [OF assms(1,2,4) _ re(1)]) simp
  then have cap: "hm_cap m1 = 16" "KFlatHashMap_Emplace H vo ssz \<sigma> m Key x = KFlatHashMap_Emplace H vo ssz \<sigma>1 m1 Key x"
    using re(4) True re(1) by (auto simp: KFlatHashMap_Emplace_def)
  have "affords \<sigma>1"
    using affords_step [OF re(3)] assms(2) by simp
  then show ?thesis
    using Emplace_allocated_room [OF owns_step_sys_ok [OF re(3)] _ hm_ok_table [OF re(2)] _ assms(4) _ em [unfolded cap(2)]]
      cap(1) by simp
qed

end

section \<open>How much an insertion takes\<close>

lemma Rehash_fields:
  assumes "KFlatHashMap_Rehash H vo ssz \<sigma> m n = Some (r, m', \<sigma>')"
  shows "hm_size m' = hm_size m" "NT_SUCCESS r \<and> hm_cap m' = n \<or> \<not> NT_SUCCESS r \<and> m' = m"
  using assms by (auto simp: KFlatHashMap_Rehash_def Let_def bind_eq_Some_conv split: option.splits prod.splits)

lemma construct_pair_fields:
  assumes "construct_pair H m Key x g = Some (p, m')"
  shows "hm_size m' = hm_size m + 1 \<and> hm_cap m' = hm_cap m"
  using assms by (auto simp: construct_pair_def bind_eq_Some_conv)

lemma set_value_at_fields:
  assumes "set_value_at m p x = Some m'"
  shows "hm_size m' = hm_size m" "hm_cap m' = hm_cap m"
  using assms by (auto simp: set_value_at_def bind_eq_Some_conv)

text \<open>One element more at most, and a table that doubles only when it is seven tenths full.\<close>

definition takes_little :: "('k, 'v) kmap \<Rightarrow> ('k, 'v) kmap \<Rightarrow> bool" where
  "takes_little m m' \<longleftrightarrow> hm_size m' \<le> hm_size m + 1 \<and> hm_cap m' \<le> max (hm_cap m) (32 + 4 * hm_size m)"

lemma takes_little_refl: "takes_little m m"
  by (simp add: takes_little_def)

lemma Emplace_allocated_fields:
  assumes "sys_ok \<sigma>" "hm_cap m \<noteq> 0" "KFlatHashMap_Emplace H vo ssz \<sigma> m Key x = Some (r, i, m', \<sigma>')"
  shows "hm_size m' \<le> hm_size m + 1" "hm_cap m' = hm_cap m \<or> hm_load m \<le> hm_size m \<and> hm_cap m' = hm_cap m * 2"
proof -
  note em = assms(3) [unfolded KFlatHashMap_Emplace_def if_not_P [OF assms(2)]]
  obtain pr where pr: "probe H (hm_ctrl m) (hm_slots m) (hm_mask m) Key = Some pr"
    using em by (auto simp: bind_eq_Some_conv)
  have "hm_size m' \<le> hm_size m + 1 \<and> (hm_cap m' = hm_cap m \<or> hm_load m \<le> hm_size m \<and> hm_cap m' = hm_cap m * 2)"
  proof (cases pr)
    case (Vacant index e)
    show ?thesis
    proof (cases "hm_load m \<le> hm_size m")
      case False
      then show ?thesis
        using em pr Vacant by (auto simp: bind_eq_Some_conv dest!: construct_pair_fields)
    next
      case full: True
      show ?thesis
      proof (cases "SizeTMult \<sigma> (hm_cap m) 2")
        case None
        then show ?thesis
          using em pr Vacant full by simp
      next
        case (Some n)
        then have n: "n = hm_cap m * 2"
          using size_t_mult [OF assms(1)] by blast
        obtain r1 m1 \<sigma>1 where re: "KFlatHashMap_Rehash H vo ssz \<sigma> m n = Some (r1, m1, \<sigma>1)"
          using em pr Vacant full Some by (auto simp: bind_eq_Some_conv)
        have "m' = m1 \<or> hm_size m' = hm_size m1 + 1 \<and> hm_cap m' = hm_cap m1"
          using em pr Vacant full Some re by (auto simp: bind_eq_Some_conv split: if_splits dest!: construct_pair_fields)
        then show ?thesis
          using Rehash_fields [OF re] full n by auto
      qed
    qed
  qed (use em pr in auto)
  then show "hm_size m' \<le> hm_size m + 1" "hm_cap m' = hm_cap m \<or> hm_load m \<le> hm_size m \<and> hm_cap m' = hm_cap m * 2"
    by simp_all
qed

context map_value
begin

lemma Emplace_takes_little:
  fixes H :: "'k \<Rightarrow> u64"
  assumes "sys_ok \<sigma>" "hm_ok H ssz vowned vok \<sigma> m"
    and em: "KFlatHashMap_Emplace H vo ssz \<sigma> m Key x = Some (r, i, m', \<sigma>')"
  shows "takes_little m m'"
proof (cases "hm_cap m = 0")
  case False
  obtain G where G: "2 \<le> G" "hm_cap m = 8 * G" "hm_load m = max_load (8 * G)"
    using table_geometry [OF hm_ok_table [OF assms(2)] False] by metis
  have "hm_cap m * 2 \<le> 4 * hm_size m" if "hm_load m \<le> hm_size m"
    using that G by (simp add: max_load_eq)
  then show ?thesis
    using Emplace_allocated_fields [OF assms(1) False em] by (auto simp: takes_little_def)
next
  case True
  then have m: "m = KFlatHashMap_new"
    using table_size(6) [OF hm_ok_table [OF assms(2)]] by simp
  have g2: "groups_ok 2"
    unfolding groups_ok_def by (intro exI [of _ 1]) simp
  have sz: "hm_size m \<le> max_load (8 * 2)"
    using m by simp
  have "\<exists>r1 m1 \<sigma>1. KFlatHashMap_Rehash H vo ssz \<sigma> m (8 * 2) = Some (r1, m1, \<sigma>1) \<and> sys_ok \<sigma>1"
    by (rule Rehash_spec [OF assms(1,2) g2 order_refl sz]) (blast intro: owns_step_sys_ok)
  then obtain r1 m1 \<sigma>1 where re: "KFlatHashMap_Rehash H vo ssz \<sigma> m 16 = Some (r1, m1, \<sigma>1)" "sys_ok \<sigma>1"
    by auto
  note f = Rehash_fields [OF re(1)]
  show ?thesis
  proof (cases "NT_SUCCESS r1")
    case False
    then show ?thesis
      using em True re(1) f by (simp add: KFlatHashMap_Emplace_def takes_little_def)
  next
    case ok: True
    then have "hm_cap m1 = 16" "KFlatHashMap_Emplace H vo ssz \<sigma>1 m1 Key x = Some (r, i, m', \<sigma>')"
      using em True re(1) f(2) by (simp_all add: KFlatHashMap_Emplace_def)
    from Emplace_allocated_fields [OF re(2) _ this(2)] this(1) show ?thesis
      using f(1) by (auto simp: takes_little_def)
  qed
qed

end

end
