(* ===== verification/Engine.thy ===== *)
theory Engine
  imports PatternRule KHasher Resources
begin

text \<open>
  The class \<open>KmStringPatternMatch\<close>: its state, registering a pattern, clearing, and the
  searches. The state holds the containers of the other theories; a pattern's text lives in
  the string arena and an entry refers to it by pointers. \<open>None\<close> of the option monad is a
  fault: an access outside a buffer, a dangling pointer, or a loop that does not stop.

  The parameters \<open>up\<close> (the upcase table of the platform) and \<open>csz\<close> (the size of a context
  payload) are those of the code's instantiation.
\<close>

section \<open>State\<close>

record pstring =
  psBuffer :: "ptr option"
  psLength :: nat

record 'tchar pentry =
  LiteralPrefix :: pstring
  WildcardSuffix :: pstring
  TailAnchor :: pstring
  EntryId :: nat
  ContextIndex :: nat
  MinWildcardMatchLength :: nat
  EntryScope :: wild_card_scope
  FirstLiteralChar :: 'tchar

record ('tchar, 'ctx) engine =
  m_nPatternCount :: nat
  m_nGlobalMinMatchLength :: nat
  m_bWildCardPresent :: bool
  m_bCaseInsensitive :: bool
  m_HashFilter :: "u64 list"
  m_LengthVec :: "nat kvector"
  m_StringArena :: "'tchar arena"
  m_ContextArena :: "'ctx kdeque"
  m_HashMap :: "(u64, 'tchar pentry kvector) kmap"
  m_SlowPathList :: "'tchar pentry kvector"

text \<open>Sizes of the element types in bytes, and the capacity of a block of the deque.\<close>

definition sizeof_UINT32 :: nat where "sizeof_UINT32 = 4"
definition sizeof_PatternEntry :: nat where "sizeof_PatternEntry = 72"
definition sizeof_Slot :: nat where "sizeof_Slot = 176"
definition sizeof_pointer :: nat where "sizeof_pointer = 8"
definition BlockCapacity :: nat where "BlockCapacity = 512"
definition kMaxPatterns :: nat where "kMaxPatterns = 256 * 512"
definition MAXUINT32 :: nat where "MAXUINT32 = 2 ^ 32 - 1"

definition bucket_ops :: "'a kvector vops" where
  "bucket_ops = \<lparr>vo_move = KVector_move_construct, vo_dtor = KVector_destroy\<rparr>"

definition engine_new :: "bool \<Rightarrow> ('tchar, 'ctx) engine" where
  "engine_new bCaseInsensitive =
     \<lparr>m_nPatternCount = 0, m_nGlobalMinMatchLength = MAXUINT32, m_bWildCardPresent = False,
      m_bCaseInsensitive = bCaseInsensitive, m_HashFilter = replicate 16 0, m_LengthVec = KVector_new,
      m_StringArena = KStringArena_new, m_ContextArena = KDeque_new, m_HashMap = KFlatHashMap_new,
      m_SlowPathList = KVector_new\<rparr>"

section \<open>The hash-existence filter\<close>

definition filter_set :: "u64 list \<Rightarrow> u64 \<Rightarrow> u64 list option" where
  "filter_set HashFilter hash =
     (let i = unat (drop_bit 6 hash AND 15)
      in do { w \<leftarrow> rd HashFilter i; wr HashFilter i (w OR push_bit (unat (hash AND 63)) 1) })"

definition filter_test :: "u64 list \<Rightarrow> u64 \<Rightarrow> bool option" where
  "filter_test HashFilter hash =
     map_option (\<lambda>w. bit w (unat (hash AND 63))) (rd HashFilter (unat (drop_bit 6 hash AND 15)))"

section \<open>Registering a pattern\<close>

text \<open>Reading through a \<open>PatternString\<close>.\<close>

definition read_chars :: "'c::len word arena \<Rightarrow> ptr option \<Rightarrow> nat \<Rightarrow> 'c word list option" where
  "read_chars a p n = (case p of None \<Rightarrow> if n = 0 then Some [] else None | Some q \<Rightarrow> arena_read a q n)"

definition offset :: "ptr option \<Rightarrow> nat \<Rightarrow> ptr option" where
  "offset p n = map_option (\<lambda>(b, i). (b, i + n)) p"

text \<open>
  The local variables of \<open>AddPattern\<close> once the text is parsed and stored.
\<close>

record parsed =
  pStableBuffer :: "ptr option"
  prefixUnescapedLen :: nat
  cchWildPart :: nat
  suffixMinLength :: nat
  lastWildcardEnd :: nat
  pTailBuffer :: "ptr option"
  tailUnescapedLen :: nat

text \<open>
  Storing \<open>n\<close> characters: no allocation for none, a failed allocation is \<open>Inl\<close>, and a
  successful one is filled.
\<close>

definition store_chars ::
  "sys \<Rightarrow> 'c::len word arena \<Rightarrow> nat \<Rightarrow> 'c word list \<Rightarrow> ((unit + ptr option) \<times> 'c word arena \<times> sys) option" where
  "store_chars \<sigma> a n cs =
     (if n > 0 then
        (case Allocate \<sigma> a n of
           (None, a1, \<sigma>1) \<Rightarrow> Some (Inl (), a1, \<sigma>1)
         | (Some p, a1, \<sigma>1) \<Rightarrow> do { a2 \<leftarrow> arena_write a1 p cs; Some (Inr (Some p), a2, \<sigma>1) })
      else Some (Inr None, a, \<sigma>))"

text \<open>
  The parsing phases of \<open>AddPattern\<close>: the prefix, the stable buffer, the measures of the
  wildcard part, and the tail buffer. \<open>Inl\<close> is a failed allocation.
\<close>

definition AddPattern_parse ::
  "('c::len word \<Rightarrow> 'c word) \<Rightarrow> sys \<Rightarrow> 'c word arena \<Rightarrow> bool \<Rightarrow> 'c word list \<Rightarrow>
     ((unit + parsed) \<times> 'c word arena \<times> sys) option" where
  "AddPattern_parse up \<sigma> a ci sPattern =
     (let (prefixRawLen, ulen) = parse_prefix sPattern 0 0;
          cchWild = sub32 (length sPattern) prefixRawLen
      in do {
        (r, a, \<sigma>) \<leftarrow> (if length sPattern > 0
           then store_chars \<sigma> a (add32 ulen cchWild) (stable_chars up ci sPattern prefixRawLen)
           else Some (Inr None, a, \<sigma>));
        case r of
          Inl u \<Rightarrow> Some (Inl u, a, \<sigma>)
        | Inr pStable \<Rightarrow>
            do {
              pWildSuffix \<leftarrow> (if cchWild > 0 then read_chars a (offset pStable ulen) cchWild else Some []);
              let wildEnd = last_wildcard_end pWildSuffix 0 0;
                  tailLen = tail_unescaped_len pWildSuffix wildEnd 0
              in do {
                (r, a, \<sigma>) \<leftarrow> store_chars \<sigma> a tailLen (copy_tail pWildSuffix wildEnd);
                case r of
                  Inl u \<Rightarrow> Some (Inl u, a, \<sigma>)
                | Inr pTail \<Rightarrow>
                    Some (Inr \<lparr>pStableBuffer = pStable, prefixUnescapedLen = ulen, cchWildPart = cchWild,
                      suffixMinLength = suffix_min_length pWildSuffix 0 0, lastWildcardEnd = wildEnd,
                      pTailBuffer = pTail, tailUnescapedLen = tailLen\<rparr>, a, \<sigma>)
              }
            }
      })"

definition new_entry :: "parsed \<Rightarrow> nat \<Rightarrow> nat \<Rightarrow> wild_card_scope \<Rightarrow> 'c::len word pentry" where
  "new_entry p count ctxIndex WildScope =
     \<lparr>LiteralPrefix = \<lparr>psBuffer = pStableBuffer p, psLength = prefixUnescapedLen p\<rparr>,
      WildcardSuffix = (if cchWildPart p \<noteq> 0
        then \<lparr>psBuffer = offset (pStableBuffer p) (prefixUnescapedLen p), psLength = lastWildcardEnd p\<rparr>
        else \<lparr>psBuffer = None, psLength = 0\<rparr>),
      TailAnchor = \<lparr>psBuffer = pTailBuffer p, psLength = tailUnescapedLen p\<rparr>,
      EntryId = add32 count 1, ContextIndex = ctxIndex, MinWildcardMatchLength = suffixMinLength p,
      EntryScope = WildScope, FirstLiteralChar = 0\<rparr>"

text \<open>A failure after the bookmark gives the arena back.\<close>

definition rollback ::
  "sys \<Rightarrow> ('c::len word, 'ctx) engine \<Rightarrow> bookmark \<Rightarrow> ntstatus \<Rightarrow> (ntstatus \<times> ('c word, 'ctx) engine \<times> sys) option" where
  "rollback \<sigma> e mark status =
     do { (a, \<sigma>) \<leftarrow> RevertBookmark \<sigma> (m_StringArena e) mark; Some (status, e\<lparr>m_StringArena := a\<rparr>, \<sigma>) }"

text \<open>\<open>++m_nPatternCount\<close>, the wildcard flag, and the global minimum.\<close>

definition count_pattern :: "('c, 'ctx) engine \<Rightarrow> parsed \<Rightarrow> ('c, 'ctx) engine" where
  "count_pattern e p =
     (let requiredLength = add32 (prefixUnescapedLen p) (suffixMinLength p)
      in e\<lparr>m_nPatternCount := add32 (m_nPatternCount e) 1,
           m_bWildCardPresent := (if cchWildPart p \<noteq> 0 then True else m_bWildCardPresent e),
           m_nGlobalMinMatchLength :=
             (if requiredLength < m_nGlobalMinMatchLength e then requiredLength else m_nGlobalMinMatchLength e)\<rparr>)"

text \<open>A pattern that begins with a wildcard goes to the slow-path list.\<close>

definition AddPattern_slow ::
  "sys \<Rightarrow> ('c::len word, 'ctx) engine \<Rightarrow> bookmark \<Rightarrow> parsed \<Rightarrow> 'c word pentry \<Rightarrow>
     (ntstatus \<times> ('c word, 'ctx) engine \<times> sys) option" where
  "AddPattern_slow \<sigma> e mark p newEntry =
     do {
       wild \<leftarrow> read_chars (m_StringArena e) (psBuffer (WildcardSuffix newEntry)) (lastWildcardEnd p);
       let newEntry = newEntry\<lparr>FirstLiteralChar := first_literal_char wild 0 False False\<rparr>;
           (status, slow, \<sigma>) = KVector_PushBack sizeof_PatternEntry \<sigma> (m_SlowPathList e) newEntry;
           e = e\<lparr>m_SlowPathList := slow\<rparr>
       in if \<not> NT_SUCCESS status then rollback \<sigma> e mark status
          else Some (STATUS_SUCCESS, count_pattern e p, \<sigma>)
     }"

text \<open>The first position in the length vector whose length is not smaller.\<close>

fun insert_position :: "nat list \<Rightarrow> nat \<Rightarrow> nat" where
  "insert_position [] n = 0"
| "insert_position (x # xs) n = (if x \<ge> n then 0 else Suc (insert_position xs n))"

definition insert_length :: "sys \<Rightarrow> nat kvector \<Rightarrow> nat \<Rightarrow> ntstatus \<times> nat kvector \<times> sys" where
  "insert_length \<sigma> v n =
     (let it = insert_position (kv_elems v) n
      in if it = length (kv_elems v) \<or> kv_elems v ! it \<noteq> n
         then KVector_Insert True sizeof_UINT32 \<sigma> v it n
         else (STATUS_SUCCESS, v, \<sigma>))"

text \<open>Any other pattern goes to the bucket of its prefix's hash.\<close>

definition AddPattern_fast ::
  "sys \<Rightarrow> ('c::len word, 'ctx) engine \<Rightarrow> bookmark \<Rightarrow> parsed \<Rightarrow> 'c word pentry \<Rightarrow>
     (ntstatus \<times> ('c word, 'ctx) engine \<times> sys) option" where
  "AddPattern_fast \<sigma> e mark p newEntry =
     do {
       prefix \<leftarrow> read_chars (m_StringArena e) (pStableBuffer p) (prefixUnescapedLen p);
       hash \<leftarrow> CalculateHash prefix (prefixUnescapedLen p) 0;
       let (status, lens, \<sigma>) = insert_length \<sigma> (m_LengthVec e) (prefixUnescapedLen p);
           e = e\<lparr>m_LengthVec := lens\<rparr>
       in if \<not> NT_SUCCESS status then rollback \<sigma> e mark status
          else do {
            (status, pBucket, m, \<sigma>) \<leftarrow>
              KFlatHashMap_GetOrInsert KPrecomputedHash bucket_ops sizeof_Slot KVector_new \<sigma> (m_HashMap e) hash;
            let e = e\<lparr>m_HashMap := m\<rparr>
            in if \<not> NT_SUCCESS status then rollback \<sigma> e mark status
               else do {
                 i \<leftarrow> pBucket;
                 bucket \<leftarrow> value_at m i;
                 let (status, bucket, \<sigma>) = KVector_PushBack sizeof_PatternEntry \<sigma> bucket newEntry
                 in do {
                   m \<leftarrow> set_value_at m i bucket;
                   let e = e\<lparr>m_HashMap := m\<rparr>
                   in if \<not> NT_SUCCESS status then rollback \<sigma> e mark status
                      else do {
                        f \<leftarrow> filter_set (m_HashFilter e) hash;
                        Some (STATUS_SUCCESS, (count_pattern e p)\<lparr>m_HashFilter := f\<rparr>, \<sigma>)
                      }
                 }
               }
          }
     }"

text \<open>A pattern passed by pointer and length; the null pointer is \<open>None\<close>.\<close>

definition passed :: "'a list option \<Rightarrow> nat \<Rightarrow> 'a list option" where
  "passed s n = (case s of None \<Rightarrow> if n = 0 then Some [] else None | Some b \<Rightarrow> slice b n)"

definition AddPattern ::
  "('c::len word \<Rightarrow> 'c word) \<Rightarrow> nat \<Rightarrow> sys \<Rightarrow> ('c word, 'ctx) engine \<Rightarrow> 'c word list option \<Rightarrow> nat \<Rightarrow>
     wild_card_scope \<Rightarrow> 'ctx \<Rightarrow> (ntstatus \<times> ('c word, 'ctx) engine \<times> sys) option" where
  "AddPattern up csz \<sigma> e sPattern cchPattern WildScope PatternContext =
     (if sPattern = None \<and> cchPattern > 0 \<or> cchPattern > (2 ^ 64 - 1 - 4096) div sizeof_tchar TYPE('c)
      then Some (STATUS_INVALID_PARAMETER, e, \<sigma>)
      else if m_nPatternCount e \<ge> kMaxPatterns then Some (STATUS_QUOTA_EXCEEDED, e, \<sigma>)
      else
        let mark = GetBookmark (m_StringArena e)
        in do {
          pat \<leftarrow> passed sPattern cchPattern;
          (r, a, \<sigma>) \<leftarrow> AddPattern_parse up \<sigma> (m_StringArena e) (m_bCaseInsensitive e) pat;
          let e = e\<lparr>m_StringArena := a\<rparr>
          in case r of
               Inl _ \<Rightarrow> rollback \<sigma> e mark STATUS_INSUFFICIENT_RESOURCES
             | Inr p \<Rightarrow>
                 (let (status, q, \<sigma>) = KDeque_EmplaceBack BlockCapacity csz \<sigma> (m_ContextArena e) PatternContext;
                      e = e\<lparr>m_ContextArena := q\<rparr>
                  in if \<not> NT_SUCCESS status then rollback \<sigma> e mark status
                     else
                       let ctxIndex = trunc32 (dq_size q - 1);
                           newEntry = new_entry p (m_nPatternCount e) ctxIndex WildScope
                       in if prefixUnescapedLen p = 0 \<and> cchWildPart p > 0
                          then AddPattern_slow \<sigma> e mark p newEntry
                          else AddPattern_fast \<sigma> e mark p newEntry)
        })"

section \<open>Clearing and destroying\<close>

definition engine_Clear :: "sys \<Rightarrow> ('c::len word, 'ctx) engine \<Rightarrow> (('c word, 'ctx) engine \<times> sys) option" where
  "engine_Clear \<sigma> e =
     do {
       (m, \<sigma>) \<leftarrow> KFlatHashMap_Clear bucket_ops \<sigma> (m_HashMap e);
       (a, \<sigma>) \<leftarrow> KStringArena_Clear \<sigma> (m_StringArena e);
       let (q, \<sigma>) = KDeque_Clear BlockCapacity \<sigma> (m_ContextArena e)
       in Some (e\<lparr>m_HashMap := m, m_SlowPathList := KVector_Clear (m_SlowPathList e),
                  m_LengthVec := KVector_Clear (m_LengthVec e), m_StringArena := a, m_ContextArena := q,
                  m_nPatternCount := 0, m_nGlobalMinMatchLength := MAXUINT32, m_bWildCardPresent := False,
                  m_HashFilter := replicate 16 0\<rparr>, \<sigma>)
     }"

text \<open>The members are destroyed in reverse order of their declaration.\<close>

definition engine_destroy :: "sys \<Rightarrow> ('c::len word, 'ctx) engine \<Rightarrow> sys option" where
  "engine_destroy \<sigma> e =
     (let \<sigma> = KVector_destroy \<sigma> (m_SlowPathList e)
      in do {
        \<sigma> \<leftarrow> KFlatHashMap_destroy bucket_ops \<sigma> (m_HashMap e);
        let \<sigma> = KDeque_destroy BlockCapacity \<sigma> (m_ContextArena e)
        in do {
          (a, \<sigma>) \<leftarrow> KStringArena_Clear \<sigma> (m_StringArena e);
          Some (KVector_destroy \<sigma> (m_LengthVec e))
        }
      })"

end
