(* ===== verification/EngineSearch.thy ===== *)
theory EngineSearch
  imports Engine
begin

text \<open>
  The searches of \<open>KmStringPatternMatch\<close>: the length filters, the rolling prefix hash, the
  bucket loop, the slow path, and the two collectors. A collector is a function that takes
  its state and the address of a matching context and says whether to stop.
\<close>

section \<open>The prefix hash of the text\<close>

text \<open>Packing \<open>n\<close> folded characters from \<open>p\<close> on, one by one.\<close>

function or_folded :: "('c::len word \<Rightarrow> 'c word) \<Rightarrow> bool \<Rightarrow> 'c word list \<Rightarrow> nat \<Rightarrow> nat \<Rightarrow> nat \<Rightarrow> u64 \<Rightarrow> u64 option" where
  "or_folded up ci sText p j n acc =
     (if j < n then
        do { c \<leftarrow> rd sText (p + j);
             or_folded up ci sText p (j + 1) n
               (acc OR push_bit (j * LENGTH('c)) (CharToUint64 (fold_char up ci c))) }
      else Some acc)"
  by pat_completeness auto
termination by (relation "measure (\<lambda>(up, ci, sText, p, j, n, acc). n - j)") auto

declare or_folded.simps [simp del]

definition folded_block :: "('c::len word \<Rightarrow> 'c word) \<Rightarrow> bool \<Rightarrow> 'c word list \<Rightarrow> nat \<Rightarrow> u64 option" where
  "folded_block up ci sText currentChunk =
     do {
       w \<leftarrow> load64 sText (currentChunk * chars_per_block TYPE('c));
       if ci then
         (if IsAsciiSWAR TYPE('c) w then Some (ToUpperSWAR TYPE('c) w)
          else or_folded up True sText (currentChunk * chars_per_block TYPE('c)) 0 (chars_per_block TYPE('c)) 0)
       else Some w
     }"

function advance_chunks ::
  "('c::len word \<Rightarrow> 'c word) \<Rightarrow> bool \<Rightarrow> 'c word list \<Rightarrow> nat \<Rightarrow> nat \<Rightarrow> u64 \<Rightarrow> (nat \<times> u64) option" where
  "advance_chunks up ci sText targetChunks currentChunk chunkHash =
     (if currentChunk < targetChunks then
        do { w \<leftarrow> folded_block up ci sText currentChunk;
             advance_chunks up ci sText targetChunks (currentChunk + 1) (Mix64 (chunkHash XOR w)) }
      else Some (currentChunk, chunkHash))"
  by pat_completeness auto
termination
  by (relation "measure (\<lambda>(up, ci, sText, targetChunks, currentChunk, chunkHash). targetChunks - currentChunk)") auto

declare advance_chunks.simps [simp del]

text \<open>
  The hash of the first \<open>cchLength\<close> characters, and the state of the rolling hash after it.
\<close>

definition prefix_hash ::
  "('c::len word \<Rightarrow> 'c word) \<Rightarrow> bool \<Rightarrow> 'c word list \<Rightarrow> nat \<Rightarrow> nat \<Rightarrow> u64 \<Rightarrow> (u64 \<times> nat \<times> u64) option" where
  "prefix_hash up ci sText cchLength currentChunk chunkHash =
     (let targetChunks = (cchLength * (LENGTH('c) div 8)) div 8
      in do {
        (currentChunk, chunkHash) \<leftarrow> advance_chunks up ci sText targetChunks currentChunk chunkHash;
        let remainingChars = sub32 cchLength (targetChunks * chars_per_block TYPE('c))
        in if remainingChars > 0 then
             do {
               tail \<leftarrow> or_folded up ci sText (targetChunks * chars_per_block TYPE('c)) 0 remainingChars 0;
               Some (Mix64 (chunkHash XOR tail), currentChunk, chunkHash)
             }
           else Some (chunkHash, currentChunk, chunkHash)
      })"

section \<open>The entries of a bucket and of the slow path\<close>

text \<open>What an entry's pointers read as.\<close>

definition view_of :: "'c::len word arena \<Rightarrow> 'c word pentry \<Rightarrow> 'c word view option" where
  "view_of a en =
     do {
       p \<leftarrow> read_chars a (psBuffer (LiteralPrefix en)) (psLength (LiteralPrefix en));
       w \<leftarrow> read_chars a (psBuffer (WildcardSuffix en)) (psLength (WildcardSuffix en));
       t \<leftarrow> read_chars a (psBuffer (TailAnchor en)) (psLength (TailAnchor en));
       Some \<lparr>vPrefix = p, vWild = w, vTail = t, vMin = MinWildcardMatchLength en, vScope = EntryScope en,
             vFirst = FirstLiteralChar en\<rparr>
     }"

type_synonym 's collector = "'s \<Rightarrow> nat \<times> nat \<Rightarrow> bool \<times> 's"

text \<open>\<open>if (check) { if (Collector(&m_ContextArena[...])) return true; }\<close> for each entry.\<close>

fun entry_loop ::
  "('c::len word, 'ctx) engine \<Rightarrow> ('c word view \<Rightarrow> bool option) \<Rightarrow> 's collector \<Rightarrow> 'c word pentry list \<Rightarrow> 's \<Rightarrow>
     (bool \<times> 's) option" where
  "entry_loop e check Collector [] s = Some (False, s)"
| "entry_loop e check Collector (en # ens) s =
     do {
       v \<leftarrow> view_of (m_StringArena e) en;
       hit \<leftarrow> check v;
       if hit then
         do {
           p \<leftarrow> KDeque_address BlockCapacity (m_ContextArena e) (ContextIndex en);
           let (stop, s) = Collector s p
           in if stop then Some (True, s) else entry_loop e check Collector ens s
         }
       else entry_loop e check Collector ens s
     }"

definition ProcessSlowPath ::
  "('c::len word \<Rightarrow> 'c word) \<Rightarrow> ('c word, 'ctx) engine \<Rightarrow> 'c word list \<Rightarrow> 's collector \<Rightarrow> 's \<Rightarrow> (bool \<times> 's) option" where
  "ProcessSlowPath up e sText Collector s =
     (if KVector_Size (m_SlowPathList e) = 0 then Some (False, s)
      else entry_loop e (\<lambda>v. slow_check up (m_bCaseInsensitive e) v sText) Collector
             (kv_elems (m_SlowPathList e)) s)"

section \<open>The core search\<close>

text \<open>The first position whose length is not smaller than the text's, by bisection.\<close>

function lower_bound :: "nat list \<Rightarrow> nat \<Rightarrow> nat \<Rightarrow> nat \<Rightarrow> nat option" where
  "lower_bound lens cchText first count =
     (if count > 0 then
        (let step = count div 2; mid = first + step
         in do {
           m \<leftarrow> rd lens mid;
           if m < cchText then lower_bound lens cchText (mid + 1) (count - (step + 1))
           else lower_bound lens cchText first step
         })
      else Some first)"
  by pat_completeness auto
termination by (relation "measure (\<lambda>(lens, cchText, first, count). count)") auto

declare lower_bound.simps [simp del]

text \<open>Where the length loop begins; \<open>None\<close> inside is the early \<open>return false\<close>.\<close>

definition length_start :: "('c, 'ctx) engine \<Rightarrow> nat \<Rightarrow> nat option option" where
  "length_start e cchText =
     (let lens = kv_elems (m_LengthVec e)
      in if m_bWildCardPresent e then Some (Some 0)
         else if length lens > 0 then
           do {
             longest \<leftarrow> rd lens (length lens - 1);
             if cchText > longest then Some None
             else do {
               first \<leftarrow> lower_bound lens cchText 0 (length lens);
               if first = length lens then Some None
               else do { l \<leftarrow> rd lens first; Some (if l \<noteq> cchText then None else Some first) }
             }
           }
         else Some (if cchText > 0 then None else Some 0))"

fun length_loop ::
  "('c::len word \<Rightarrow> 'c word) \<Rightarrow> ('c word, 'ctx) engine \<Rightarrow> 'c word list \<Rightarrow> 's collector \<Rightarrow> nat list \<Rightarrow> nat \<Rightarrow> u64 \<Rightarrow> 's \<Rightarrow>
     (bool \<times> 's) option" where
  "length_loop up e sText Collector [] currentChunk chunkHash s = Some (False, s)"
| "length_loop up e sText Collector (cchLength # lens) currentChunk chunkHash s =
     (if cchLength > length sText then Some (False, s)
      else if \<not> m_bWildCardPresent e \<and> cchLength \<noteq> length sText
      then length_loop up e sText Collector lens currentChunk chunkHash s
      else do {
        (Hash, currentChunk, chunkHash) \<leftarrow>
          prefix_hash up (m_bCaseInsensitive e) sText cchLength currentChunk chunkHash;
        present \<leftarrow> filter_test (m_HashFilter e) Hash;
        if \<not> present then length_loop up e sText Collector lens currentChunk chunkHash s
        else do {
          pBucket \<leftarrow> KFlatHashMap_Find KPrecomputedHash (m_HashMap e) Hash;
          (stop, s) \<leftarrow>
            (case pBucket of
               None \<Rightarrow> Some (False, s)
             | Some i \<Rightarrow>
                 do {
                   bucket \<leftarrow> value_at (m_HashMap e) i;
                   entry_loop e (\<lambda>v. fast_check up (m_bCaseInsensitive e) v sText cchLength) Collector
                     (kv_elems bucket) s
                 });
          if stop then Some (True, s)
          else if \<not> m_bWildCardPresent e then Some (False, s)
          else length_loop up e sText Collector lens currentChunk chunkHash s
        }
      })"

definition SearchInternal ::
  "('c::len word \<Rightarrow> 'c word) \<Rightarrow> ('c word, 'ctx) engine \<Rightarrow> 'c word list \<Rightarrow> 's collector \<Rightarrow> 's \<Rightarrow> (bool \<times> 's) option" where
  "SearchInternal up e sText Collector s =
     (let cchText = length sText; lens = kv_elems (m_LengthVec e)
      in if m_nPatternCount e = 0 \<or> cchText < m_nGlobalMinMatchLength e then Some (False, s)
         else if KVector_Size (m_SlowPathList e) = 0 \<and> (lens = [] \<or> cchText < hd lens) then Some (False, s)
         else do {
           itStart \<leftarrow> length_start e cchText;
           case itStart of
             None \<Rightarrow> Some (False, s)
           | Some i \<Rightarrow>
               do {
                 (stop, s) \<leftarrow> length_loop up e sText Collector (drop i lens) 0 0 s;
                 if stop then Some (True, s) else ProcessSlowPath up e sText Collector s
               }
         })"

section \<open>The two searches\<close>

definition first_collector :: "(nat \<times> nat) option collector" where
  "first_collector PatternContext p = (True, Some p)"

text \<open>
  The search for one match: the result and the address it leaves in the out parameter;
  \<open>outNull\<close> says that the caller passed no out parameter.
\<close>

definition Search_first ::
  "('c::len word \<Rightarrow> 'c word) \<Rightarrow> ('c word, 'ctx) engine \<Rightarrow> 'c word list option \<Rightarrow> nat \<Rightarrow> bool \<Rightarrow>
     (bool \<times> (nat \<times> nat) option) option" where
  "Search_first up e sText cchText outNull =
     (if outNull then Some (False, None)
      else if sText = None \<and> cchText > 0 then Some (False, None)
      else do { text \<leftarrow> passed sText cchText; SearchInternal up e text first_collector None })"

type_synonym all_state = "(nat \<times> nat) kvector \<times> sys \<times> ntstatus"

definition all_collector :: "all_state collector" where
  "all_collector = (\<lambda>(PatternContexts, \<sigma>, outStatus) p.
     case KVector_PushBack sizeof_pointer \<sigma> PatternContexts p of (status, PatternContexts, \<sigma>) \<Rightarrow>
       if \<not> NT_SUCCESS status then (True, (PatternContexts, \<sigma>, status))
       else (False, (PatternContexts, \<sigma>, outStatus)))"

definition Search_all ::
  "('c::len word \<Rightarrow> 'c word) \<Rightarrow> sys \<Rightarrow> ('c word, 'ctx) engine \<Rightarrow> 'c word list option \<Rightarrow> nat \<Rightarrow> (nat \<times> nat) kvector \<Rightarrow>
     (ntstatus \<times> (nat \<times> nat) kvector \<times> sys) option" where
  "Search_all up \<sigma> e sText cchText PatternContexts =
     (let PatternContexts = KVector_Clear PatternContexts
      in if sText = None \<and> cchText > 0 then Some (STATUS_INVALID_PARAMETER, PatternContexts, \<sigma>)
         else do {
           text \<leftarrow> passed sText cchText;
           (_, (v, \<sigma>, outStatus)) \<leftarrow>
             SearchInternal up e text all_collector (PatternContexts, \<sigma>, STATUS_SUCCESS);
           Some (outStatus, v, \<sigma>)
         })"

section \<open>The prefix hash is the hash of the folded prefix\<close>

lemma or_folded_tail:
  fixes sText :: "'c::len word list"
  shows "p + n \<le> length sText \<Longrightarrow> j \<le> n \<Longrightarrow> or_folded up ci sText p j n acc =
     or_tail (map (fold_char up ci) (take n (drop p sText))) j n acc"
proof (induction "n - j" arbitrary: j acc)
  case 0
  then show ?case
    by (subst or_folded.simps, subst or_tail.simps) simp
next
  case (Suc m)
  then have j: "j < n" "m = n - Suc j"
    by simp_all
  have "or_folded up ci sText p (Suc j) n x = or_tail (map (fold_char up ci) (take n (drop p sText))) (Suc j) n x" for x
    using Suc.prems j by (intro Suc.hyps(1)) simp_all
  then show ?case
    using Suc.prems j by (subst or_folded.simps, subst or_tail.simps) simp
qed

lemma or_folded_block:
  fixes sText :: "'c::len word list"
  assumes "p + n \<le> length sText"
  shows "or_folded up ci sText p 0 n 0 = Some (block_of (map (fold_char up ci) (take n (drop p sText))))"
proof -
  let ?cs = "map (fold_char up ci) (take n (drop p sText))"
  have len: "length ?cs = n"
    using assms by simp
  have "or_tail ?cs 0 n (block_of (take 0 ?cs)) = Some (block_of (take n ?cs))"
    using len by (intro or_tail_eq) simp_all
  then show ?thesis
    using or_folded_tail [OF assms, of 0] len by simp
qed

lemma folded_block_eq:
  fixes sText :: "'c::len word list"
  assumes ok: "tchar_ok TYPE('c)" and fits: "(i + 1) * chars_per_block TYPE('c) \<le> length sText"
  shows "folded_block up ci sText i =
     Some (block_of (map (fold_char up ci) (take (chars_per_block TYPE('c)) (drop (i * chars_per_block TYPE('c)) sText))))"
proof -
  let ?k = "chars_per_block TYPE('c)"
  let ?cs = "take ?k (drop (i * ?k) sText)"
  have fits': "i * ?k + ?k \<le> length sText"
    using fits by simp
  then have load: "load64 sText (i * ?k) = Some (block_of ?cs)"
    by (simp add: load64_def)
  have len: "length ?cs = ?k"
    using fits' by simp
  show ?thesis
  proof (cases ci)
    case False
    have "fold_char up False = id"
      by (simp add: fold_char_def fun_eq_iff)
    then show ?thesis
      using load False by (simp add: folded_block_def)
  next
    case True
    show ?thesis
    proof (cases "IsAsciiSWAR TYPE('c) (block_of ?cs)")
      case True
      then have "ToUpperSWAR TYPE('c) (block_of ?cs) = block_of (map (ToUpperFast up) ?cs)"
        using ToUpperSWAR_block [OF ok len] IsAsciiSWAR_block [OF ok len] by simp
      moreover have "fold_char up True = ToUpperFast up"
        by (simp add: fold_char_def fun_eq_iff)
      ultimately show ?thesis
        using \<open>ci\<close> True load by (simp add: folded_block_def)
    next
      case False
      then show ?thesis
        using \<open>ci\<close> load or_folded_block [OF fits', of up True] by (simp add: folded_block_def)
    qed
  qed
qed

text \<open>The state of the rolling hash after \<open>m\<close> chunks.\<close>

definition rolled :: "('c::len word \<Rightarrow> 'c word) \<Rightarrow> bool \<Rightarrow> 'c word list \<Rightarrow> nat \<Rightarrow> u64" where
  "rolled up ci sText m = block_hash 0 (map (fold_char up ci) (take (m * chars_per_block TYPE('c)) sText))"

lemma rolled_0 [simp]: "rolled up ci sText 0 = 0"
  by (simp add: rolled_def)

lemma rolled_append:
  fixes sText :: "'c::len word list"
  assumes ok: "tchar_ok TYPE('c)" and fits: "m * chars_per_block TYPE('c) \<le> length sText"
  shows "block_hash 0 (map (fold_char up ci) (take (m * chars_per_block TYPE('c) + n) sText)) =
     block_hash (rolled up ci sText m) (map (fold_char up ci) (take n (drop (m * chars_per_block TYPE('c)) sText)))"
  unfolding rolled_def take_add map_append using fits by (intro block_hash_append [OF ok, where m = m]) simp

lemma advance_chunks_eq:
  fixes sText :: "'c::len word list"
  assumes ok: "tchar_ok TYPE('c)" and fits: "t * chars_per_block TYPE('c) \<le> length sText"
  shows "i \<le> t \<Longrightarrow> advance_chunks up ci sText t i (rolled up ci sText i) = Some (t, rolled up ci sText t)"
proof (induction "t - i" arbitrary: i)
  case 0
  then show ?case
    by (subst advance_chunks.simps) simp
next
  case (Suc n)
  let ?k = "chars_per_block TYPE('c)"
  have i: "i < t" "n = t - Suc i"
    using Suc.hyps(2) by simp_all
  have "(i + 1) * ?k \<le> t * ?k"
    using i(1) by (intro mult_le_mono1) simp
  then have fit: "(i + 1) * ?k \<le> length sText"
    using fits by simp
  let ?b = "map (fold_char up ci) (take ?k (drop (i * ?k) sText))"
  have len: "length ?b = ?k"
    using fit by simp
  have "rolled up ci sText (Suc i) = block_hash (rolled up ci sText i) ?b"
    using rolled_append [OF ok, of i sText up ci ?k] fit by (simp add: rolled_def add.commute)
  also have "\<dots> = Mix64 (rolled up ci sText i XOR block_of ?b)"
    using block_hash_step [OF ok len, of "rolled up ci sText i" "[]"] by simp
  finally have "advance_chunks up ci sText t i (rolled up ci sText i) =
      advance_chunks up ci sText t (Suc i) (rolled up ci sText (Suc i))"
    using i(1) folded_block_eq [OF ok fit] by (subst advance_chunks.simps) simp
  then show ?case
    using Suc.hyps(1) [OF i(2)] i(1) by simp
qed

lemma chunk_count: "tchar_ok TYPE('c::len) \<Longrightarrow> n * (LENGTH('c) div 8) div 8 = n div chars_per_block TYPE('c)"
  by (auto simp: tchar_ok_def chars_per_block_def)

text \<open>
  The rolling computation reads inside the text and, for every length in turn, gives the hash
  that \<open>CalculateHash\<close> gives for the folded prefix.
\<close>

theorem prefix_hash_eq:
  fixes sText :: "'c::len word list"
  assumes ok: "tchar_ok TYPE('c)" and L: "L \<le> length sText" "length sText < 2 ^ 32"
    and i: "i * chars_per_block TYPE('c) \<le> L"
  shows "prefix_hash up ci sText L i (rolled up ci sText i) =
     Some (block_hash 0 (map (fold_char up ci) (take L sText)), L div chars_per_block TYPE('c),
           rolled up ci sText (L div chars_per_block TYPE('c)))"
proof -
  let ?k = "chars_per_block TYPE('c)" and ?t = "L div chars_per_block TYPE('c)"
  have k: "0 < ?k"
    by (rule chars_per_block_pos [OF ok])
  have fit: "?t * ?k \<le> length sText"
    using L(1) div_times_less_eq_dividend [of L ?k] by linarith
  have "i * ?k div ?k \<le> ?t"
    using i by (rule div_le_mono)
  then have it: "i \<le> ?t"
    using k by simp
  have rem: "sub32 L (?t * ?k) = L mod ?k"
    using L div_times_less_eq_dividend [of L ?k] by (simp add: sub32_eq minus_div_mult_eq_mod)
  have split: "?t * ?k + L mod ?k = L"
    by simp
  then have full: "block_hash 0 (map (fold_char up ci) (take L sText)) =
      block_hash (rolled up ci sText ?t) (map (fold_char up ci) (take (L mod ?k) (drop (?t * ?k) sText)))"
    using rolled_append [OF ok fit, of up ci "L mod ?k"] by simp
  show ?thesis
  proof (cases "L mod ?k = 0")
    case True
    then show ?thesis
      using full advance_chunks_eq [OF ok fit it] rem by (simp add: prefix_hash_def chunk_count [OF ok] Let_def)
  next
    case False
    have fit': "?t * ?k + L mod ?k \<le> length sText"
      using split L(1) by simp
    have "length (take (L mod ?k) (drop (?t * ?k) sText)) = L mod ?k"
      unfolding length_take length_drop using fit' by linarith
    then have "block_hash (rolled up ci sText ?t) (map (fold_char up ci) (take (L mod ?k) (drop (?t * ?k) sText))) =
        Mix64 (rolled up ci sText ?t XOR block_of (map (fold_char up ci) (take (L mod ?k) (drop (?t * ?k) sText))))"
      using False k by (intro block_hash_short) simp_all
    then show ?thesis
      using full False advance_chunks_eq [OF ok fit it] rem or_folded_block [OF fit', of up ci]
      by (simp add: prefix_hash_def chunk_count [OF ok] Let_def)
  qed
qed

section \<open>The bisection\<close>

lemma lower_bound_spec:
  assumes "sorted lens"
  shows "first + count \<le> length lens \<Longrightarrow> \<forall>j < first. lens ! j < n \<Longrightarrow>
     \<forall>j. first + count \<le> j \<and> j < length lens \<longrightarrow> n \<le> lens ! j \<Longrightarrow>
     \<exists>i \<le> length lens. lower_bound lens n first count = Some i \<and>
       (\<forall>j < i. lens ! j < n) \<and> (\<forall>j. i \<le> j \<and> j < length lens \<longrightarrow> n \<le> lens ! j)"
proof (induction count arbitrary: first rule: less_induct)
  case (less count)
  show ?case
  proof (cases "count > 0")
    case False
    then show ?thesis
      using less.prems by (intro exI [of _ first], subst lower_bound.simps) simp
  next
    case True
    let ?mid = "first + count div 2"
    have half: "count div 2 < count"
      using True by simp
    then have mid: "?mid < length lens"
      using less.prems(1) by linarith
    show ?thesis
    proof (cases "lens ! ?mid < n")
      case True
      have below: "lens ! j < n" if "j \<le> ?mid" for j
        using sorted_nth_mono [OF assms that mid] True by simp
      have "\<exists>i \<le> length lens. lower_bound lens n (?mid + 1) (count - (count div 2 + 1)) = Some i \<and>
          (\<forall>j < i. lens ! j < n) \<and> (\<forall>j. i \<le> j \<and> j < length lens \<longrightarrow> n \<le> lens ! j)"
        using half less.prems(1,3) below by (intro less.IH) auto
      then show ?thesis
        using True \<open>count > 0\<close> mid by (subst lower_bound.simps) (simp add: Let_def)
    next
      case False
      have above: "n \<le> lens ! j" if "?mid \<le> j" "j < length lens" for j
        using sorted_nth_mono [OF assms that] False by simp
      have "\<exists>i \<le> length lens. lower_bound lens n first (count div 2) = Some i \<and>
          (\<forall>j < i. lens ! j < n) \<and> (\<forall>j. i \<le> j \<and> j < length lens \<longrightarrow> n \<le> lens ! j)"
        using half less.prems(2) mid above by (intro less.IH) auto
      then show ?thesis
        using False \<open>count > 0\<close> mid by (subst lower_bound.simps) (simp add: Let_def)
    qed
  qed
qed

theorem lower_bound_correct:
  assumes "sorted lens"
  obtains i where "lower_bound lens n 0 (length lens) = Some i" "i \<le> length lens"
    "\<forall>j < i. lens ! j < n" "\<forall>j. i \<le> j \<and> j < length lens \<longrightarrow> n \<le> lens ! j"
  using lower_bound_spec [OF assms, of 0 "length lens" n] by auto

end
