(* ===== verification/TextProperties.thy ===== *)
theory TextProperties
  imports EngineSearch
begin

text \<open>
  What the parts of the engine that read text do: the wildcard state machine and its
  accelerator, the SWAR primitives, the comparisons, the parsing of a pattern into an entry,
  the checks of an entry, and the hashes. Each statement is about a function of the code on
  every instantiation of the templates; its witness runs it on an input.
\<close>

lemmas char_eval = matchChar_def ToUpperFast_def IsPathSeparator_def kStar_def kQuestion_def kEscape_def
  is_special_def fold_char_def

section \<open>The wildcard state machine\<close>

text \<open>
  C5: \<open>WildCardMatch\<close>, on every template instantiation, returns without an out-of-bounds read,
  and its result is the meaning of the pattern: stars, question marks and escapes as the
  reference matcher reads them, with or without the path-segment limit.
\<close>

theorem wildcard_match_correct:
  fixes pat str :: "'c::len word list"
  assumes "tchar_ok TYPE('c)" "case_table_ok up ci" "length pat < 2 ^ 32" "length str < 2 ^ 32"
  shows "WildCardMatch up ci lim pat str (min_len (tokens pat)) =
     Some (gmatch (matchChar up ci) (\<lambda>c. lim \<and> IsPathSeparator c) (tokens pat) str)"
  by (rule WildCardMatch_eq [OF assms(1,3,4) alphabet_ok [OF assms(1,2)] refl])

theorem wildcard_match_correct_witness:
  "WildCardMatch id True True ([65, 42, 66, 63] :: u8 list) [97, 120, 98, 98, 120] 3 = Some True"
  using wildcard_match_correct [of id True "[65, 42, 66, 63] :: u8 list" "[97, 120, 98, 98, 120]" True]
  by (simp add: char_eval case_table_ok_def numeral_3_eq_3)

text \<open>
  C15: \<open>fastForward\<close>, the accelerator behind a star, is the plain scan: from \<open>s\<close> on it finds the
  first candidate for the target character that leaves room for the rest of the pattern, and
  stops at a path separator when the wildcard may not cross one. SWAR blocks, the unrolled loop
  and the scalar tail read nothing outside the text.
\<close>

theorem fast_forward_scans:
  fixes str :: "'c::len word list"
  assumes "tchar_ok TYPE('c)" "1 \<le> rem" "rem < 2 ^ 32" "s \<le> length str"
  shows "fastForward up ci lim target (kLowBits TYPE('c) * ucast target) str rem s =
     Some (map_option ((+) s) (seek (checkChar up ci target) (\<lambda>c. lim \<and> IsPathSeparator c)
       (length str - s - (rem - 1)) (drop s str)))"
  by (rule fastForward_eq [OF assms refl])

theorem fast_forward_scans_witness:
  "fastForward id True True (66 :: u8) (kLowBits TYPE(8) * ucast (66 :: u8)) [97, 97, 97, 97, 97, 97, 97, 97, 97, 98] 1 0
     = Some (Some 9) \<and>
   fastForward id True True (66 :: u8) (kLowBits TYPE(8) * ucast (66 :: u8)) [97, 97, 92, 97, 97, 97, 97, 97, 97, 98] 1 0
     = Some None"
proof -
  let ?s = "[97, 97, 97, 97, 97, 97, 97, 97, 97, 98] :: u8 list" and ?t = "[97, 97, 92, 97, 97, 97, 97, 97, 97, 98] :: u8 list"
  have "seek (checkChar id True 66) (\<lambda>c. True \<and> IsPathSeparator c) (length ?s - 0 - (1 - 1)) (drop 0 ?s) = Some 9"
    "seek (checkChar id True 66) (\<lambda>c. True \<and> IsPathSeparator c) (length ?t - 0 - (1 - 1)) (drop 0 ?t) = None"
    by code_simp+
  then show ?thesis
    using fast_forward_scans [of 1 0 ?s id True True 66] fast_forward_scans [of 1 0 ?t id True True 66]
    by (simp del: seek.simps)
qed

section \<open>SWAR primitives\<close>

text \<open>
  C33: on a 64-bit block of characters, \<open>IsAsciiSWAR\<close> says whether they are all ASCII, and then
  \<open>ToUpperSWAR\<close> folds each of them as \<open>ToUpperFast\<close> does: no carry crosses a lane.
\<close>

theorem swar_folds_lanes:
  fixes cs :: "'c::len word list"
  assumes "tchar_ok TYPE('c)" "length cs = chars_per_block TYPE('c)"
  shows "(IsAsciiSWAR TYPE('c) (block_of cs) \<longleftrightarrow> (\<forall>c \<in> set cs. unat c < 128)) \<and>
     (IsAsciiSWAR TYPE('c) (block_of cs) \<longrightarrow> ToUpperSWAR TYPE('c) (block_of cs) = block_of (map (ToUpperFast up) cs))"
  using IsAsciiSWAR_block [OF assms] ToUpperSWAR_block [OF assms] by blast

theorem swar_folds_lanes_witness:
  "IsAsciiSWAR TYPE(16) (block_of [97, 0x5A, 0x7B, 0x60 :: u16]) \<and>
   ToUpperSWAR TYPE(16) (block_of [97, 0x5A, 0x7B, 0x60 :: u16]) = block_of [65, 0x5A, 0x7B, 0x60 :: u16]"
  using swar_folds_lanes [of "[97, 0x5A, 0x7B, 0x60 :: u16]" id]
  by (simp add: chars_per_block_def ToUpperFast_def)

text \<open>Without 128-bit multiplication, \<open>Mix64\<close> computes the same hash.\<close>

theorem mix64_portable: "Mix64_fallback w = Mix64 w"
  by (rule Mix64_fallback_eq)

section \<open>Comparing literals\<close>

text \<open>
  C35: \<open>EvaluatePrefixMatch\<close> decides whether the text starts with the stored (folded) prefix,
  whatever blocks and overlapping block it compares with, and reads inside both buffers.
\<close>

theorem prefix_match_correct:
  fixes B str :: "'c::len word list"
  assumes "tchar_ok TYPE('c)" "length B = n" "n \<le> length str"
  shows "EvaluatePrefixMatch up ci B str n = Some (B = map (fold_char up ci) (take n str))"
  by (rule EvaluatePrefixMatch_eq [OF assms])

theorem prefix_match_correct_witness:
  "EvaluatePrefixMatch id True [65, 66, 67, 68, 69 :: u16] [97, 98, 99, 100, 101, 102] 5 = Some True"
  using prefix_match_correct [of "[65, 66, 67, 68, 69 :: u16]" 5 "[97, 98, 99, 100, 101, 102]" id True]
  by (simp add: char_eval)

text \<open>
  C36: \<open>EvaluateTailMatch\<close> decides whether the text ends with the stored tail, given that it is
  not shorter.
\<close>

theorem tail_match_correct:
  fixes B str :: "'c::len word list"
  assumes "tchar_ok TYPE('c)" "length B \<le> length str" "length str < 2 ^ 32"
  shows "EvaluateTailMatch up ci B str (length str) =
     Some (B = map (fold_char up ci) (drop (length str - length B) str))"
  by (rule EvaluateTailMatch_eq [OF assms])

theorem tail_match_correct_witness:
  "EvaluateTailMatch id False [46, 116, 120, 116 :: u8] [97, 46, 116, 120, 116] (length [97, 46, 116, 120, 116 :: u8]) = Some True"
proof -
  let ?B = "[46, 116, 120, 116 :: u8]" and ?s = "[97, 46, 116, 120, 116 :: u8]"
  have "?B = map (fold_char id False) (drop (length ?s - length ?B) ?s)"
    by code_simp
  then show ?thesis
    using tail_match_correct [of ?B ?s id False] by simp
qed

section \<open>Parsing and checking an entry\<close>

text \<open>
  C18: the parsing loops of \<open>AddPattern\<close> split a pattern without loss: the unescaped prefix, the
  wildcard part and the unescaped tail read as exactly the (folded) tokens of the pattern, the
  minimum length is the shortest text the rest can match, and the parts fit the buffers the
  code allocates from the length of the pattern.
\<close>

theorem parse_keeps_tokens:
  fixes pat :: "'c::len word list" and scope :: wild_card_scope
  assumes "tchar_ok TYPE('c)" "case_table_ok up ci"
  shows "let v = parse_view up ci scope pat
     in lits (vPrefix v) @ tokens (vWild v) @ lits (vTail v) = map (map_tok (fold_char up ci)) (tokens pat) \<and>
        vMin v = min_len (tokens (vWild v)) + length (vTail v) \<and>
        length (vPrefix v) + length (vWild v) \<le> length pat \<and> length (vPrefix v) + vMin v \<le> length pat"
  using parse_view_parts(1,2,6,7) [OF assms, where pat = pat and scope = scope] by (simp add: Let_def)

theorem parse_keeps_tokens_witness:
  "let v = parse_view id True SCOPE_DEFAULT [97, 124, 42, 63, 98, 42, 46, 99 :: u8]
   in lits (vPrefix v) @ tokens (vWild v) @ lits (vTail v) =
     [TLit 65, TLit 42, TAny, TLit 66, TStar, TLit 46, TLit (67 :: u8)]"
proof -
  have "map (map_tok (fold_char id True)) (tokens [97, 124, 42, 63, 98, 42, 46, 99 :: u8]) =
      [TLit 65, TLit 42, TAny, TLit 66, TStar, TLit 46, TLit 67]"
    by code_simp
  then show ?thesis
    using parse_keeps_tokens [of id True SCOPE_DEFAULT "[97, 124, 42, 63, 98, 42, 46, 99 :: u8]"]
    by (simp add: Let_def case_table_ok_def)
qed



text \<open>
  C16: the body of the loop over a bucket decides the pattern: it accepts an entry for the length
  \<open>n\<close> it looks for exactly when that is the length of the entry's prefix and the text matches.
\<close>

theorem bucket_check_correct:
  fixes pat str :: "'c::len word list" and scope :: wild_card_scope
  assumes "tchar_ok TYPE('c)" "case_table_ok up ci" "length pat < 2 ^ 32" "length str < 2 ^ 32" "n \<le> length str"
  shows "fast_check up ci (parse_view up ci scope pat) str n =
     Some (length (vPrefix (parse_view up ci scope pat)) = n \<and> pattern_matches up ci scope pat str)"
  by (rule fast_check_eq [OF assms])

theorem bucket_check_correct_witness:
  "fast_check id True (parse_view id True SCOPE_PATH_SEGMENT [97, 42, 99 :: u8]) [65, 98, 67] 1 = Some True \<and>
   fast_check id True (parse_view id True SCOPE_PATH_SEGMENT [97, 42, 99 :: u8]) [65, 92, 67] 1 = Some False"
proof -
  have "length (vPrefix (parse_view id True SCOPE_PATH_SEGMENT [97, 42, 99 :: u8])) = 1"
    "pattern_matches id True SCOPE_PATH_SEGMENT [97, 42, 99 :: u8] [65, 98, 67]"
    "\<not> pattern_matches id True SCOPE_PATH_SEGMENT [97, 42, 99 :: u8] [65, 92, 67]"
    by code_simp+
  then show ?thesis
    using bucket_check_correct [of id True "[97, 42, 99 :: u8]" "[65, 98, 67]" 1 SCOPE_PATH_SEGMENT]
      bucket_check_correct [of id True "[97, 42, 99 :: u8]" "[65, 92, 67]" 1 SCOPE_PATH_SEGMENT]
    by (simp add: case_table_ok_def)
qed

text \<open>
  C17: the body of the slow-path loop decides a pattern that begins with a wildcard, with its
  tail anchor and its scan for the first literal character in front.
\<close>

theorem slow_check_correct:
  fixes pat str :: "'c::len word list" and scope :: wild_card_scope
  assumes "tchar_ok TYPE('c)" "case_table_ok up ci" "length pat < 2 ^ 32" "length str < 2 ^ 32"
    and "vPrefix (parse_view up ci scope pat) = []"
  shows "slow_check up ci (parse_view up ci scope pat) str = Some (pattern_matches up ci scope pat str)"
  by (rule slow_check_eq [OF assms])

theorem slow_check_correct_witness:
  "slow_check id False (parse_view id False SCOPE_DEFAULT [42, 98, 63, 99 :: u8]) [97, 98, 98, 99] = Some True"
proof -
  have "vPrefix (parse_view id False SCOPE_DEFAULT [42, 98, 63, 99 :: u8]) = []"
    "pattern_matches id False SCOPE_DEFAULT [42, 98, 63, 99 :: u8] [97, 98, 98, 99]"
    by code_simp+
  then show ?thesis
    using slow_check_correct [of id False "[42, 98, 63, 99 :: u8]" "[97, 98, 98, 99]" SCOPE_DEFAULT]
    by (simp add: case_table_ok_def)
qed

section \<open>Hashes\<close>

text \<open>
  C19: the hash that the search rolls along the text is the hash under which a prefix was filed:
  from any block it has reached, extending to length \<open>L\<close> gives what \<open>CalculateHash\<close> gives on the
  folded first \<open>L\<close> characters, and leaves the state for the next, longer length.
\<close>

theorem rolling_hash_agrees:
  fixes str :: "'c::len word list"
  assumes "tchar_ok TYPE('c)" "L \<le> length str" "length str < 2 ^ 32" "i * chars_per_block TYPE('c) \<le> L"
  shows "prefix_hash up ci str L i (rolled up ci str i) =
     map_option (\<lambda>h. (h, L div chars_per_block TYPE('c), rolled up ci str (L div chars_per_block TYPE('c))))
       (CalculateHash (map (fold_char up ci) (take L str)) L 0)"
  using prefix_hash_eq [OF assms] CalculateHash_eq [OF assms(1), of L "map (fold_char up ci) (take L str)" 0] assms(2)
  by simp

theorem rolling_hash_agrees_witness:
  "\<exists>h s. prefix_hash id True [97, 98, 99, 100, 101 :: u16] 5 0 (rolled id True [97, 98, 99, 100, 101] 0) = Some (h, 1, s) \<and>
     CalculateHash [65, 66, 67, 68, 69 :: u16] 5 0 = Some h"
  using rolling_hash_agrees [of 5 "[97, 98, 99, 100, 101 :: u16]" 0 id True]
    CalculateHash_eq [of 5 "[65, 66, 67, 68, 69 :: u16]" 0]
  by (simp add: char_eval chars_per_block_def)

text \<open>
  C37: the binary search of \<open>SearchInternal\<close> in the sorted length vector returns the first
  position whose length is not smaller than the one looked for, or the end.
\<close>

theorem lower_bound_first:
  assumes "sorted lens"
  shows "\<exists>i. lower_bound lens n 0 (length lens) = Some i \<and> i \<le> length lens \<and>
     (\<forall>j < i. lens ! j < n) \<and> (\<forall>j. i \<le> j \<and> j < length lens \<longrightarrow> n \<le> lens ! j)"
  using lower_bound_correct [OF assms, of n] by metis

theorem lower_bound_first_witness:
  "\<exists>i. lower_bound [2, 5, 9] 6 0 3 = Some i \<and> (\<forall>j < i. [2, 5, 9] ! j < (6 :: nat))"
  using lower_bound_first [of "[2, 5, 9]" 6] by (auto simp: numeral_3_eq_3)

text \<open>
  C38: the default hash functor reads only bytes of the key, at every key size, and the two
  overlapping reads of a key of 2 to 15 bytes together determine the key.
\<close>

theorem default_hash_reads_key:
  assumes "Key \<noteq> []"
  shows "(\<exists>h. KDefaultHash Key = Some h) \<and>
     (\<forall>q. length q = length Key \<and> 2 \<le> length Key \<and> length Key < 16 \<and> small_reads q = small_reads Key \<longrightarrow> q = Key)"
  using KDefaultHash_total [OF assms] small_reads_inj by metis

theorem default_hash_reads_key_witness: "\<exists>h. KDefaultHash [1, 2, 3, 4, 5, 6, 7] = Some h"
  using default_hash_reads_key [of "[1, 2, 3, 4, 5, 6, 7]"] by blast

end
