(* ===== verification/EngineInv.thy ===== *)
theory EngineInv
  imports EngineSearch "HOL-Library.Multiset"
begin

text \<open>
  The abstract state of the engine, a list of registered rules, and the invariant that ties
  the engine's containers to it. A rule is a pattern with its scope and its context; the
  engine adds the identifier and the index of the context.
\<close>

section \<open>Rules\<close>

record ('tchar, 'ctx) rule =
  rPat :: "'tchar list"
  rScope :: wild_card_scope
  rCtx :: 'ctx
  rId :: nat
  rIndex :: nat

definition rule_view :: "('c::len word \<Rightarrow> 'c word) \<Rightarrow> bool \<Rightarrow> ('c word, 'ctx) rule \<Rightarrow> 'c word view" where
  "rule_view up ci r = parse_view up ci (rScope r) (rPat r)"

definition rule_matches :: "('c::len word \<Rightarrow> 'c word) \<Rightarrow> bool \<Rightarrow> 'c word list \<Rightarrow> ('c word, 'ctx) rule \<Rightarrow> bool" where
  "rule_matches up ci str r \<longleftrightarrow> pattern_matches up ci (rScope r) (rPat r) str"

definition is_slow :: "'c::len word view \<Rightarrow> bool" where
  "is_slow v \<longleftrightarrow> vPrefix v = [] \<and> vWild v \<noteq> []"

definition slow_rules :: "('c::len word \<Rightarrow> 'c word) \<Rightarrow> bool \<Rightarrow> ('c word, 'ctx) rule list \<Rightarrow> ('c word, 'ctx) rule list" where
  "slow_rules up ci rules = filter (\<lambda>r. is_slow (rule_view up ci r)) rules"

definition fast_rules ::
  "('c::len word \<Rightarrow> 'c word) \<Rightarrow> bool \<Rightarrow> ('c word, 'ctx) rule list \<Rightarrow> u64 \<Rightarrow> ('c word, 'ctx) rule list" where
  "fast_rules up ci rules h =
     filter (\<lambda>r. \<not> is_slow (rule_view up ci r) \<and> block_hash 0 (vPrefix (rule_view up ci r)) = h) rules"

section \<open>What an entry is\<close>

definition committed_chars :: "'tchar arena \<Rightarrow> pstring \<Rightarrow> bool" where
  "committed_chars a s \<longleftrightarrow>
     (case psBuffer s of None \<Rightarrow> psLength s = 0 | Some p \<Rightarrow> committed a p (psLength s))"

definition represents ::
  "('c::len word \<Rightarrow> 'c word) \<Rightarrow> bool \<Rightarrow> 'c word arena \<Rightarrow> ('c word, 'ctx) rule \<Rightarrow> 'c word pentry \<Rightarrow> bool" where
  "represents up ci a r en \<longleftrightarrow>
     view_of a en = Some (rule_view up ci r) \<and>
     committed_chars a (LiteralPrefix en) \<and> committed_chars a (WildcardSuffix en) \<and>
     committed_chars a (TailAnchor en) \<and> EntryId en = rId r \<and> ContextIndex en = rIndex r"

definition bucket :: "('tchar, 'ctx) engine \<Rightarrow> u64 \<Rightarrow> 'tchar pentry list" where
  "bucket e h = (case hm_map (m_HashMap e) h of None \<Rightarrow> [] | Some v \<Rightarrow> kv_elems v)"

text \<open>The rules an engine holds.\<close>

definition holds_rules ::
  "('c::len word \<Rightarrow> 'c word) \<Rightarrow> ('c word, 'ctx) engine \<Rightarrow> ('c word, 'ctx) rule list \<Rightarrow> bool" where
  "holds_rules up e rules \<longleftrightarrow>
     (let ci = m_bCaseInsensitive e; a = m_StringArena e
      in list_all2 (represents up ci a) (slow_rules up ci rules) (kv_elems (m_SlowPathList e)) \<and>
         (\<forall>h. list_all2 (represents up ci a) (fast_rules up ci rules h) (bucket e h)))"

text \<open>The filters in front of them let every rule through.\<close>

definition filters_ok ::
  "('c::len word \<Rightarrow> 'c word) \<Rightarrow> ('c word, 'ctx) engine \<Rightarrow> ('c word, 'ctx) rule list \<Rightarrow> bool" where
  "filters_ok up e rules \<longleftrightarrow>
     (let view = rule_view up (m_bCaseInsensitive e); lens = kv_elems (m_LengthVec e)
      in (\<forall>r \<in> set rules. m_nGlobalMinMatchLength e \<le> length (vPrefix (view r)) + vMin (view r)) \<and>
         (m_bWildCardPresent e \<longleftrightarrow> (\<exists>r \<in> set rules. vWild (view r) \<noteq> [])) \<and>
         sorted_wrt (<) lens \<and> length (m_HashFilter e) = 16 \<and>
         (\<forall>r \<in> set rules. \<not> is_slow (view r) \<longrightarrow>
            length (vPrefix (view r)) \<in> set lens \<and>
            filter_test (m_HashFilter e) (block_hash 0 (vPrefix (view r))) = Some True))"

text \<open>Identifiers count the rules; the contexts are where the rules say.\<close>

definition contexts_ok :: "('tchar, 'ctx) engine \<Rightarrow> ('tchar, 'ctx) rule list \<Rightarrow> bool" where
  "contexts_ok e rules \<longleftrightarrow>
     m_nPatternCount e = length rules \<and> length rules \<le> kMaxPatterns \<and>
     map rId rules = [1..<Suc (length rules)] \<and> sorted_wrt (<) (map rIndex rules) \<and>
     (\<forall>r \<in> set rules. rIndex r < dq_size (m_ContextArena e) \<and>
        KDeque_at BlockCapacity (m_ContextArena e) (rIndex r) = Some (rCtx r)) \<and>
     (\<forall>r \<in> set rules. length (rPat r) < 2 ^ 32)"

text \<open>The containers are well formed over the pool, and own different blocks.\<close>

definition part_owned :: "('tchar, 'ctx) engine \<Rightarrow> nat set list" where
  "part_owned e =
     [arena_owned (m_StringArena e), dq_owned (m_ContextArena e), kv_owned (m_LengthVec e),
      hm_owned kv_owned (m_HashMap e), kv_owned (m_SlowPathList e)]"

definition engine_owned :: "('tchar, 'ctx) engine \<Rightarrow> nat set" where
  "engine_owned e = \<Union> (set (part_owned e))"

fun apart :: "'a set list \<Rightarrow> bool" where
  "apart [] = True"
| "apart (A # As) = ((\<forall>B \<in> set As. A \<inter> B = {}) \<and> apart As)"

definition memory_ok :: "nat \<Rightarrow> sys \<Rightarrow> ('c::len word, 'ctx) engine \<Rightarrow> bool" where
  "memory_ok csz \<sigma> e \<longleftrightarrow>
     arena_ok \<sigma> (m_StringArena e) \<and> dq_ok BlockCapacity csz \<sigma> (m_ContextArena e) \<and>
     kv_ok sizeof_UINT32 \<sigma> (m_LengthVec e) \<and>
     hm_ok KPrecomputedHash sizeof_Slot kv_owned (kv_ok sizeof_PatternEntry) \<sigma> (m_HashMap e) \<and>
     kv_ok sizeof_PatternEntry \<sigma> (m_SlowPathList e) \<and> apart (part_owned e)"

definition engine_ok ::
  "('c::len word \<Rightarrow> 'c word) \<Rightarrow> nat \<Rightarrow> sys \<Rightarrow> ('c word, 'ctx) engine \<Rightarrow> ('c word, 'ctx) rule list \<Rightarrow> bool" where
  "engine_ok up csz \<sigma> e rules \<longleftrightarrow>
     memory_ok csz \<sigma> e \<and> holds_rules up e rules \<and> filters_ok up e rules \<and> contexts_ok e rules"

section \<open>The buckets as values of the map\<close>

interpretation buckets: map_value bucket_ops kv_owned "kv_ok sz" for sz
proof
  fix \<sigma> \<sigma>' :: sys and v :: "'a kvector"
  assume ok: "kv_ok sz \<sigma> v"
  show "kv_owned v \<subseteq> dom (live \<sigma>)"
    using ok by (rule kv_ok_owned)
  show "kv_ok sz \<sigma>' v" if "\<forall>b \<in> kv_owned v. live \<sigma>' b = live \<sigma> b"
    using ok that by (rule kv_ok_frame)
  have "fst (KVector_move_construct v) = v"
    using ok by (cases v) (auto simp: KVector_move_construct_def KVector_IsDynamic_def kv_ok_def)
  then show "fst (vo_move bucket_ops v) = v"
    by (simp add: bucket_ops_def)
  show "vo_dtor bucket_ops \<sigma>' (snd (vo_move bucket_ops v)) = \<sigma>'"
    by (simp add: bucket_ops_def KVector_move_construct_def KVector_destroy_def KVector_free_buffer_def KVector_Clear_def)
  show "owns_step \<sigma> (kv_owned v) (vo_dtor bucket_ops \<sigma> v) {}" if "sys_ok \<sigma>"
    using KVector_destroy_spec [OF that ok] by (simp add: bucket_ops_def)
qed

section \<open>Entries survive what the arena goes through\<close>

lemma read_chars_grows:
  "grows a a' \<Longrightarrow> committed_chars a s \<Longrightarrow> read_chars a' (psBuffer s) (psLength s) = read_chars a (psBuffer s) (psLength s)"
  by (auto simp: read_chars_def committed_chars_def grows_read split: option.splits)

lemma committed_chars_grows: "grows a a' \<Longrightarrow> committed_chars a s \<Longrightarrow> committed_chars a' s"
  by (auto simp: committed_chars_def grows_committed split: option.splits)

lemma represents_grows: "grows a a' \<Longrightarrow> represents up ci a r en \<Longrightarrow> represents up ci a' r en"
  by (simp add: represents_def view_of_def read_chars_grows committed_chars_grows)

lemma list_represents_grows:
  "grows a a' \<Longrightarrow> list_all2 (represents up ci a) rs ens \<Longrightarrow> list_all2 (represents up ci a') rs ens"
  by (erule list_all2_mono) (rule represents_grows)

lemma holds_rules_grows:
  "holds_rules up e rules \<Longrightarrow> grows (m_StringArena e) a \<Longrightarrow> holds_rules up (e\<lparr>m_StringArena := a\<rparr>) rules"
  by (auto simp: holds_rules_def Let_def bucket_def intro: list_represents_grows)

section \<open>Parsed patterns\<close>

lemma rule_view_parts:
  fixes r :: "('c::len word, 'ctx) rule"
  assumes "tchar_ok TYPE('c)" "case_table_ok up ci" "length (rPat r) < 2 ^ 32"
  shows "length (vPrefix (rule_view up ci r)) + vMin (rule_view up ci r) < 2 ^ 32"
    "length (vPrefix (rule_view up ci r)) < 2 ^ 32"
  using parse_view_parts(7) [OF assms(1,2), of "rScope r" "rPat r"] assms(3) by (simp_all add: rule_view_def)

end
