(* ===== verification/EngineSearchSpec.thy ===== *)
theory EngineSearchSpec
  imports EngineInv
begin

text \<open>
  The search visits exactly the rules whose pattern matches the text. \<open>feed\<close> is what a
  collector does with a list of matches, stopping when it says so; the core search is \<open>feed\<close>
  of the matches in the order of \<open>hits\<close>, which is a permutation of the matching rules.
\<close>

section \<open>The matches in the order of the search\<close>

fun feed :: "('s \<Rightarrow> 'p \<Rightarrow> bool \<times> 's) \<Rightarrow> 's \<Rightarrow> 'p list \<Rightarrow> bool \<times> 's" where
  "feed f s [] = (False, s)"
| "feed f s (p # ps) = (let (stop, s) = f s p in if stop then (True, s) else feed f s ps)"

lemma feed_append:
  "feed f s (ps @ qs) = (let (stop, s) = feed f s ps in if stop then (True, s) else feed f s qs)"
  by (induction ps arbitrary: s) (auto split: prod.splits)

definition fast_hits ::
  "('c::len word \<Rightarrow> 'c word) \<Rightarrow> bool \<Rightarrow> 'c word list \<Rightarrow> ('c word, 'ctx) rule list \<Rightarrow> nat \<Rightarrow> ('c word, 'ctx) rule list" where
  "fast_hits up ci str rules L =
     filter (\<lambda>r. \<not> is_slow (rule_view up ci r) \<and> length (vPrefix (rule_view up ci r)) = L \<and>
                rule_matches up ci str r) rules"

definition slow_hits ::
  "('c::len word \<Rightarrow> 'c word) \<Rightarrow> bool \<Rightarrow> 'c word list \<Rightarrow> ('c word, 'ctx) rule list \<Rightarrow> ('c word, 'ctx) rule list" where
  "slow_hits up ci str rules = filter (\<lambda>r. is_slow (rule_view up ci r) \<and> rule_matches up ci str r) rules"

definition hits ::
  "('c::len word \<Rightarrow> 'c word) \<Rightarrow> ('c word, 'ctx) engine \<Rightarrow> 'c word list \<Rightarrow> ('c word, 'ctx) rule list \<Rightarrow>
     ('c word, 'ctx) rule list" where
  "hits up e str rules =
     concat (map (fast_hits up (m_bCaseInsensitive e) str rules) (kv_elems (m_LengthVec e))) @
     slow_hits up (m_bCaseInsensitive e) str rules"

definition context_address :: "('tchar, 'ctx) engine \<Rightarrow> ('tchar, 'ctx) rule \<Rightarrow> nat \<times> nat" where
  "context_address e r = the (KDeque_address BlockCapacity (m_ContextArena e) (rIndex r))"

lemma mset_filter_split: "mset (filter P xs) = mset (filter (\<lambda>x. P x \<and> Q x) xs) + mset (filter (\<lambda>x. P x \<and> \<not> Q x) xs)"
  by (induction xs) auto

lemma mset_concat_by_length:
  "distinct Ls \<Longrightarrow> \<forall>x \<in> set xs. P x \<longrightarrow> f x \<in> set Ls \<Longrightarrow>
     mset (concat (map (\<lambda>L. filter (\<lambda>x. P x \<and> f x = L) xs) Ls)) = mset (filter P xs)"
proof (induction Ls arbitrary: P)
  case Nil
  then show ?case by (simp add: filter_empty_conv)
next
  case (Cons L Ls)
  let ?Q = "\<lambda>x. P x \<and> f x \<noteq> L"
  have "mset (concat (map (\<lambda>L. filter (\<lambda>x. ?Q x \<and> f x = L) xs) Ls)) = mset (filter ?Q xs)"
    using Cons.prems by (intro Cons.IH) auto
  moreover have "filter (\<lambda>x. ?Q x \<and> f x = M) xs = filter (\<lambda>x. P x \<and> f x = M) xs" if "M \<in> set Ls" for M
    using Cons.prems(1) that by (intro filter_cong) auto
  then have "concat (map (\<lambda>L. filter (\<lambda>x. ?Q x \<and> f x = L) xs) Ls) = concat (map (\<lambda>L. filter (\<lambda>x. P x \<and> f x = L) xs) Ls)"
    by (intro arg_cong [where f = concat] map_cong refl)
  ultimately show ?case
    using mset_filter_split [of P xs "\<lambda>x. f x = L"] by simp
qed

text \<open>The search order lists the matching rules, each once.\<close>

lemma mset_hits:
  assumes "filters_ok up e rules"
  shows "mset (hits up e str rules) = mset (filter (rule_matches up (m_bCaseInsensitive e) str) rules)"
proof -
  let ?ci = "m_bCaseInsensitive e" and ?lens = "kv_elems (m_LengthVec e)"
  let ?P = "\<lambda>r. rule_matches up ?ci str r \<and> \<not> is_slow (rule_view up ?ci r)"
  have "sorted_wrt (<) ?lens"
    using assms by (simp add: filters_ok_def Let_def)
  then have "distinct ?lens"
    by (simp add: strict_sorted_iff)
  moreover have "\<forall>r \<in> set rules. ?P r \<longrightarrow> length (vPrefix (rule_view up ?ci r)) \<in> set ?lens"
    using assms by (simp add: filters_ok_def Let_def)
  ultimately have "mset (concat (map (\<lambda>L. filter (\<lambda>r. ?P r \<and> length (vPrefix (rule_view up ?ci r)) = L) rules) ?lens)) =
      mset (filter ?P rules)"
    by (rule mset_concat_by_length)
  moreover have "fast_hits up ?ci str rules = (\<lambda>L. filter (\<lambda>r. ?P r \<and> length (vPrefix (rule_view up ?ci r)) = L) rules)"
    unfolding fast_hits_def by (intro ext filter_cong) auto
  moreover have "slow_hits up ?ci str rules = filter (\<lambda>r. rule_matches up ?ci str r \<and> \<not> \<not> is_slow (rule_view up ?ci r)) rules"
    unfolding slow_hits_def by (intro filter_cong) auto
  ultimately show ?thesis
    using mset_filter_split [of "rule_matches up ?ci str" rules "\<lambda>r. \<not> is_slow (rule_view up ?ci r)"]
    by (simp add: hits_def)
qed

section \<open>The loops over entries\<close>

lemma entry_loop_eq:
  assumes "list_all2 (represents up ci (m_StringArena e)) rs ens"
    and "\<forall>r \<in> set rs. check (rule_view up ci r) = Some (P r)"
    and "\<forall>r \<in> set rs. KDeque_address BlockCapacity (m_ContextArena e) (rIndex r) \<noteq> None"
  shows "entry_loop e check f ens s = Some (feed f s (map (context_address e) (filter P rs)))"
  using assms
proof (induction rs ens arbitrary: s rule: list_all2_induct)
  case Nil
  then show ?case by simp
next
  case (Cons r rs en ens)
  have IH: "entry_loop e check f ens s = Some (feed f s (map (context_address e) (filter P rs)))" for s
    using Cons by simp
  have v: "view_of (m_StringArena e) en = Some (rule_view up ci r)" "ContextIndex en = rIndex r"
    using Cons.hyps(1) by (simp_all add: represents_def)
  obtain p where p: "KDeque_address BlockCapacity (m_ContextArena e) (rIndex r) = Some p"
    using Cons.prems(2) by auto
  then have "context_address e r = p"
    by (simp add: context_address_def)
  then show ?case
    using p v Cons.prems(1) IH by (auto split: prod.splits)
qed

lemma addresses_ok:
  assumes "contexts_ok e rules" "r \<in> set rules"
  shows "KDeque_address BlockCapacity (m_ContextArena e) (rIndex r) \<noteq> None"
  using assms by (auto simp: contexts_ok_def KDeque_at_def bind_eq_Some_conv split: option.splits)

text \<open>The facts about the text and the alphabet that the searches share.\<close>

definition text_ok :: "('c::len word \<Rightarrow> 'c word) \<Rightarrow> bool \<Rightarrow> 'c word list \<Rightarrow> bool" where
  "text_ok up ci str \<longleftrightarrow> tchar_ok TYPE('c) \<and> case_table_ok up ci \<and> length str < 2 ^ 32"

lemma slow_path_eq:
  fixes e :: "('c::len word, 'ctx) engine"
  assumes t: "text_ok up (m_bCaseInsensitive e) str" and h: "holds_rules up e rules" and c: "contexts_ok e rules"
  shows "ProcessSlowPath up e str f s =
     Some (feed f s (map (context_address e) (slow_hits up (m_bCaseInsensitive e) str rules)))"
proof -
  let ?ci = "m_bCaseInsensitive e"
  let ?rs = "slow_rules up ?ci rules" and ?P = "rule_matches up ?ci str"
  have rep: "list_all2 (represents up ?ci (m_StringArena e)) ?rs (kv_elems (m_SlowPathList e))"
    using h by (simp add: holds_rules_def Let_def)
  have mem: "r \<in> set rules" "is_slow (rule_view up ?ci r)" if "r \<in> set ?rs" for r
    using that by (simp_all add: slow_rules_def)
  have "slow_check up ?ci (rule_view up ?ci r) str = Some (?P r)" if "r \<in> set ?rs" for r
    unfolding rule_view_def rule_matches_def
  proof (rule slow_check_eq)
    show "tchar_ok TYPE('c)" "case_table_ok up ?ci" "length str < 2 ^ 32"
      using t by (simp_all add: text_ok_def)
    show "length (rPat r) < 2 ^ 32"
      using c mem(1) [OF that] by (simp add: contexts_ok_def)
    show "vPrefix (parse_view up ?ci (rScope r) (rPat r)) = []"
      using mem(2) [OF that] by (simp add: is_slow_def rule_view_def)
  qed
  then have "entry_loop e (\<lambda>v. slow_check up ?ci v str) f (kv_elems (m_SlowPathList e)) s =
      Some (feed f s (map (context_address e) (filter ?P ?rs)))"
    using addresses_ok [OF c] mem(1) by (intro entry_loop_eq [OF rep]) auto
  moreover have "filter ?P ?rs = slow_hits up ?ci str rules"
    unfolding slow_rules_def slow_hits_def filter_filter by (rule filter_cong) auto
  moreover have "KVector_Size (m_SlowPathList e) = 0 \<Longrightarrow> ?rs = []"
    using rep by (auto simp: KVector_Size_def)
  ultimately show ?thesis
    unfolding ProcessSlowPath_def by (auto simp: KVector_Size_def)
qed

lemma bucket_eq:
  fixes e :: "('c::len word, 'ctx) engine"
  assumes t: "text_ok up (m_bCaseInsensitive e) str" and h: "holds_rules up e rules" and c: "contexts_ok e rules"
    and L: "L \<le> length str"
  defines "hash \<equiv> block_hash 0 (map (fold_char up (m_bCaseInsensitive e)) (take L str))"
  shows "entry_loop e (\<lambda>v. fast_check up (m_bCaseInsensitive e) v str L) f (bucket e hash) s =
     Some (feed f s (map (context_address e) (fast_hits up (m_bCaseInsensitive e) str rules L)))"
proof -
  let ?ci = "m_bCaseInsensitive e"
  let ?rs = "fast_rules up ?ci rules hash"
  let ?P = "\<lambda>r. length (vPrefix (rule_view up ?ci r)) = L \<and> rule_matches up ?ci str r"
  have tc: "tchar_ok TYPE('c)" "case_table_ok up ?ci" "length str < 2 ^ 32"
    using t by (simp_all add: text_ok_def)
  have rep: "list_all2 (represents up ?ci (m_StringArena e)) ?rs (bucket e hash)"
    using h by (simp add: holds_rules_def Let_def)
  have mem: "r \<in> set rules" if "r \<in> set ?rs" for r
    using that by (simp add: fast_rules_def)
  have "fast_check up ?ci (rule_view up ?ci r) str L = Some (?P r)" if "r \<in> set ?rs" for r
    unfolding rule_view_def rule_matches_def
    using c mem [OF that] tc L by (intro fast_check_eq) (simp_all add: contexts_ok_def)
  then have "entry_loop e (\<lambda>v. fast_check up ?ci v str L) f (bucket e hash) s =
      Some (feed f s (map (context_address e) (filter ?P ?rs)))"
    using addresses_ok [OF c] mem by (intro entry_loop_eq [OF rep]) auto
  moreover have "filter ?P ?rs = fast_hits up ?ci str rules L"
  proof -
    have "block_hash 0 (vPrefix (rule_view up ?ci r)) = hash" if "?P r" for r
      using pattern_matches_prefix(2) [OF tc(1,2), of "rScope r" "rPat r" str] that
      by (simp add: rule_matches_def rule_view_def hash_def)
    then show ?thesis
      unfolding fast_rules_def fast_hits_def filter_filter by (intro filter_cong) auto
  qed
  ultimately show ?thesis
    by simp
qed

section \<open>The length loop\<close>

lemma filter_index: "unat (drop_bit 6 h AND 15 :: u64) < 16"
proof -
  have "drop_bit 6 h AND 15 \<le> (15 :: u64)"
    by (rule word_and_le1)
  then have "unat (drop_bit 6 h AND 15) \<le> unat (15 :: u64)"
    by (simp only: word_le_nat_alt)
  then show ?thesis
    by simp
qed

lemma filter_test_total: "length fs = 16 \<Longrightarrow> \<exists>b. filter_test fs h = Some b"
  using filter_index [of h] by (simp add: filter_test_def)

lemma fast_hits_long:
  fixes str :: "'c::len word list"
  assumes "text_ok up ci str" "length str < L"
  shows "fast_hits up ci str rules L = []"
proof -
  have "\<not> rule_matches up ci str r" if "length (vPrefix (rule_view up ci r)) = L" for r :: "('c word, 'd) rule"
    using pattern_matches_prefix(1) [of up ci "rScope r" "rPat r" str] assms that
    by (auto simp: text_ok_def rule_matches_def rule_view_def)
  then show ?thesis
    by (auto simp: fast_hits_def filter_empty_conv)
qed

lemma fast_hits_literal:
  fixes str :: "'c::len word list"
  assumes "text_ok up ci str" "L \<noteq> length str" "\<forall>r \<in> set rules. vWild (rule_view up ci r) = []"
  shows "fast_hits up ci str rules L = []"
proof -
  have "\<not> rule_matches up ci str r" if "r \<in> set rules" "length (vPrefix (rule_view up ci r)) = L" for r
    using pattern_matches_prefix(3) [of up ci "rScope r" "rPat r" str] assms that
    by (auto simp: text_ok_def rule_matches_def rule_view_def)
  then show ?thesis
    by (auto simp: fast_hits_def filter_empty_conv)
qed

text \<open>A text the hash filter turns away matches no rule of that length.\<close>

lemma fast_hits_filtered:
  fixes str :: "'c::len word list"
  assumes "text_ok up (m_bCaseInsensitive e) str" "filters_ok up e rules"
    and "filter_test (m_HashFilter e) (block_hash 0 (map (fold_char up (m_bCaseInsensitive e)) (take L str))) = Some False"
  shows "fast_hits up (m_bCaseInsensitive e) str rules L = []"
proof -
  let ?view = "rule_view up (m_bCaseInsensitive e)"
  have "\<not> rule_matches up (m_bCaseInsensitive e) str r"
    if r: "r \<in> set rules" "\<not> is_slow (?view r)" "length (vPrefix (?view r)) = L" for r
  proof
    assume "rule_matches up (m_bCaseInsensitive e) str r"
    then have "vPrefix (?view r) = map (fold_char up (m_bCaseInsensitive e)) (take L str)"
      using pattern_matches_prefix(2) [of up "m_bCaseInsensitive e" "rScope r" "rPat r" str] assms(1) r(3)
      by (simp add: text_ok_def rule_matches_def rule_view_def)
    moreover have "filter_test (m_HashFilter e) (block_hash 0 (vPrefix (?view r))) = Some True"
      using assms(2) r(1,2) by (simp add: filters_ok_def Let_def)
    ultimately show False
      using assms(3) by simp
  qed
  then show ?thesis
    by (auto simp: fast_hits_def filter_empty_conv)
qed

text \<open>Looking a hash up and running through its bucket, whether there is one or not.\<close>

lemma visit_bucket:
  fixes e :: "('c::len word, 'ctx) engine"
  assumes t: "text_ok up (m_bCaseInsensitive e) str" and h: "holds_rules up e rules" and c: "contexts_ok e rules"
    and tab: "table_ok KPrecomputedHash sizeof_Slot \<sigma> (m_HashMap e)" and L: "L \<le> length str"
  obtains r where
    "KFlatHashMap_Find KPrecomputedHash (m_HashMap e) (block_hash 0 (map (fold_char up (m_bCaseInsensitive e)) (take L str))) = Some r"
    "(case r of None \<Rightarrow> Some (False, s)
      | Some p \<Rightarrow> do { bucket \<leftarrow> value_at (m_HashMap e) p;
          entry_loop e (\<lambda>v. fast_check up (m_bCaseInsensitive e) v str L) f (kv_elems bucket) s }) =
     Some (feed f s (map (context_address e) (fast_hits up (m_bCaseInsensitive e) str rules L)))"
proof -
  let ?hash = "block_hash 0 (map (fold_char up (m_bCaseInsensitive e)) (take L str))"
  obtain r where r: "KFlatHashMap_Find KPrecomputedHash (m_HashMap e) ?hash = Some r"
      "\<And>p. r = Some p \<Longrightarrow> has_key (hm_slots (m_HashMap e)) ?hash p" "r = None \<longleftrightarrow> hm_map (m_HashMap e) ?hash = None"
    using buckets.Find_spec [OF tab, of ?hash] by metis
  note visit = bucket_eq [OF t h c L, of f s]
  show thesis
  proof (cases r)
    case None
    then have "bucket e ?hash = []"
      using r(3) by (simp add: bucket_def)
    then show thesis
      using visit None by (intro that [OF r(1)]) simp
  next
    case (Some p)
    obtain v where "value_at (m_HashMap e) p = Some v" "hm_map (m_HashMap e) ?hash = Some v"
      by (rule buckets.has_key_value [OF tab r(2) [OF Some]])
    then show thesis
      using visit Some by (intro that [OF r(1)]) (simp add: bucket_def)
  qed
qed

text \<open>
  One length: the rules filed under it are visited, and unless the collector stops, the loop goes on;
  without wildcards it may leave after the bucket of the text's own length.
\<close>

lemma length_loop_step:
  fixes e :: "('c::len word, 'ctx) engine"
  assumes t: "text_ok up (m_bCaseInsensitive e) str" and h: "holds_rules up e rules" and c: "contexts_ok e rules"
    and fo: "filters_ok up e rules" and tab: "table_ok KPrecomputedHash sizeof_Slot \<sigma> (m_HashMap e)"
    and L: "L \<le> length str" "m_bWildCardPresent e \<or> L = length str" "i * chars_per_block TYPE('c) \<le> L"
    and fd: "feed f s (map (context_address e) (fast_hits up (m_bCaseInsensitive e) str rules L)) = (stop, s1)"
  obtains again where "m_bWildCardPresent e \<longrightarrow> again"
    "length_loop up e str f (L # lens) i (rolled up (m_bCaseInsensitive e) str i) s =
       (if stop then Some (True, s1)
        else if again then length_loop up e str f lens (L div chars_per_block TYPE('c))
               (rolled up (m_bCaseInsensitive e) str (L div chars_per_block TYPE('c))) s1
        else Some (False, s1))"
proof -
  let ?ci = "m_bCaseInsensitive e" and ?m = "L div chars_per_block TYPE('c)"
  let ?hash = "block_hash 0 (map (fold_char up ?ci) (take L str))"
  have tc: "tchar_ok TYPE('c)" "length str < 2 ^ 32"
    using t by (simp_all add: text_ok_def)
  have ph: "prefix_hash up ?ci str L i (rolled up ?ci str i) = Some (?hash, ?m, rolled up ?ci str ?m)"
    using L(3) by (intro prefix_hash_eq [OF tc(1) L(1) tc(2)]) simp
  have guard: "\<not> (\<not> m_bWildCardPresent e \<and> L \<noteq> length str)" "\<not> length str < L"
    using L by auto
  have "length (m_HashFilter e) = 16"
    using fo by (simp add: filters_ok_def Let_def)
  then obtain present where present: "filter_test (m_HashFilter e) ?hash = Some present"
    using filter_test_total by blast
  show thesis
  proof (cases present)
    case False
    then have "fast_hits up ?ci str rules L = []"
      using present by (intro fast_hits_filtered [OF t fo]) simp
    then have "stop = False" "s1 = s"
      using fd by simp_all
    moreover have "length_loop up e str f (L # lens) i (rolled up ?ci str i) s = length_loop up e str f lens ?m (rolled up ?ci str ?m) s"
      unfolding length_loop.simps(2) if_not_P [OF guard(1)] if_not_P [OF guard(2)]
      using ph present False by simp
    ultimately show thesis
      by (intro that [of True]) simp_all
  next
    case True
    obtain r where r: "KFlatHashMap_Find KPrecomputedHash (m_HashMap e) ?hash = Some r"
        "(case r of None \<Rightarrow> Some (False, s)
          | Some p \<Rightarrow> do { bucket \<leftarrow> value_at (m_HashMap e) p;
              entry_loop e (\<lambda>v. fast_check up ?ci v str L) f (kv_elems bucket) s }) = Some (stop, s1)"
      using visit_bucket [OF t h c tab L(1), of s f] fd by metis
    have "length_loop up e str f (L # lens) i (rolled up ?ci str i) s =
        (if stop then Some (True, s1) else if \<not> m_bWildCardPresent e then Some (False, s1)
         else length_loop up e str f lens ?m (rolled up ?ci str ?m) s1)"
      unfolding length_loop.simps(2) if_not_P [OF guard(1)] if_not_P [OF guard(2)]
      using ph present True r by simp
    then show thesis
      by (intro that [of "m_bWildCardPresent e"]) simp_all
  qed
qed

lemma length_loop_eq:
  fixes e :: "('c::len word, 'ctx) engine"
  assumes t: "text_ok up (m_bCaseInsensitive e) str" and h: "holds_rules up e rules" and c: "contexts_ok e rules"
    and fo: "filters_ok up e rules" and tab: "table_ok KPrecomputedHash sizeof_Slot \<sigma> (m_HashMap e)"
  shows "sorted_wrt (<) lens \<Longrightarrow> \<forall>L \<in> set lens. i * chars_per_block TYPE('c) \<le> L \<Longrightarrow>
     length_loop up e str f lens i (rolled up (m_bCaseInsensitive e) str i) s =
     Some (feed f s (map (context_address e) (concat (map (fast_hits up (m_bCaseInsensitive e) str rules) lens))))"
proof (induction lens arbitrary: i s)
  case Nil
  then show ?case by simp
next
  case (Cons L lens)
  let ?ci = "m_bCaseInsensitive e" and ?k = "chars_per_block TYPE('c)"
  let ?hits = "fast_hits up ?ci str rules"
  have later: "L < L'" if "L' \<in> set lens" for L'
    using Cons.prems(1) that by simp
  have done_long: "concat (map ?hits lens) = []" if "length str \<le> L"
  proof -
    have "?hits L' = []" if "L' \<in> set lens" for L'
      using later [OF that] \<open>length str \<le> L\<close> by (intro fast_hits_long [OF t]) simp
    then show ?thesis by simp
  qed
  consider (long) "length str < L" | (skip) "L \<le> length str" "\<not> m_bWildCardPresent e" "L \<noteq> length str"
    | (look) "L \<le> length str" "m_bWildCardPresent e \<or> L = length str"
    by linarith
  then show ?case
  proof cases
    case long
    then have "concat (map ?hits (L # lens)) = []"
      using done_long fast_hits_long [OF t] by simp
    then show ?thesis
      using long by (simp only: list.map feed.simps) simp
  next
    case skip
    have "\<forall>r \<in> set rules. vWild (rule_view up ?ci r) = []"
      using fo skip(2) by (simp add: filters_ok_def Let_def)
    then have "?hits L = []"
      by (rule fast_hits_literal [OF t skip(3)])
    then show ?thesis
      using skip Cons.IH [of i s] Cons.prems by simp
  next
    case look
    obtain stop s1 where fd: "feed f s (map (context_address e) (?hits L)) = (stop, s1)"
      by (cases "feed f s (map (context_address e) (?hits L))")
    obtain again where step: "m_bWildCardPresent e \<longrightarrow> again"
        "length_loop up e str f (L # lens) i (rolled up ?ci str i) s =
          (if stop then Some (True, s1)
           else if again then length_loop up e str f lens (L div ?k) (rolled up ?ci str (L div ?k)) s1 else Some (False, s1))"
      using length_loop_step [OF t h c fo tab look _ fd, of i lens] Cons.prems(2) by auto
    have "L div ?k * ?k \<le> L'" if "L' \<in> set lens" for L'
      using later [OF that] div_times_less_eq_dividend [of L ?k] by linarith
    then have IH: "length_loop up e str f lens (L div ?k) (rolled up ?ci str (L div ?k)) s1 =
        Some (feed f s1 (map (context_address e) (concat (map ?hits lens))))"
      using Cons.prems(1) by (intro Cons.IH) simp_all
    have "feed f s1 (map (context_address e) (concat (map ?hits lens))) = (False, s1)" if "\<not> again"
    proof -
      have "concat (map ?hits lens) = []"
        using done_long look(2) step(1) that by blast
      then show ?thesis
        by (simp only: list.map feed.simps)
    qed
    then show ?thesis
      unfolding step(2) using fd IH by (simp add: feed_append)
  qed
qed

section \<open>The core search\<close>

lemma slow_hits_literal:
  assumes "\<forall>r \<in> set rules. vWild (rule_view up ci r) = []"
  shows "slow_hits up ci str rules = []"
  using assms by (auto simp: slow_hits_def is_slow_def filter_empty_conv)

lemma rule_matches_min:
  fixes str :: "'c::len word list"
  assumes "text_ok up (m_bCaseInsensitive e) str" "filters_ok up e rules" "r \<in> set rules"
    and "rule_matches up (m_bCaseInsensitive e) str r"
  shows "m_nGlobalMinMatchLength e \<le> length str"
  using assms pattern_matches_prefix(1) [of up "m_bCaseInsensitive e" "rScope r" "rPat r" str]
  by (fastforce simp: filters_ok_def Let_def text_ok_def rule_matches_def rule_view_def)

lemma hits_empty: "\<forall>r \<in> set rules. \<not> rule_matches up (m_bCaseInsensitive e) str r \<Longrightarrow> hits up e str rules = []"
  by (auto simp: hits_def fast_hits_def slow_hits_def filter_empty_conv)

lemma slow_hits_none:
  assumes "holds_rules up e rules" "KVector_Size (m_SlowPathList e) = 0"
  shows "slow_hits up (m_bCaseInsensitive e) str rules = []"
proof -
  have "list_all2 (represents up (m_bCaseInsensitive e) (m_StringArena e)) (slow_rules up (m_bCaseInsensitive e) rules)
      (kv_elems (m_SlowPathList e))"
    using assms(1) by (simp add: holds_rules_def Let_def)
  then have "slow_rules up (m_bCaseInsensitive e) rules = []"
    using assms(2) by (simp add: KVector_Size_def)
  then show ?thesis
    by (auto simp: slow_rules_def slow_hits_def filter_empty_conv)
qed

text \<open>The two early exits are taken only by texts that match nothing.\<close>

lemma hits_early_exit:
  fixes e :: "('c::len word, 'ctx) engine"
  assumes t: "text_ok up (m_bCaseInsensitive e) str" and h: "holds_rules up e rules" and c: "contexts_ok e rules"
    and fo: "filters_ok up e rules"
  shows "m_nPatternCount e = 0 \<or> length str < m_nGlobalMinMatchLength e \<Longrightarrow> hits up e str rules = []"
    and "KVector_Size (m_SlowPathList e) = 0 \<and> (kv_elems (m_LengthVec e) = [] \<or> length str < hd (kv_elems (m_LengthVec e))) \<Longrightarrow>
      hits up e str rules = []"
proof -
  let ?ci = "m_bCaseInsensitive e" and ?lens = "kv_elems (m_LengthVec e)"
  show "hits up e str rules = []" if "m_nPatternCount e = 0 \<or> length str < m_nGlobalMinMatchLength e"
  proof (rule hits_empty, intro ballI notI)
    fix r assume "r \<in> set rules" "rule_matches up ?ci str r"
    then show False
      using that rule_matches_min [OF t fo, of r] c by (auto simp: contexts_ok_def)
  qed
  show "hits up e str rules = []" if out: "KVector_Size (m_SlowPathList e) = 0 \<and> (?lens = [] \<or> length str < hd ?lens)"
  proof -
    have sorted: "sorted_wrt (<) ?lens"
      using fo by (simp add: filters_ok_def Let_def)
    have "fast_hits up ?ci str rules L = []" if L: "L \<in> set ?lens" for L
    proof -
      have "hd ?lens \<le> L" "?lens \<noteq> []"
        using L sorted by (cases ?lens, auto)+
      then show ?thesis
        using out by (intro fast_hits_long [OF t]) simp
    qed
    then have "concat (map (fast_hits up ?ci str rules) ?lens) = []"
      by simp
    then show ?thesis
      using slow_hits_none [OF h] out by (simp add: hits_def)
  qed
qed

text \<open>Where the loop over the lengths starts when no pattern has a wildcard.\<close>

lemma length_start_literal:
  assumes sorted: "sorted_wrt (<) (kv_elems (m_LengthVec e))" and e: "\<not> m_bWildCardPresent e" "kv_elems (m_LengthVec e) \<noteq> []"
  obtains (absent) "n \<notin> set (kv_elems (m_LengthVec e))" "length_start e n = Some None"
    | (present) i where "length_start e n = Some (Some i)" "i \<le> length (kv_elems (m_LengthVec e))"
        "\<forall>j < i. kv_elems (m_LengthVec e) ! j < n"
proof -
  let ?lens = "kv_elems (m_LengthVec e)"
  note mono = strict_sorted_imp_sorted [OF sorted]
  obtain i where i: "lower_bound ?lens n 0 (length ?lens) = Some i" "i \<le> length ?lens"
      "\<forall>j < i. ?lens ! j < n" "\<forall>j. i \<le> j \<and> j < length ?lens \<longrightarrow> n \<le> ?lens ! j"
    using lower_bound_correct mono by metis
  have start: "length_start e n =
      (if n > ?lens ! (length ?lens - 1) \<or> i = length ?lens \<or> ?lens ! i \<noteq> n then Some None else Some (Some i))"
    using e i(1,2) by (simp add: length_start_def Let_def)
  show thesis
  proof (cases "n \<in> set ?lens")
    case False
    then have "length_start e n = Some None"
      unfolding start using i(2) nth_mem [of i ?lens] by (metis le_neq_implies_less)
    then show thesis
      by (rule absent [OF False])
  next
    case True
    then obtain j where j: "j < length ?lens" "?lens ! j = n"
      by (auto simp: in_set_conv_nth)
    have ij: "i \<le> j"
      using i(3) j(2) by (metis linorder_not_less less_irrefl)
    then have "?lens ! i \<le> n" "n \<le> ?lens ! i"
      using sorted_nth_mono [OF mono ij j(1)] i(4) j by simp_all
    moreover have "n \<le> ?lens ! (length ?lens - 1)"
      using sorted_nth_mono [OF mono, of j "length ?lens - 1"] j by fastforce
    ultimately have "length_start e n = Some (Some i)"
      unfolding start using ij j(1) by simp
    then show thesis
      by (rule present [OF _ i(2,3)])
  qed
qed

text \<open>From whatever length the loop starts, it and the slow path visit the rules from there on.\<close>

lemma search_from:
  fixes e :: "('c::len word, 'ctx) engine"
  assumes t: "text_ok up (m_bCaseInsensitive e) str" and ok: "engine_ok up csz \<sigma> e rules"
  shows "do { (stop, s) \<leftarrow> length_loop up e str f (drop i (kv_elems (m_LengthVec e))) 0 0 s;
      if stop then Some (True, s) else ProcessSlowPath up e str f s } =
    Some (feed f s (map (context_address e)
      (concat (map (fast_hits up (m_bCaseInsensitive e) str rules) (drop i (kv_elems (m_LengthVec e)))) @
       slow_hits up (m_bCaseInsensitive e) str rules)))"
proof -
  have h: "holds_rules up e rules" and c: "contexts_ok e rules" and fo: "filters_ok up e rules"
    and tab: "table_ok KPrecomputedHash sizeof_Slot \<sigma> (m_HashMap e)"
    using ok by (simp_all add: engine_ok_def memory_ok_def hm_ok_def)
  have "sorted_wrt (<) (drop i (kv_elems (m_LengthVec e)))"
    using fo by (intro sorted_wrt_drop) (simp add: filters_ok_def Let_def)
  then have "length_loop up e str f (drop i (kv_elems (m_LengthVec e))) 0 0 s =
      Some (feed f s (map (context_address e)
        (concat (map (fast_hits up (m_bCaseInsensitive e) str rules) (drop i (kv_elems (m_LengthVec e)))))))"
    using length_loop_eq [OF t h c fo tab, of "drop i (kv_elems (m_LengthVec e))" 0 f s] by simp
  then show ?thesis
    using slow_path_eq [OF t h c, of f] by (simp add: feed_append split: prod.splits)
qed

text \<open>Without wildcards only the bucket of the text's own length can hold a match.\<close>

lemma search_literals:
  fixes e :: "('c::len word, 'ctx) engine"
  assumes t: "text_ok up (m_bCaseInsensitive e) str" and ok: "engine_ok up csz \<sigma> e rules" and w: "\<not> m_bWildCardPresent e"
  shows "\<exists>i. length_start e (length str) = Some i \<and>
     (case i of None \<Rightarrow> hits up e str rules = []
      | Some i \<Rightarrow> hits up e str rules = concat (map (fast_hits up (m_bCaseInsensitive e) str rules) (drop i (kv_elems (m_LengthVec e)))) @
          slow_hits up (m_bCaseInsensitive e) str rules)"
proof -
  let ?lens = "kv_elems (m_LengthVec e)" and ?hits = "fast_hits up (m_bCaseInsensitive e) str rules"
  have fo: "filters_ok up e rules"
    using ok by (simp add: engine_ok_def)
  have lits: "\<forall>r \<in> set rules. vWild (rule_view up (m_bCaseInsensitive e) r) = []"
    using fo w by (simp add: filters_ok_def Let_def)
  have sorted: "sorted_wrt (<) ?lens"
    using fo by (simp add: filters_ok_def Let_def)
  have skip: "?hits L = []" if "L \<noteq> length str" for L
    by (rule fast_hits_literal [OF t that lits])
  show ?thesis
  proof (cases "?lens = []")
    case True
    then show ?thesis
      using w slow_hits_literal [OF lits] by (cases "length str") (simp_all add: length_start_def hits_def)
  next
    case False
    show ?thesis
    proof (cases rule: length_start_literal [OF sorted w False, of "length str", case_names absent present])
      case absent
      then have "concat (map ?hits ?lens) = []"
        using skip by (simp, metis)
      then show ?thesis
        using absent(2) slow_hits_literal [OF lits] by (simp add: hits_def)
    next
      case (present i)
      have "?hits L = []" if "L \<in> set (take i ?lens)" for L
        using that present(2,3) skip by (auto simp: in_set_conv_nth)
      then have "concat (map ?hits (take i ?lens)) = []"
        by simp
      moreover have "concat (map ?hits ?lens) = concat (map ?hits (take i ?lens)) @ concat (map ?hits (drop i ?lens))"
        by (metis append_take_drop_id concat_append map_append)
      ultimately show ?thesis
        using present(1) by (simp add: hits_def)
    qed
  qed
qed

theorem SearchInternal_eq:
  fixes e :: "('c::len word, 'ctx) engine"
  assumes t: "text_ok up (m_bCaseInsensitive e) str" and ok: "engine_ok up csz \<sigma> e rules"
  shows "SearchInternal up e str f s = Some (feed f s (map (context_address e) (hits up e str rules)))"
proof -
  let ?lens = "kv_elems (m_LengthVec e)"
  have "holds_rules up e rules" "contexts_ok e rules" "filters_ok up e rules"
    using ok by (simp_all add: engine_ok_def)
  note early = hits_early_exit [OF t this]
  have start: "\<exists>i. length_start e (length str) = Some i \<and>
     (case i of None \<Rightarrow> hits up e str rules = []
      | Some i \<Rightarrow> hits up e str rules = concat (map (fast_hits up (m_bCaseInsensitive e) str rules) (drop i ?lens)) @
          slow_hits up (m_bCaseInsensitive e) str rules)"
  proof (cases "m_bWildCardPresent e")
    case True
    then show ?thesis
      by (simp add: length_start_def hits_def)
  next
    case False
    then show ?thesis
      by (rule search_literals [OF t ok])
  qed
  show ?thesis
  proof (cases "(m_nPatternCount e = 0 \<or> length str < m_nGlobalMinMatchLength e) \<or>
      KVector_Size (m_SlowPathList e) = 0 \<and> (?lens = [] \<or> length str < hd ?lens)")
    case True
    then have "hits up e str rules = []"
      using early by blast
    then show ?thesis
      using True by (auto simp: SearchInternal_def Let_def)
  next
    case False
    then have go: "\<not> (m_nPatternCount e = 0 \<or> length str < m_nGlobalMinMatchLength e)"
        "\<not> (KVector_Size (m_SlowPathList e) = 0 \<and> (?lens = [] \<or> length str < hd ?lens))"
      by blast+
    note search = SearchInternal_def [unfolded Let_def] if_not_P [OF go(1)] if_not_P [OF go(2)]
    obtain i where i: "length_start e (length str) = Some i"
      using start by blast
    show ?thesis
    proof (cases i)
      case None
      then have "hits up e str rules = []" "length_start e (length str) = Some None"
        using start i by simp_all
      then show ?thesis
        unfolding search by simp
    next
      case (Some j)
      then have "hits up e str rules = concat (map (fast_hits up (m_bCaseInsensitive e) str rules) (drop j ?lens)) @
            slow_hits up (m_bCaseInsensitive e) str rules" "length_start e (length str) = Some (Some j)"
        using start i by simp_all
      then show ?thesis
        unfolding search using search_from [OF t ok, of f j s] by simp
    qed
  qed
qed

end
