(* ===== verification/EngineText.thy ===== *)
theory EngineText
  imports EngineSearchSpec
begin

text \<open>
  The parsing phases of \<open>AddPattern\<close> store the pattern's text in the arena so that the new
  entry reads as the parsed pattern, and touch nothing that was stored before.
\<close>

section \<open>The parts of a parsed pattern\<close>

lemma parse_view_eqs:
  fixes pat :: "'c::len word list" and scope :: wild_card_scope
  assumes ok: "tchar_ok TYPE('c)" "case_table_ok up ci" and pp: "parse_prefix pat 0 0 = (raw, u)"
  defines "v \<equiv> parse_view up ci scope pat" and "buf \<equiv> stable_chars up ci pat raw"
  defines "w \<equiv> drop u buf"
  defines "wildEnd \<equiv> last_wildcard_end w 0 0"
  shows "raw \<le> length pat" "u \<le> raw" "length buf = u + (length pat - raw)"
    and "vPrefix v = take u buf" "vWild v = take wildEnd w" "vTail v = copy_tail w wildEnd"
    and "vMin v = suffix_min_length w 0 0" "vScope v = scope" "wildEnd \<le> length w"
    and "vWild v = [] \<longleftrightarrow> raw = length pat"
    and "vFirst v = (if is_slow v then first_literal_char (vWild v) 0 False False else 0)"
proof -
  note split = parse_prefix_split [OF ok(1) pp]
  show raw: "raw \<le> length pat" "u \<le> raw"
    by (rule split(1,3))+
  have cs: "copy_suffix up ci pat raw = map (fold_char up ci) (drop raw pat)"
    using split(1) by (intro nth_equalityI) (simp_all add: copy_suffix_def)
  have st: "buf = copy_prefix up ci pat raw 0 @ map (fold_char up ci) (drop raw pat)"
    by (simp add: buf_def stable_chars_def cs)
  show len: "length buf = u + (length pat - raw)"
    using split(2) by (simp add: st)
  have w: "w = map (fold_char up ci) (drop raw pat)"
    using split(2) by (simp add: w_def st)
  show v: "vPrefix v = take u buf" "vWild v = take wildEnd w" "vTail v = copy_tail w wildEnd"
      "vMin v = suffix_min_length w 0 0" "vScope v = scope"
    by (simp_all only: v_def parse_view_def pp Let_def prod.case view.simps w_def buf_def wildEnd_def)
  note wsplit = last_wildcard_end_split [OF ok(1), of w, folded wildEnd_def]
  show "wildEnd \<le> length w"
    by (rule wsplit(1))
  have pos: "0 < wildEnd" if "raw < length pat"
  proof -
    have wild: "pat ! raw = kStar \<or> pat ! raw = kQuestion"
      by (rule split(5) [OF that])
    moreover have "is_special (pat ! raw)"
      using wild by (auto simp: is_special_def)
    moreover have "w ! 0 = fold_char up ci (pat ! raw)"
      using that by (simp add: w)
    ultimately have "w ! 0 = kStar \<or> w ! 0 = kQuestion"
      using fold_char_special(2) [OF ok, of "pat ! raw"] by simp
    then show ?thesis
      using wsplit(3) that w by auto
  qed
  then show empty: "vWild v = [] \<longleftrightarrow> raw = length pat"
    using pos raw(1) w by (cases "raw < length pat") (auto simp: v(2))
  have slow: "is_slow v \<longleftrightarrow> u = 0 \<and> 0 < length w"
    using empty raw(1) len by (auto simp: is_slow_def v(1) w)
  have "vFirst v = (if u = 0 \<and> 0 < length w then first_literal_char (take wildEnd w) 0 False False else 0)"
    by (simp only: v_def parse_view_def pp Let_def prod.case view.simps w_def buf_def wildEnd_def)
  then show "vFirst v = (if is_slow v then first_literal_char (vWild v) 0 False False else 0)"
    by (simp add: slow v(2))
qed

section \<open>Storing characters\<close>

lemma chain_tail:
  assumes "arena_chain \<sigma> a bs" "arena_chain \<sigma>' a' (bs @ new)" "Tail a' = Some x"
  shows "Tail a = Some x \<or> slabs a x = None"
proof (cases "new = []")
  case True
  then show ?thesis
    using assms by (simp add: arena_chain_def)
next
  case False
  then have "x \<in> set new"
    using assms(2,3) by (auto simp: arena_chain_def last_opt_def split: if_splits)
  then have "x \<notin> dom (slabs a)"
    using assms(1,2) by (auto simp: arena_chain_def)
  then show ?thesis
    by auto
qed

lemma lseg_unique: "lseg m h xs None \<Longrightarrow> lseg m h ys None \<Longrightarrow> xs = ys"
proof (induction xs arbitrary: h ys)
  case Nil
  then show ?case by (cases ys) auto
next
  case (Cons x xs)
  then show ?case by (cases ys) auto
qed

lemma arena_chain_unique: "arena_chain \<sigma> a bs \<Longrightarrow> arena_chain \<sigma> a cs \<Longrightarrow> bs = cs"
  unfolding arena_chain_def using lseg_unique by blast

text \<open>What happens to an arena inside a transaction that began with the chain \<open>bs\<close>.\<close>

definition arena_step :: "sys \<Rightarrow> 'c::len word arena \<Rightarrow> nat list \<Rightarrow> sys \<Rightarrow> 'c word arena \<Rightarrow> bool" where
  "arena_step \<sigma> a bs \<sigma>' a' \<longleftrightarrow>
     owns_step \<sigma> (arena_owned a) \<sigma>' (arena_owned a') \<and> (\<exists>new. arena_chain \<sigma>' a' (bs @ new)) \<and>
     grows a a' \<and> frozen a a'"

lemma arena_step_refl: "sys_ok \<sigma> \<Longrightarrow> arena_chain \<sigma> a bs \<Longrightarrow> arena_step \<sigma> a bs \<sigma> a"
  using arena_ok_owned [of \<sigma> a] unfolding arena_step_def arena_ok_def
  by (auto intro: owns_step_refl exI [of _ "[]"])

lemma arena_step_trans:
  assumes ok: "sys_ok \<sigma>" "arena_chain \<sigma> a bs" and st: "arena_step \<sigma> a bs \<sigma>1 a1"
    and ch: "arena_chain \<sigma>1 a1 cs" "arena_step \<sigma>1 a1 cs \<sigma>2 a2"
  shows "arena_step \<sigma> a bs \<sigma>2 a2"
proof -
  obtain new1 where n1: "arena_chain \<sigma>1 a1 (bs @ new1)"
    using st by (auto simp: arena_step_def)
  have cs: "cs = bs @ new1"
    by (rule arena_chain_unique [OF ch(1) n1])
  obtain new2 where n2: "arena_chain \<sigma>2 a2 ((bs @ new1) @ new2)"
    using ch(2) cs by (auto simp: arena_step_def)
  have "owns_step \<sigma> (arena_owned a) \<sigma>2 (arena_owned a2)"
    using st ch(2) owns_step_trans ok(1) unfolding arena_step_def by blast
  moreover have "grows a a2" "frozen a a2"
    using st ch(2) grows_trans [of a a1 a2] frozen_trans [of a a1 a2] chain_tail [OF ok(2) n1]
    unfolding arena_step_def by blast+
  ultimately show ?thesis
    using n2 unfolding arena_step_def by auto
qed

lemma Allocate_step:
  fixes a :: "'c::len word arena"
  assumes tc: "tchar_ok TYPE('c)" and ok: "sys_ok \<sigma>" "arena_chain \<sigma> a bs" and n: "0 < n" "n < 2 ^ 33"
    and al: "Allocate \<sigma> a n = (r, a', \<sigma>')"
  shows "arena_step \<sigma> a bs \<sigma>' a'"
  using Allocate_spec(1-4) [OF tc ok n al] by (simp add: arena_step_def)

lemma store_chars_room:
  fixes a :: "'c::len word arena"
  assumes "tchar_ok TYPE('c)" "sys_ok \<sigma>" "generous \<sigma>" "arena_chain \<sigma> a bs" "n < 2 ^ 33"
    and "store_chars \<sigma> a n cs = Some (r, a', \<sigma>')"
  shows "\<exists>p. r = Inr p"
proof (cases "n = 0")
  case True
  then show ?thesis
    using assms(6) by (auto simp: store_chars_def)
next
  case False
  obtain p a1 \<sigma>1 where al: "Allocate \<sigma> a n = (p, a1, \<sigma>1)"
    by (cases "Allocate \<sigma> a n")
  then show ?thesis
    using Allocate_room [OF assms(1-4) _ assms(5) al] False assms(6)
    by (auto simp: store_chars_def split: bind_splits)
qed

lemma store_chars_spec:
  fixes a :: "'c::len word arena"
  assumes tc: "tchar_ok TYPE('c)" and ok: "sys_ok \<sigma>" "arena_chain \<sigma> a bs" and n: "length cs = n" "n < 2 ^ 33"
  obtains r a' \<sigma>' where "store_chars \<sigma> a n cs = Some (r, a', \<sigma>')" "arena_step \<sigma> a bs \<sigma>' a'"
    "\<And>p. r = Inr p \<Longrightarrow> read_chars a' p n = Some cs \<and> committed_chars a' \<lparr>psBuffer = p, psLength = n\<rparr>"
proof (cases "n = 0")
  case True
  then show thesis
    using n arena_step_refl [OF ok] by (intro that [of "Inr None" a \<sigma>]) (auto simp: store_chars_def read_chars_def committed_chars_def)
next
  case False
  obtain p a1 \<sigma>1 where al: "Allocate \<sigma> a n = (p, a1, \<sigma>1)"
    by (cases "Allocate \<sigma> a n")
  note st = Allocate_step [OF tc ok _ n(2) al]
  show thesis
  proof (cases p)
    case None
    then show ?thesis
      using st False al by (intro that [of "Inl ()" a1 \<sigma>1]) (simp_all add: store_chars_def)
  next
    case (Some q)
    have q: "committed a1 q n" "fresh_for a q"
      using Allocate_spec(6) [OF tc ok _ n(2) al, of q] False Some by simp_all
    obtain new where ch: "arena_chain \<sigma>1 a1 (bs @ new)" and g: "grows a a1" "frozen a a1"
        and own: "owns_step \<sigma> (arena_owned a) \<sigma>1 (arena_owned a1)"
      using st False by (auto simp: arena_step_def)
    obtain a2 where w: "arena_write a1 q cs = Some a2" "arena_chain \<sigma>1 a2 (bs @ new)" "arena_owned a2 = arena_owned a1"
        "arena_read a2 q n = Some cs" "committed a2 q n = committed a1 q n"
        "grows a a1 \<longrightarrow> fresh_for a q \<longrightarrow> grows a a2" "frozen a a1 \<longrightarrow> frozen a a2"
      using arena_write_spec [OF ch, of q cs] q(1) n(1) by blast
    have "store_chars \<sigma> a n cs = Some (Inr (Some q), a2, \<sigma>1)"
      using al Some False w(1) by (simp add: store_chars_def)
    moreover have "arena_step \<sigma> a bs \<sigma>1 a2"
      using own w g q(2) by (auto simp: arena_step_def)
    ultimately show ?thesis
      using w(4,5) q(1) by (intro that) (auto simp: read_chars_def committed_chars_def)
  qed
qed

text \<open>A part of what was read.\<close>

lemma those_map_nth: "those (map f [0..<n]) = Some cs \<longleftrightarrow> length cs = n \<and> (\<forall>i<n. f i = Some (cs ! i))"
proof (induction n arbitrary: f cs)
  case 0
  then show ?case by auto
next
  case (Suc n)
  have "[0..<Suc n] = 0 # map Suc [0..<n]"
    by (simp add: upt_conv_Cons map_Suc_upt del: upt_Suc)
  then show ?case
    using Suc.IH [of "f \<circ> Suc"]
    by (cases cs; cases "f 0") (auto simp: All_less_Suc2 o_def simp del: upt_Suc split: option.splits)
qed

lemma read_part:
  assumes "read_chars a p n = Some cs" "committed_chars a \<lparr>psBuffer = p, psLength = n\<rparr>" "k + m \<le> n"
  shows "read_chars a (offset p k) m = Some (take m (drop k cs))"
    and "committed_chars a \<lparr>psBuffer = offset p k, psLength = m\<rparr>"
proof -
  show "committed_chars a \<lparr>psBuffer = offset p k, psLength = m\<rparr>"
    using assms(2,3) by (auto simp: committed_chars_def offset_def committed_def split: option.splits)
  show "read_chars a (offset p k) m = Some (take m (drop k cs))"
  proof (cases p)
    case None
    then show ?thesis
      using assms by (auto simp: read_chars_def offset_def split: if_splits)
  next
    case (Some q)
    obtain b i where q: "q = (b, i)"
      by (cases q)
    obtain s where s: "slabs a b = Some s" "i + n \<le> Capacity s" "those (map (\<lambda>j. Buffer s (i + j)) [0..<n]) = Some cs"
      using assms(1) Some q by (auto simp: read_chars_def arena_read_def split: option.splits if_splits)
    then have cs: "length cs = n" "\<And>j. j < n \<Longrightarrow> Buffer s (i + j) = Some (cs ! j)"
      by (simp_all add: those_map_nth)
    have "those (map (\<lambda>j. Buffer s (i + k + j)) [0..<m]) = Some (take m (drop k cs))"
      using cs assms(3) cs(2) [of "k + j" for j] by (auto simp: those_map_nth add.assoc)
    then show ?thesis
      using s(1,2) assms(3) Some q by (simp add: read_chars_def offset_def arena_read_def)
  qed
qed

lemma offset_0 [simp]: "offset p 0 = p"
  by (cases p) (auto simp: offset_def)

lemma committed_null: "committed_chars a \<lparr>psBuffer = None, psLength = 0\<rparr>"
  by (simp add: committed_chars_def)

section \<open>The parsing phases\<close>

text \<open>The entry made from the parsed text reads as the parsed pattern.\<close>

definition parsed_ok :: "'c::len word arena \<Rightarrow> parsed \<Rightarrow> 'c word view \<Rightarrow> bool" where
  "parsed_ok a p v \<longleftrightarrow>
     prefixUnescapedLen p = length (vPrefix v) \<and> lastWildcardEnd p = length (vWild v) \<and>
     suffixMinLength p = vMin v \<and> (cchWildPart p = 0 \<longleftrightarrow> vWild v = []) \<and>
     read_chars a (pStableBuffer p) (prefixUnescapedLen p) = Some (vPrefix v) \<and>
     (\<forall>count idx. view_of a (new_entry p count idx (vScope v)) = Some (v\<lparr>vFirst := 0\<rparr>) \<and>
        committed_chars a (LiteralPrefix (new_entry p count idx (vScope v) :: 'c word pentry)) \<and>
        committed_chars a (WildcardSuffix (new_entry p count idx (vScope v) :: 'c word pentry)) \<and>
        committed_chars a (TailAnchor (new_entry p count idx (vScope v) :: 'c word pentry)))"

text \<open>\<open>holds_text a p n cs\<close>: the \<open>n\<close> characters at \<open>p\<close> are \<open>cs\<close> and in use.\<close>

definition holds_text :: "'c::len word arena \<Rightarrow> ptr option \<Rightarrow> nat \<Rightarrow> 'c word list \<Rightarrow> bool" where
  "holds_text a p n cs \<longleftrightarrow> read_chars a p n = Some cs \<and> committed_chars a \<lparr>psBuffer = p, psLength = n\<rparr>"

lemma holds_text_part:
  "holds_text a p n cs \<Longrightarrow> k + m \<le> n \<Longrightarrow> holds_text a (offset p k) m (take m (drop k cs))"
  unfolding holds_text_def using read_part by blast

lemma holds_text_grows: "grows a a' \<Longrightarrow> holds_text a p n cs \<Longrightarrow> holds_text a' p n cs"
  using read_chars_grows [of a a' "\<lparr>psBuffer = p, psLength = n\<rparr>"] committed_chars_grows [of a a']
  by (simp add: holds_text_def)

lemma holds_text_null: "holds_text a None 0 []"
  by (simp add: holds_text_def read_chars_def committed_null)

lemma store_text:
  fixes a :: "'c::len word arena"
  assumes "tchar_ok TYPE('c)" "sys_ok \<sigma>" "arena_chain \<sigma> a bs" "length cs = n" "n < 2 ^ 33"
  obtains r a' \<sigma>' where "store_chars \<sigma> a n cs = Some (r, a', \<sigma>')" "arena_step \<sigma> a bs \<sigma>' a'"
    "\<And>p. r = Inr p \<Longrightarrow> holds_text a' p n cs" "generous \<sigma> \<Longrightarrow> \<exists>p. r = Inr p"
proof -
  obtain r a' \<sigma>' where s: "store_chars \<sigma> a n cs = Some (r, a', \<sigma>')" "arena_step \<sigma> a bs \<sigma>' a'"
      "\<And>p. r = Inr p \<Longrightarrow> read_chars a' p n = Some cs \<and> committed_chars a' \<lparr>psBuffer = p, psLength = n\<rparr>"
    using store_chars_spec [OF assms] by metis
  then show thesis
    using store_chars_room [OF assms(1,2) _ assms(3,5) s(1)] by (intro that) (auto simp: holds_text_def)
qed

text \<open>The two buffers make up the entry of the parsed pattern.\<close>

lemma holds_parsed:
  fixes a :: "'c::len word arena"
  assumes pre: "holds_text a pS (length (vPrefix v)) (vPrefix v)"
    and suf: "holds_text a (offset pS (length (vPrefix v))) (length (vWild v)) (vWild v)"
    and tail: "holds_text a pT (length (vTail v)) (vTail v)" and cw: "cw = 0 \<longleftrightarrow> vWild v = []"
  shows "parsed_ok a \<lparr>pStableBuffer = pS, prefixUnescapedLen = length (vPrefix v), cchWildPart = cw, suffixMinLength = vMin v,
    lastWildcardEnd = length (vWild v), pTailBuffer = pT, tailUnescapedLen = length (vTail v)\<rparr> v"
proof -
  have null: "read_chars a None 0 = Some (vWild v)" if "cw = 0"
    using cw that by (simp add: read_chars_def)
  show ?thesis
    using assms null by (cases "cw = 0") (simp_all add: parsed_ok_def holds_text_def view_of_def new_entry_def committed_null)
qed

text \<open>The phases of the parser after the stable buffer.\<close>

definition tail_phase ::
  "sys \<Rightarrow> 'c::len word arena \<Rightarrow> ptr option \<Rightarrow> nat \<Rightarrow> nat \<Rightarrow> ((unit + parsed) \<times> 'c word arena \<times> sys) option" where
  "tail_phase \<sigma> a pStable ulen cchWild =
     do {
       pWildSuffix \<leftarrow> (if cchWild > 0 then read_chars a (offset pStable ulen) cchWild else Some []);
       let wildEnd = last_wildcard_end pWildSuffix 0 0;
           tailLen = tail_unescaped_len pWildSuffix wildEnd 0
       in do {
         (r, a, \<sigma>) \<leftarrow> store_chars \<sigma> a tailLen (copy_tail pWildSuffix wildEnd);
         case r of
           Inl u \<Rightarrow> Some (Inl u, a, \<sigma>)
         | Inr pTail \<Rightarrow>
             Some (Inr \<lparr>pStableBuffer = pStable, prefixUnescapedLen = ulen, cchWildPart = cchWild,
               suffixMinLength = suffix_min_length pWildSuffix 0 0, lastWildcardEnd = wildEnd,
               pTailBuffer = pTail, tailUnescapedLen = tailLen\<rparr>, a, \<sigma>)
       }
     }"

lemma AddPattern_parse_phases:
  assumes "parse_prefix pat 0 0 = (raw, u)"
  shows "AddPattern_parse up \<sigma> a ci pat =
     do {
       (r, a, \<sigma>) \<leftarrow> (if length pat > 0
          then store_chars \<sigma> a (add32 u (sub32 (length pat) raw)) (stable_chars up ci pat raw) else Some (Inr None, a, \<sigma>));
       case r of
         Inl u \<Rightarrow> Some (Inl u, a, \<sigma>)
       | Inr pStable \<Rightarrow> tail_phase \<sigma> a pStable u (sub32 (length pat) raw)
     }"
  unfolding AddPattern_parse_def tail_phase_def assms Let_def prod.case ..

lemma store_stable:
  fixes pat :: "'c::len word list"
  assumes ok: "tchar_ok TYPE('c)" "case_table_ok up ci" and sys: "sys_ok \<sigma>" "arena_chain \<sigma> a bs"
    and len: "length pat < 2 ^ 32" and pp: "parse_prefix pat 0 0 = (raw, u)"
  obtains r a' \<sigma>' where
    "(if length pat > 0 then store_chars \<sigma> a (u + (length pat - raw)) (stable_chars up ci pat raw) else Some (Inr None, a, \<sigma>)) =
       Some (r, a', \<sigma>')" "arena_step \<sigma> a bs \<sigma>' a'"
    "\<And>p. r = Inr p \<Longrightarrow> holds_text a' p (u + (length pat - raw)) (stable_chars up ci pat raw)" "generous \<sigma> \<Longrightarrow> \<exists>p. r = Inr p"
proof -
  note pv = parse_view_eqs(1-3) [OF ok pp]
  show thesis
  proof (cases "length pat > 0")
    case True
    have "u + (length pat - raw) < 2 ^ 33"
      using pv(1,2) len by simp
    then show thesis
      using store_text [OF ok(1) sys pv(3)] that True by (metis (no_types, lifting))
  next
    case False
    then have "u + (length pat - raw) = 0" "stable_chars up ci pat raw = []"
      using pv by auto
    then show thesis
      using False arena_step_refl [OF sys] holds_text_null [of a] by (intro that) auto
  qed
qed

lemma tail_phase_spec:
  fixes pat :: "'c::len word list" and scope :: wild_card_scope
  assumes ok: "tchar_ok TYPE('c)" "case_table_ok up ci" and sys: "sys_ok \<sigma>" "arena_chain \<sigma> a bs"
    and len: "length pat < 2 ^ 32" and pp: "parse_prefix pat 0 0 = (raw, u)"
    and st: "holds_text a pS (u + (length pat - raw)) (stable_chars up ci pat raw)"
  defines "v \<equiv> parse_view up ci scope pat"
  obtains r a' \<sigma>' where "tail_phase \<sigma> a pS u (length pat - raw) = Some (r, a', \<sigma>')" "arena_step \<sigma> a bs \<sigma>' a'"
    "\<And>p. r = Inr p \<Longrightarrow> parsed_ok a' p v" "generous \<sigma> \<Longrightarrow> \<exists>p. r = Inr p"
proof -
  note pv = parse_view_eqs(1-3) [OF ok pp] parse_view_eqs(4-8) [OF ok pp, where scope = scope, folded v_def]
    parse_view_eqs(9) [OF ok pp] parse_view_eqs(10,11) [OF ok pp, where scope = scope, folded v_def]
  let ?cw = "length pat - raw" and ?w = "drop u (stable_chars up ci pat raw)"
  let ?e = "last_wildcard_end ?w 0 0"
  have lw: "length ?w = ?cw"
    using pv(3) by simp
  have wild: "(if ?cw > 0 then read_chars a (offset pS u) ?cw else Some []) = Some ?w"
    using holds_text_part [OF st, of u ?cw] lw by (auto simp: holds_text_def)
  have lens: "u = length (vPrefix v)" "?e = length (vWild v)" "copy_tail ?w ?e = vTail v"
    using pv(3-6,9) lw by simp_all
  have tl: "tail_unescaped_len ?w ?e 0 = length (vTail v)"
    unfolding lens(3) [symmetric] by (simp add: tail_unescaped_len_eq)
  have n: "length (vTail v) < 2 ^ 33"
    using parse_view_parts(2,7) [OF ok, where pat = pat and scope = scope, folded v_def] len by simp
  obtain r a' \<sigma>' where s: "store_chars \<sigma> a (length (vTail v)) (vTail v) = Some (r, a', \<sigma>')" "arena_step \<sigma> a bs \<sigma>' a'"
      "\<And>p. r = Inr p \<Longrightarrow> holds_text a' p (length (vTail v)) (vTail v)" "generous \<sigma> \<Longrightarrow> \<exists>p. r = Inr p"
    by (rule store_text [OF ok(1) sys refl n]) blast
  let ?p = "\<lambda>pT. \<lparr>pStableBuffer = pS, prefixUnescapedLen = u, cchWildPart = ?cw, suffixMinLength = suffix_min_length ?w 0 0,
    lastWildcardEnd = ?e, pTailBuffer = pT, tailUnescapedLen = length (vTail v)\<rparr>"
  have run: "tail_phase \<sigma> a pS u ?cw = Some (case r of Inl u \<Rightarrow> Inl u | Inr pT \<Rightarrow> Inr (?p pT), a', \<sigma>')"
    unfolding tail_phase_def wild by (simp add: Let_def tl lens(3) s(1) split: sum.split)
  have parsed: "parsed_ok a' (?p pT) v" if "r = Inr pT" for pT
  proof -
    have "grows a a'"
      using s(2) by (simp add: arena_step_def)
    note stored = holds_text_grows [OF this st]
    have "holds_text a' pS u (vPrefix v)" "holds_text a' (offset pS u) ?e (vWild v)"
      using holds_text_part [OF stored, of 0 u] holds_text_part [OF stored, of u ?e] pv(4,5,9) lw by simp_all
    then have "holds_text a' pS (length (vPrefix v)) (vPrefix v)"
        "holds_text a' (offset pS (length (vPrefix v))) (length (vWild v)) (vWild v)"
      unfolding lens(2) by (simp_all add: lens(1))
    moreover have "?cw = 0 \<longleftrightarrow> vWild v = []"
      using pv(1,10) by auto
    ultimately have "parsed_ok a' \<lparr>pStableBuffer = pS, prefixUnescapedLen = length (vPrefix v), cchWildPart = ?cw,
        suffixMinLength = vMin v, lastWildcardEnd = length (vWild v), pTailBuffer = pT, tailUnescapedLen = length (vTail v)\<rparr> v"
      using s(3) [OF that] by (intro holds_parsed)
    then show ?thesis
      unfolding lens(2) pv(7) [symmetric] by (simp add: lens(1))
  qed
  show thesis
    using parsed s(4) by (intro that [OF run s(2)]) (auto split: sum.splits)
qed

theorem AddPattern_parse_spec:
  fixes pat :: "'c::len word list" and scope :: wild_card_scope
  assumes ok: "tchar_ok TYPE('c)" "case_table_ok up ci" and sys: "sys_ok \<sigma>" "arena_chain \<sigma> a bs"
    and len: "length pat < 2 ^ 32"
  defines "v \<equiv> parse_view up ci scope pat"
  obtains r a' \<sigma>' where "AddPattern_parse up \<sigma> a ci pat = Some (r, a', \<sigma>')" "arena_step \<sigma> a bs \<sigma>' a'"
    "\<And>p. r = Inr p \<Longrightarrow> parsed_ok a' p v" "generous \<sigma> \<Longrightarrow> \<exists>p. r = Inr p"
proof -
  obtain raw u where pp: "parse_prefix pat 0 0 = (raw, u)"
    by fastforce
  have cw: "sub32 (length pat) raw = length pat - raw" "add32 u (length pat - raw) = u + (length pat - raw)"
    using parse_view_eqs(1,2) [OF ok pp] len by (simp_all add: sub32_eq add32_eq)
  note run = AddPattern_parse_phases [OF pp, of up \<sigma> a ci, unfolded cw]
  obtain r1 a1 \<sigma>1 where f: "(if length pat > 0 then store_chars \<sigma> a (u + (length pat - raw)) (stable_chars up ci pat raw)
         else Some (Inr None, a, \<sigma>)) = Some (r1, a1, \<sigma>1)" "arena_step \<sigma> a bs \<sigma>1 a1"
      "\<And>p. r1 = Inr p \<Longrightarrow> holds_text a1 p (u + (length pat - raw)) (stable_chars up ci pat raw)" "generous \<sigma> \<Longrightarrow> \<exists>p. r1 = Inr p"
    by (rule store_stable [OF ok sys len pp]) blast
  show thesis
  proof (cases r1)
    case (Inl x)
    then show ?thesis
      using f by (intro that [of "Inl x" a1 \<sigma>1]) (auto simp: run)
  next
    case (Inr pS)
    obtain bs1 where ch1: "arena_chain \<sigma>1 a1 bs1"
      using f(2) by (auto simp: arena_step_def)
    have sys1: "sys_ok \<sigma>1" "generous \<sigma>1 = generous \<sigma>"
      using f(2) owns_step_sys_ok generous_step unfolding arena_step_def by blast+
    obtain r2 a2 \<sigma>2 where t: "tail_phase \<sigma>1 a1 pS u (length pat - raw) = Some (r2, a2, \<sigma>2)" "arena_step \<sigma>1 a1 bs1 \<sigma>2 a2"
        "\<And>p. r2 = Inr p \<Longrightarrow> parsed_ok a2 p v" "generous \<sigma>1 \<Longrightarrow> \<exists>p. r2 = Inr p"
      unfolding v_def by (rule tail_phase_spec [OF ok sys1(1) ch1 len pp f(3) [OF Inr], of scope]) blast
    have "AddPattern_parse up \<sigma> a ci pat = Some (r2, a2, \<sigma>2)"
      unfolding run f(1) using Inr t(1) by simp
    then show ?thesis
      using arena_step_trans [OF sys f(2) ch1 t(2)] t(3,4) sys1(2) by (intro that) simp_all
  qed
qed

end
