(* ===== verification/EngineMem.thy ===== *)
theory EngineMem
  imports EngineText
begin

text \<open>
  One container of the engine changes and the others stay as they are: how the invariant on
  the engine's memory follows the steps of its parts.
\<close>

section \<open>Parts that own different blocks\<close>

lemma apart_nth: "apart As \<longleftrightarrow> (\<forall>i < length As. \<forall>j < length As. i \<noteq> j \<longrightarrow> As ! i \<inter> As ! j = {})"
proof (induction As)
  case Nil
  then show ?case by simp
next
  case (Cons A As)
  have "(\<forall>i < length (A # As). \<forall>j < length (A # As). i \<noteq> j \<longrightarrow> (A # As) ! i \<inter> (A # As) ! j = {}) \<longleftrightarrow>
      (\<forall>j < length As. A \<inter> As ! j = {}) \<and> (\<forall>i < length As. \<forall>j < length As. i \<noteq> j \<longrightarrow> As ! i \<inter> As ! j = {})"
    unfolding length_Cons All_less_Suc2 by (simp add: inf_commute [of _ A] del: inf_commute) blast
  moreover have "(\<forall>B \<in> set As. A \<inter> B = {}) \<longleftrightarrow> (\<forall>j < length As. A \<inter> As ! j = {})"
    by (metis in_set_conv_nth)
  ultimately show ?case
    using Cons.IH by simp
qed

lemma part_step:
  assumes ok: "sys_ok \<sigma>" "apart As" "\<forall>A \<in> set As. A \<subseteq> dom (live \<sigma>)"
    and i: "i < length As" and st: "owns_step \<sigma> (As ! i) \<sigma>' A'"
  shows "apart (As[i := A'])" "owns_step \<sigma> (\<Union> (set As)) \<sigma>' (\<Union> (set (As[i := A'])))"
    and "\<And>j. j < length As \<Longrightarrow> j \<noteq> i \<Longrightarrow> \<forall>b \<in> As ! j. live \<sigma>' b = live \<sigma> b"
proof -
  have dis: "As ! i \<inter> As ! j = {}" and dom: "As ! j \<subseteq> dom (live \<sigma>)" if "j < length As" "j \<noteq> i" for j
    using that ok(2,3) i by (auto simp: apart_nth)
  note fr = owns_step_frame [OF st ok(1)]
  show "\<forall>b \<in> As ! j. live \<sigma>' b = live \<sigma> b" if "j < length As" "j \<noteq> i" for j
    using fr(3) dis [OF that] dom [OF that] by blast
  have new: "A' \<inter> As ! j = {}" if "j < length As" "j \<noteq> i" for j
    using fr(2) dis [OF that] dom [OF that] by blast
  show "apart (As[i := A'])"
    unfolding apart_nth
  proof (intro allI impI)
    fix k j
    assume "k < length (As[i := A'])" "j < length (As[i := A'])" "k \<noteq> j"
    then show "As[i := A'] ! k \<inter> As[i := A'] ! j = {}"
      using new ok(2) i by (cases "k = i"; cases "j = i") (auto simp: apart_nth Int_commute)
  qed
  define B where "B = (\<Union>j \<in> {..<length As} - {i}. As ! j)"
  have union: "\<Union> (set Xs) = Xs ! i \<union> (\<Union>j \<in> {..<length As} - {i}. Xs ! j)" if "length Xs = length As" for Xs :: "nat set list"
  proof -
    have "set Xs = (!) Xs ` insert i ({..<length As} - {i})"
      using that i by (auto simp: set_conv_nth)
    then show ?thesis by (simp only: UN_insert)
  qed
  have all: "\<Union> (set As) = As ! i \<union> B" "\<Union> (set (As[i := A'])) = A' \<union> B"
    using union [of As] union [of "As[i := A']"] i by (simp_all add: B_def)
  have "B \<subseteq> dom (live \<sigma>)" "As ! i \<inter> B = {}"
    using dis dom unfolding B_def by blast+
  then show "owns_step \<sigma> (\<Union> (set As)) \<sigma>' (\<Union> (set (As[i := A'])))"
    unfolding all by (rule owns_step_widen [OF st ok(1)])
qed

lemma memory_owned:
  assumes "memory_ok csz \<sigma> e"
  shows "\<forall>A \<in> set (part_owned e). A \<subseteq> dom (live \<sigma>)"
proof -
  have "arena_owned (m_StringArena e) \<subseteq> dom (live \<sigma>)" "dq_owned (m_ContextArena e) \<subseteq> dom (live \<sigma>)"
      "kv_owned (m_LengthVec e) \<subseteq> dom (live \<sigma>)" "hm_owned kv_owned (m_HashMap e) \<subseteq> dom (live \<sigma>)"
      "kv_owned (m_SlowPathList e) \<subseteq> dom (live \<sigma>)"
    using assms arena_ok_owned dq_ok_owned kv_ok_owned buckets.hm_ok_owned
    unfolding memory_ok_def by blast+
  then show ?thesis
    by (simp add: part_owned_def)
qed

lemma engine_owned_live: "memory_ok csz \<sigma> e \<Longrightarrow> engine_owned e \<subseteq> dom (live \<sigma>)"
  using memory_owned unfolding engine_owned_def by blast

section \<open>The five parts\<close>

text \<open>A step of the \<open>i\<close>-th part.\<close>

definition part_ok :: "nat \<Rightarrow> sys \<Rightarrow> ('c::len word, 'ctx) engine \<Rightarrow> nat \<Rightarrow> bool" where
  "part_ok csz \<sigma> e i \<longleftrightarrow>
     [arena_ok \<sigma> (m_StringArena e), dq_ok BlockCapacity csz \<sigma> (m_ContextArena e),
      kv_ok sizeof_UINT32 \<sigma> (m_LengthVec e),
      hm_ok KPrecomputedHash sizeof_Slot kv_owned (kv_ok sizeof_PatternEntry) \<sigma> (m_HashMap e),
      kv_ok sizeof_PatternEntry \<sigma> (m_SlowPathList e)] ! i"

lemma less_5: "i < (5 :: nat) \<longleftrightarrow>
    i = 0 \<or> i = Suc 0 \<or> i = Suc (Suc 0) \<or> i = Suc (Suc (Suc 0)) \<or> i = Suc (Suc (Suc (Suc 0)))"
  by auto

lemma memory_parts: "memory_ok csz \<sigma> e \<longleftrightarrow> (\<forall>i < 5. part_ok csz \<sigma> e i) \<and> apart (part_owned e)"
  by (auto simp: memory_ok_def part_ok_def less_5)

lemma part_ok_frame:
  assumes "part_ok csz \<sigma> e i" "i < 5" "\<forall>b \<in> part_owned e ! i. live \<sigma>' b = live \<sigma> b"
  shows "part_ok csz \<sigma>' e i"
  using assms arena_ok_frame [of \<sigma> "m_StringArena e" \<sigma>'] dq_ok_frame [of BlockCapacity csz \<sigma> "m_ContextArena e" \<sigma>']
    kv_ok_frame [of sizeof_UINT32 \<sigma> "m_LengthVec e" \<sigma>'] kv_ok_frame [of sizeof_PatternEntry \<sigma> "m_SlowPathList e" \<sigma>']
    buckets.hm_ok_frame [of KPrecomputedHash sizeof_Slot sizeof_PatternEntry \<sigma> "m_HashMap e" \<sigma>']
  unfolding less_5 by (elim disjE) (simp_all add: part_ok_def part_owned_def)

lemma memory_step:
  fixes e e' :: "('c::len word, 'ctx) engine"
  assumes ok: "sys_ok \<sigma>" "memory_ok csz \<sigma> e" and i: "i < 5"
    and st: "owns_step \<sigma> (part_owned e ! i) \<sigma>' (part_owned e' ! i)" "part_ok csz \<sigma>' e' i"
    and same: "\<And>j \<sigma>. j < 5 \<Longrightarrow> j \<noteq> i \<Longrightarrow> part_ok csz \<sigma> e' j = part_ok csz \<sigma> e j"
      "part_owned e' = (part_owned e)[i := part_owned e' ! i]"
  shows "memory_ok csz \<sigma>' e'" "owns_step \<sigma> (engine_owned e) \<sigma>' (engine_owned e')"
proof -
  have len: "length (part_owned e) = 5"
    by (simp add: part_owned_def)
  have ap: "apart (part_owned e)"
    using ok(2) by (simp add: memory_parts)
  note ps = part_step [OF ok(1) ap memory_owned [OF ok(2)] _ st(1), unfolded len, OF i]
  have "part_ok csz \<sigma>' e' j" if "j < 5" for j
  proof (cases "j = i")
    case True
    then show ?thesis using st(2) by simp
  next
    case False
    have "part_ok csz \<sigma> e j"
      using ok(2) that by (simp add: memory_parts)
    then have "part_ok csz \<sigma>' e j"
      using that ps(3) [OF that False] by (rule part_ok_frame)
    then show ?thesis
      using same(1) [OF that False] by simp
  qed
  then show "memory_ok csz \<sigma>' e'"
    using ps(1) same(2) by (simp add: memory_parts)
  show "owns_step \<sigma> (engine_owned e) \<sigma>' (engine_owned e')"
    unfolding engine_owned_def using ps(2) same(2) by simp
qed

lemmas memory_simps = part_owned_def part_ok_def less_5

lemma memory_arena:
  assumes "sys_ok \<sigma>" "memory_ok csz \<sigma> e"
    and "owns_step \<sigma> (arena_owned (m_StringArena e)) \<sigma>' (arena_owned a)" "arena_ok \<sigma>' a"
  shows "memory_ok csz \<sigma>' (e\<lparr>m_StringArena := a\<rparr>)"
    "owns_step \<sigma> (engine_owned e) \<sigma>' (engine_owned (e\<lparr>m_StringArena := a\<rparr>))"
  by (rule memory_step [OF assms(1,2), of 0]; use assms(3,4) in \<open>auto simp: memory_simps\<close>)+

lemma memory_context:
  assumes "sys_ok \<sigma>" "memory_ok csz \<sigma> e"
    and "owns_step \<sigma> (dq_owned (m_ContextArena e)) \<sigma>' (dq_owned q)" "dq_ok BlockCapacity csz \<sigma>' q"
  shows "memory_ok csz \<sigma>' (e\<lparr>m_ContextArena := q\<rparr>)"
    "owns_step \<sigma> (engine_owned e) \<sigma>' (engine_owned (e\<lparr>m_ContextArena := q\<rparr>))"
  by (rule memory_step [OF assms(1,2), of "Suc 0"]; use assms(3,4) in \<open>auto simp: memory_simps\<close>)+

lemma memory_lengths:
  assumes "sys_ok \<sigma>" "memory_ok csz \<sigma> e"
    and "owns_step \<sigma> (kv_owned (m_LengthVec e)) \<sigma>' (kv_owned v)" "kv_ok sizeof_UINT32 \<sigma>' v"
  shows "memory_ok csz \<sigma>' (e\<lparr>m_LengthVec := v\<rparr>)"
    "owns_step \<sigma> (engine_owned e) \<sigma>' (engine_owned (e\<lparr>m_LengthVec := v\<rparr>))"
  by (rule memory_step [OF assms(1,2), of "Suc (Suc 0)"]; use assms(3,4) in \<open>auto simp: memory_simps\<close>)+

lemma memory_map:
  assumes "sys_ok \<sigma>" "memory_ok csz \<sigma> e"
    and "owns_step \<sigma> (hm_owned kv_owned (m_HashMap e)) \<sigma>' (hm_owned kv_owned m)"
    and "hm_ok KPrecomputedHash sizeof_Slot kv_owned (kv_ok sizeof_PatternEntry) \<sigma>' m"
  shows "memory_ok csz \<sigma>' (e\<lparr>m_HashMap := m\<rparr>)"
    "owns_step \<sigma> (engine_owned e) \<sigma>' (engine_owned (e\<lparr>m_HashMap := m\<rparr>))"
  by (rule memory_step [OF assms(1,2), of "Suc (Suc (Suc 0))"]; use assms(3,4) in \<open>auto simp: memory_simps\<close>)+

lemma memory_slow:
  assumes "sys_ok \<sigma>" "memory_ok csz \<sigma> e"
    and "owns_step \<sigma> (kv_owned (m_SlowPathList e)) \<sigma>' (kv_owned v)" "kv_ok sizeof_PatternEntry \<sigma>' v"
  shows "memory_ok csz \<sigma>' (e\<lparr>m_SlowPathList := v\<rparr>)"
    "owns_step \<sigma> (engine_owned e) \<sigma>' (engine_owned (e\<lparr>m_SlowPathList := v\<rparr>))"
  by (rule memory_step [OF assms(1,2), of "Suc (Suc (Suc (Suc 0)))"]; use assms(3,4) in \<open>auto simp: memory_simps\<close>)+

end
