(* ===== verification/EngineAdd.thy ===== *)
theory EngineAdd
  imports EngineMem
begin

text \<open>
  Registering a pattern is a transaction. \<open>AddPattern\<close> takes a bookmark of the arena, changes
  the containers one after the other, and on a failure gives the arena back; the other
  containers keep what they grew by, which no rule refers to. \<open>tx_ok\<close> is what holds between
  the steps, \<open>tx_rollback\<close> and \<open>tx_commit\<close> close the transaction.
\<close>

section \<open>The invariant between the steps\<close>

text \<open>
  The rules of before are still represented, by the text that was committed at the bookmark:
  \<open>(\<sigma>0, e0)\<close> is the state at the bookmark and \<open>bs\<close> its chain of slabs.
\<close>

definition contexts_kept :: "('tchar, 'ctx) engine \<Rightarrow> ('tchar, 'ctx) engine \<Rightarrow> bool" where
  "contexts_kept e0 e \<longleftrightarrow>
     dq_size (m_ContextArena e0) \<le> dq_size (m_ContextArena e) \<and>
     (\<forall>j < dq_size (m_ContextArena e0).
        KDeque_address BlockCapacity (m_ContextArena e) j = KDeque_address BlockCapacity (m_ContextArena e0) j \<and>
        KDeque_at BlockCapacity (m_ContextArena e) j = KDeque_at BlockCapacity (m_ContextArena e0) j)"

lemma contexts_kept_same: "m_ContextArena e' = m_ContextArena e \<Longrightarrow> contexts_kept e0 e' = contexts_kept e0 e"
  by (simp add: contexts_kept_def)

lemma contexts_kept_refl: "contexts_kept e e"
  by (simp add: contexts_kept_def)

definition tx_ok ::
  "('c::len word \<Rightarrow> 'c word) \<Rightarrow> nat \<Rightarrow> sys \<Rightarrow> ('c word, 'ctx) engine \<Rightarrow> nat list \<Rightarrow> ('c word, 'ctx) rule list \<Rightarrow>
     sys \<Rightarrow> ('c word, 'ctx) engine \<Rightarrow> bool" where
  "tx_ok up csz \<sigma>0 e0 bs rules \<sigma> e \<longleftrightarrow>
     memory_ok csz \<sigma> e \<and> owns_step \<sigma>0 (engine_owned e0) \<sigma> (engine_owned e) \<and>
     (\<exists>new. arena_chain \<sigma> (m_StringArena e) (bs @ new)) \<and>
     grows (m_StringArena e0) (m_StringArena e) \<and> frozen (m_StringArena e0) (m_StringArena e) \<and>
     holds_rules up (e\<lparr>m_StringArena := m_StringArena e0\<rparr>) rules \<and> filters_ok up e rules \<and>
     contexts_ok e rules \<and> contexts_kept e0 e \<and> m_bCaseInsensitive e = m_bCaseInsensitive e0"

lemma tx_start:
  assumes "sys_ok \<sigma>" "engine_ok up csz \<sigma> e rules" "arena_chain \<sigma> (m_StringArena e) bs"
  shows "tx_ok up csz \<sigma> e bs rules \<sigma> e"
proof -
  have mem: "memory_ok csz \<sigma> e"
    using assms(2) by (simp add: engine_ok_def)
  have "owns_step \<sigma> (engine_owned e) \<sigma> (engine_owned e)"
    by (rule owns_step_refl [OF assms(1) engine_owned_live [OF mem]])
  moreover have "\<exists>new. arena_chain \<sigma> (m_StringArena e) (bs @ new)"
    using assms(3) by (intro exI [of _ "[]"]) simp
  ultimately show ?thesis
    using assms(2) mem by (simp add: tx_ok_def engine_ok_def contexts_kept_refl)
qed

lemma tx_sys_ok: "tx_ok up csz \<sigma>0 e0 bs rules \<sigma> e \<Longrightarrow> sys_ok \<sigma>"
  unfolding tx_ok_def using owns_step_sys_ok by blast

lemma tx_memory: "tx_ok up csz \<sigma>0 e0 bs rules \<sigma> e \<Longrightarrow> memory_ok csz \<sigma> e"
  by (simp add: tx_ok_def)

text \<open>A step that leaves the arena and the represented rules alone.\<close>

lemma tx_step:
  assumes ok: "sys_ok \<sigma>0" and tx: "tx_ok up csz \<sigma>0 e0 bs rules \<sigma> e"
    and mem: "memory_ok csz \<sigma>' e'" "owns_step \<sigma> (engine_owned e) \<sigma>' (engine_owned e')"
    and same: "m_StringArena e' = m_StringArena e" "m_bCaseInsensitive e' = m_bCaseInsensitive e"
    and keep: "holds_rules up (e'\<lparr>m_StringArena := m_StringArena e0\<rparr>) rules" "filters_ok up e' rules" "contexts_ok e' rules"
      "contexts_kept e0 e'"
  shows "tx_ok up csz \<sigma>0 e0 bs rules \<sigma>' e'"
proof -
  obtain new where ch: "arena_chain \<sigma> (m_StringArena e) (bs @ new)"
    using tx by (auto simp: tx_ok_def)
  obtain cs where cs: "arena_chain \<sigma>' (m_StringArena e) cs"
    using mem(1) same by (auto simp: memory_ok_def arena_ok_def)
  have "lseg (slabs (m_StringArena e)) (Head (m_StringArena e)) (bs @ new) None"
      "lseg (slabs (m_StringArena e)) (Head (m_StringArena e)) cs None"
    using ch cs by (simp_all add: arena_chain_def)
  then have "cs = bs @ new"
    using lseg_unique by blast
  moreover have "owns_step \<sigma>0 (engine_owned e0) \<sigma>' (engine_owned e')"
    using tx mem(2) ok owns_step_trans unfolding tx_ok_def by blast
  ultimately show ?thesis
    using tx mem(1) same keep cs by (auto simp: tx_ok_def)
qed

lemma holds_rules_cong:
  assumes "m_bCaseInsensitive e' = m_bCaseInsensitive e" "m_StringArena e' = m_StringArena e"
    and "kv_elems (m_SlowPathList e') = kv_elems (m_SlowPathList e)" "\<And>h. bucket e' h = bucket e h"
  shows "holds_rules up e' rules = holds_rules up e rules"
  using assms by (simp add: holds_rules_def)

lemma filters_ok_cong:
  assumes "m_bCaseInsensitive e' = m_bCaseInsensitive e" "m_nGlobalMinMatchLength e' = m_nGlobalMinMatchLength e"
    and "m_bWildCardPresent e' = m_bWildCardPresent e" "m_HashFilter e' = m_HashFilter e"
    and "kv_elems (m_LengthVec e') = kv_elems (m_LengthVec e)"
  shows "filters_ok up e' rules = filters_ok up e rules"
  using assms by (simp add: filters_ok_def)

lemma contexts_ok_cong:
  "m_nPatternCount e' = m_nPatternCount e \<Longrightarrow> m_ContextArena e' = m_ContextArena e \<Longrightarrow>
     contexts_ok e' rules = contexts_ok e rules"
  by (simp add: contexts_ok_def)

section \<open>Storing the text\<close>

lemma tx_arena:
  assumes ok: "sys_ok \<sigma>" "engine_ok up csz \<sigma> e rules" "arena_chain \<sigma> (m_StringArena e) bs"
    and st: "arena_step \<sigma> (m_StringArena e) bs \<sigma>' a"
  shows "tx_ok up csz \<sigma> e bs rules \<sigma>' (e\<lparr>m_StringArena := a\<rparr>)"
proof -
  have mem: "memory_ok csz \<sigma> e"
    using ok(2) by (simp add: engine_ok_def)
  have a: "owns_step \<sigma> (arena_owned (m_StringArena e)) \<sigma>' (arena_owned a)" "arena_ok \<sigma>' a"
    using st by (auto simp: arena_step_def arena_ok_def)
  let ?e = "e\<lparr>m_StringArena := a\<rparr>"
  have "?e\<lparr>m_StringArena := m_StringArena e\<rparr> = e"
    by (cases e) simp
  then have "holds_rules up (?e\<lparr>m_StringArena := m_StringArena e\<rparr>) rules"
    using ok(2) by (simp only: engine_ok_def)
  moreover have "filters_ok up ?e rules = filters_ok up e rules" "contexts_ok ?e rules = contexts_ok e rules"
    by (rule filters_ok_cong contexts_ok_cong; simp)+
  moreover have "filters_ok up e rules" "contexts_ok e rules"
    using ok(2) by (simp_all only: engine_ok_def)
  moreover have "m_StringArena ?e = a" "m_bCaseInsensitive ?e = m_bCaseInsensitive e" "contexts_kept e ?e"
    by (simp_all add: contexts_kept_def)
  ultimately show ?thesis
    using memory_arena [OF ok(1) mem a] st unfolding tx_ok_def arena_step_def by (simp only: simp_thms)
qed

section \<open>Giving up\<close>

lemma restored_holds:
  assumes "restored a0 a" "holds_rules up (e\<lparr>m_StringArena := a0\<rparr>) rules"
  shows "holds_rules up (e\<lparr>m_StringArena := a\<rparr>) rules"
  using holds_rules_grows [OF assms(2), of a] assms(1) by (simp add: restored_def)

theorem tx_rollback:
  assumes ok: "sys_ok \<sigma>0" "arena_chain \<sigma>0 (m_StringArena e0) bs"
    and tx: "tx_ok up csz \<sigma>0 e0 bs rules \<sigma> e"
  shows "\<exists>e' \<sigma>'. rollback \<sigma> e (GetBookmark (m_StringArena e0)) status = Some (status, e', \<sigma>') \<and>
     engine_ok up csz \<sigma>' e' rules \<and> owns_step \<sigma>0 (engine_owned e0) \<sigma>' (engine_owned e') \<and>
     contexts_kept e0 e' \<and> m_bCaseInsensitive e' = m_bCaseInsensitive e0"
proof -
  obtain new where ch: "arena_chain \<sigma> (m_StringArena e) (bs @ new)"
    using tx by (auto simp: tx_ok_def)
  have gf: "grows (m_StringArena e0) (m_StringArena e)" "frozen (m_StringArena e0) (m_StringArena e)"
    using tx by (simp_all add: tx_ok_def)
  obtain a \<sigma>' where rv: "RevertBookmark \<sigma> (m_StringArena e) (GetBookmark (m_StringArena e0)) = Some (a, \<sigma>')"
      "arena_chain \<sigma>' a bs" "restored (m_StringArena e0) a"
      "owns_step \<sigma> (arena_owned (m_StringArena e)) \<sigma>' (arena_owned a)"
    using RevertBookmark_spec [OF tx_sys_ok [OF tx] ok(2) ch gf] by blast
  have aok: "arena_ok \<sigma>' a"
    using rv(2) by (auto simp: arena_ok_def)
  note mem = memory_arena [OF tx_sys_ok [OF tx] tx_memory [OF tx] rv(4) aok]
  let ?e = "e\<lparr>m_StringArena := a\<rparr>"
  have "holds_rules up (e\<lparr>m_StringArena := m_StringArena e0\<rparr>) rules"
    using tx by (simp only: tx_ok_def)
  then have "holds_rules up ?e rules"
    by (rule restored_holds [OF rv(3)])
  moreover have "filters_ok up ?e rules" "contexts_ok ?e rules"
    using tx filters_ok_cong [of ?e e] contexts_ok_cong [of ?e e] by (simp_all add: tx_ok_def)
  ultimately have "engine_ok up csz \<sigma>' ?e rules"
    using mem(1) by (simp add: engine_ok_def)
  moreover have "owns_step \<sigma>0 (engine_owned e0) \<sigma>' (engine_owned ?e)"
    using tx mem(2) ok(1) owns_step_trans unfolding tx_ok_def by blast
  moreover have "m_bCaseInsensitive ?e = m_bCaseInsensitive e0" "contexts_kept e0 ?e"
    using tx contexts_kept_same [of ?e e] by (simp_all add: tx_ok_def)
  ultimately show ?thesis
    using rv(1) by (simp add: rollback_def)
qed

section \<open>The context\<close>

lemma deque_at_contents:
  "dq_ok BC sz \<sigma> q \<Longrightarrow> j < dq_size q \<Longrightarrow> KDeque_at BC q j = Some (dq_contents BC q ! j)"
  by (auto simp: dq_ok_def dq_contents_def)

lemma tx_context:
  assumes ok: "sys_ok \<sigma>0" and tx: "tx_ok up csz \<sigma>0 e0 bs rules \<sigma> e"
    and em: "KDeque_EmplaceBack BlockCapacity csz \<sigma> (m_ContextArena e) ctx = (r, q, \<sigma>')"
  shows "tx_ok up csz \<sigma>0 e0 bs rules \<sigma>' (e\<lparr>m_ContextArena := q\<rparr>)"
    "r = STATUS_SUCCESS \<and> dq_size q = dq_size (m_ContextArena e) + 1 \<and>
       KDeque_at BlockCapacity q (dq_size (m_ContextArena e)) = Some ctx \<or> \<not> NT_SUCCESS r"
    "dq_size q \<le> kMaxPatterns" "dq_size q \<le> Suc (dq_size (m_ContextArena e))"
proof -
  let ?q = "m_ContextArena e" and ?e = "e\<lparr>m_ContextArena := q\<rparr>"
  have qok: "dq_ok BlockCapacity csz \<sigma> ?q"
    using tx_memory [OF tx] by (simp add: memory_ok_def)
  note spec = KDeque_EmplaceBack_spec [OF tx_sys_ok [OF tx] qok em]
  then have q': "dq_ok BlockCapacity csz \<sigma>' q" "owns_step \<sigma> (dq_owned ?q) \<sigma>' (dq_owned q)"
    by simp_all
  note mem = memory_context [OF tx_sys_ok [OF tx] tx_memory [OF tx] q'(2,1)]
  have res: "r = STATUS_SUCCESS \<and> dq_contents BlockCapacity q = dq_contents BlockCapacity ?q @ [ctx] \<and> dq_size q = dq_size ?q + 1 \<or>
      \<not> NT_SUCCESS r \<and> q = ?q"
    using spec by simp
  have at: "KDeque_at BlockCapacity q j = KDeque_at BlockCapacity ?q j" if "j < dq_size ?q" for j
    using res that deque_at_contents [OF qok that] deque_at_contents [OF q'(1), of j] by (auto simp: nth_append)
  have "contexts_ok ?e rules"
    using tx res at unfolding tx_ok_def contexts_ok_def by fastforce
  moreover have "holds_rules up (?e\<lparr>m_StringArena := m_StringArena e0\<rparr>) rules" "filters_ok up ?e rules"
    using tx filters_ok_cong [of ?e e]
      holds_rules_cong [of "?e\<lparr>m_StringArena := m_StringArena e0\<rparr>" "e\<lparr>m_StringArena := m_StringArena e0\<rparr>"]
    by (simp_all add: tx_ok_def bucket_def)
  moreover have "contexts_kept e0 ?e"
    using tx at res spec by (auto simp: tx_ok_def contexts_kept_def)
  ultimately show "tx_ok up csz \<sigma>0 e0 bs rules \<sigma>' ?e"
    using tx_step [OF ok tx mem] by simp
  show "r = STATUS_SUCCESS \<and> dq_size q = dq_size ?q + 1 \<and> KDeque_at BlockCapacity q (dq_size ?q) = Some ctx \<or> \<not> NT_SUCCESS r"
    using res deque_at_contents [OF q'(1), of "dq_size ?q"] by (auto simp: nth_append)
  show "dq_size q \<le> Suc (dq_size ?q)"
    using res by auto
  show "dq_size q \<le> kMaxPatterns"
    using q'(1) by (simp add: dq_ok_def kMaxBlocks_def BlockCapacity_def kMaxPatterns_def)
qed

section \<open>The length vector\<close>

lemma insert_position_le: "insert_position xs n \<le> length xs"
  by (induction xs) auto

lemma insert_position_sorted:
  "sorted_wrt (<) xs \<Longrightarrow> insert_position xs n = length xs \<or> xs ! insert_position xs n \<noteq> n \<Longrightarrow>
     sorted_wrt (<) (take (insert_position xs n) xs @ n # drop (insert_position xs n) xs)"
proof (induction xs)
  case Nil
  then show ?case by simp
next
  case (Cons x xs)
  show ?case
  proof (cases "x \<ge> n")
    case True
    then show ?thesis
      using Cons.prems by force
  next
    case False
    then show ?thesis
      using Cons set_take_subset [of "insert_position xs n" xs] set_drop_subset [of "insert_position xs n" xs]
      by auto
  qed
qed

lemma filters_ok_lengths:
  assumes "filters_ok up e rules" "sorted_wrt (<) (kv_elems v)" "set (kv_elems (m_LengthVec e)) \<subseteq> set (kv_elems v)"
  shows "filters_ok up (e\<lparr>m_LengthVec := v\<rparr>) rules"
  using assms by (auto simp: filters_ok_def Let_def)

lemma insert_length_spec:
  assumes ok: "sys_ok \<sigma>" "kv_ok sizeof_UINT32 \<sigma> v" "sorted_wrt (<) (kv_elems v)"
    and ins: "insert_length \<sigma> v n = (r, v', \<sigma>')"
  shows "kv_ok sizeof_UINT32 \<sigma>' v'" "owns_step \<sigma> (kv_owned v) \<sigma>' (kv_owned v')" "sorted_wrt (<) (kv_elems v')"
    "r = STATUS_SUCCESS \<and> set (kv_elems v') = insert n (set (kv_elems v)) \<or> \<not> NT_SUCCESS r \<and> v' = v"
    "length (kv_elems v') \<le> Suc (length (kv_elems v))"
proof -
  let ?i = "insert_position (kv_elems v) n"
  have "kv_ok sizeof_UINT32 \<sigma>' v' \<and> owns_step \<sigma> (kv_owned v) \<sigma>' (kv_owned v') \<and> sorted_wrt (<) (kv_elems v') \<and>
     (r = STATUS_SUCCESS \<and> set (kv_elems v') = insert n (set (kv_elems v)) \<or> \<not> NT_SUCCESS r \<and> v' = v) \<and>
     length (kv_elems v') \<le> Suc (length (kv_elems v))"
  proof (cases "?i = length (kv_elems v) \<or> kv_elems v ! ?i \<noteq> n")
    case True
    then have "KVector_Insert True sizeof_UINT32 \<sigma> v ?i n = (r, v', \<sigma>')"
      using ins by (simp add: insert_length_def)
    note sp = Insert_spec [OF ok(1,2) this]
    have set_eq: "set (take ?i (kv_elems v) @ n # drop ?i (kv_elems v)) = insert n (set (kv_elems v))"
      by (metis Un_insert_right append_take_drop_id list.simps(15) set_append)
    from sp have v': "kv_ok sizeof_UINT32 \<sigma>' v'" "owns_step \<sigma> (kv_owned v) \<sigma>' (kv_owned v')"
        "r = STATUS_SUCCESS \<and> kv_elems v' = take ?i (kv_elems v) @ n # drop ?i (kv_elems v) \<or> \<not> NT_SUCCESS r \<and> v' = v"
      by blast+
    from v'(3) show ?thesis
    proof
      assume "r = STATUS_SUCCESS \<and> kv_elems v' = take ?i (kv_elems v) @ n # drop ?i (kv_elems v)"
      then show ?thesis
        using v'(1,2) insert_position_sorted [OF ok(3) True] set_eq by (simp only: simp_thms) simp
    next
      assume "\<not> NT_SUCCESS r \<and> v' = v"
      then show ?thesis
        using v'(1,2) ok(3) by simp
    qed
  next
    case False
    then have "n \<in> set (kv_elems v)"
      using insert_position_le [of "kv_elems v" n] by (metis le_neq_implies_less nth_mem)
    then show ?thesis
      using False ins ok owns_step_refl [OF ok(1) kv_ok_owned [OF ok(2)]] by (auto simp: insert_length_def)
  qed
  then show "kv_ok sizeof_UINT32 \<sigma>' v'" "owns_step \<sigma> (kv_owned v) \<sigma>' (kv_owned v')" "sorted_wrt (<) (kv_elems v')"
    "r = STATUS_SUCCESS \<and> set (kv_elems v') = insert n (set (kv_elems v)) \<or> \<not> NT_SUCCESS r \<and> v' = v"
    "length (kv_elems v') \<le> Suc (length (kv_elems v))"
    by blast+
qed

lemma insert_length_room:
  assumes "sys_ok \<sigma>" "generous \<sigma>" "kv_ok sizeof_UINT32 \<sigma> v" "length (kv_elems v) < 2 ^ 40"
    and ins: "insert_length \<sigma> v n = (r, v', \<sigma>')"
  shows "r = STATUS_SUCCESS"
proof (cases "insert_position (kv_elems v) n = length (kv_elems v) \<or> kv_elems v ! insert_position (kv_elems v) n \<noteq> n")
  case True
  then have "KVector_Insert True sizeof_UINT32 \<sigma> v (insert_position (kv_elems v) n) n = (r, v', \<sigma>')"
    using ins by (simp add: insert_length_def)
  then show ?thesis
    by (intro Insert_room [OF assms(1) generous_affords [OF assms(2)] assms(3) _ assms(4) insert_position_le]) (simp_all add: sizeof_UINT32_def)
next
  case False
  then show ?thesis
    using ins by (auto simp: insert_length_def)
qed

lemma tx_keep:
  assumes "tx_ok up csz \<sigma>0 e0 bs rules \<sigma> e" "m_StringArena e' = m_StringArena e"
    and "m_bCaseInsensitive e' = m_bCaseInsensitive e" "kv_elems (m_SlowPathList e') = kv_elems (m_SlowPathList e)"
    and "\<And>h. bucket e' h = bucket e h"
  shows "holds_rules up (e'\<lparr>m_StringArena := m_StringArena e0\<rparr>) rules"
proof -
  have "holds_rules up (e'\<lparr>m_StringArena := m_StringArena e0\<rparr>) rules =
      holds_rules up (e\<lparr>m_StringArena := m_StringArena e0\<rparr>) rules"
    using assms(3-5) by (intro holds_rules_cong) (simp_all add: bucket_def)
  then show ?thesis
    using assms(1) by (simp add: tx_ok_def)
qed

lemma tx_lengths:
  assumes ok: "sys_ok \<sigma>0" and tx: "tx_ok up csz \<sigma>0 e0 bs rules \<sigma> e"
    and ins: "insert_length \<sigma> (m_LengthVec e) n = (r, v, \<sigma>')"
  shows "tx_ok up csz \<sigma>0 e0 bs rules \<sigma>' (e\<lparr>m_LengthVec := v\<rparr>)"
    "r = STATUS_SUCCESS \<and> n \<in> set (kv_elems v) \<or> \<not> NT_SUCCESS r"
    "length (kv_elems v) \<le> Suc (length (kv_elems (m_LengthVec e)))"
    "set (kv_elems v) \<subseteq> insert n (set (kv_elems (m_LengthVec e)))"
proof -
  let ?e = "e\<lparr>m_LengthVec := v\<rparr>"
  have vok: "kv_ok sizeof_UINT32 \<sigma> (m_LengthVec e)"
    using tx_memory [OF tx] by (simp add: memory_ok_def)
  have fo: "filters_ok up e rules" and co: "contexts_ok e rules"
    using tx by (simp_all only: tx_ok_def)
  then have "sorted_wrt (<) (kv_elems (m_LengthVec e))"
    by (simp add: filters_ok_def Let_def)
  note sp = insert_length_spec [OF tx_sys_ok [OF tx] vok this ins]
  note mem = memory_lengths [OF tx_sys_ok [OF tx] tx_memory [OF tx] sp(2,1)]
  have "filters_ok up ?e rules"
    using sp(3,4) by (intro filters_ok_lengths [OF fo]) auto
  moreover have "holds_rules up (?e\<lparr>m_StringArena := m_StringArena e0\<rparr>) rules"
    by (rule tx_keep [OF tx]) (simp_all add: bucket_def)
  moreover have "contexts_ok ?e rules"
    using co contexts_ok_cong [of ?e e] by simp
  moreover have "contexts_kept e0 ?e"
    using tx contexts_kept_same [of ?e e] by (simp add: tx_ok_def)
  ultimately show "tx_ok up csz \<sigma>0 e0 bs rules \<sigma>' ?e"
    by (intro tx_step [OF ok tx mem]) simp_all
  show "r = STATUS_SUCCESS \<and> n \<in> set (kv_elems v) \<or> \<not> NT_SUCCESS r"
    using sp(4) by auto
  show "length (kv_elems v) \<le> Suc (length (kv_elems (m_LengthVec e)))"
    by (rule sp(5))
  show "set (kv_elems v) \<subseteq> insert n (set (kv_elems (m_LengthVec e)))"
    using sp(4) by auto
qed

section \<open>The buckets\<close>

lemma tx_map:
  assumes ok: "sys_ok \<sigma>0" and tx: "tx_ok up csz \<sigma>0 e0 bs rules \<sigma> e"
    and mem: "memory_ok csz \<sigma>' (e\<lparr>m_HashMap := m\<rparr>)"
      "owns_step \<sigma> (engine_owned e) \<sigma>' (engine_owned (e\<lparr>m_HashMap := m\<rparr>))"
    and same: "\<And>h. bucket (e\<lparr>m_HashMap := m\<rparr>) h = bucket e h"
  shows "tx_ok up csz \<sigma>0 e0 bs rules \<sigma>' (e\<lparr>m_HashMap := m\<rparr>)"
proof -
  let ?e = "e\<lparr>m_HashMap := m\<rparr>"
  have "filters_ok up ?e rules" "contexts_ok ?e rules" "contexts_kept e0 ?e"
    using tx filters_ok_cong [of ?e e] contexts_ok_cong [of ?e e] contexts_kept_same [of ?e e] by (simp_all add: tx_ok_def)
  moreover have "holds_rules up (?e\<lparr>m_StringArena := m_StringArena e0\<rparr>) rules"
    by (rule tx_keep [OF tx]) (simp_all add: same)
  ultimately show ?thesis
    by (intro tx_step [OF ok tx mem]) simp_all
qed

lemma tx_bucket:
  assumes ok: "sys_ok \<sigma>0" and tx: "tx_ok up csz \<sigma>0 e0 bs rules \<sigma> e"
  obtains r i m \<sigma>' where
    "KFlatHashMap_GetOrInsert KPrecomputedHash bucket_ops sizeof_Slot KVector_new \<sigma> (m_HashMap e) hash = Some (r, i, m, \<sigma>')"
    "tx_ok up csz \<sigma>0 e0 bs rules \<sigma>' (e\<lparr>m_HashMap := m\<rparr>)"
    "NT_SUCCESS r \<and> (\<exists>p. i = Some p \<and> has_key (hm_slots m) hash p) \<or> \<not> NT_SUCCESS r"
    "takes_little (m_HashMap e) m"
proof -
  let ?m = "m_HashMap e"
  have mok: "hm_ok KPrecomputedHash sizeof_Slot kv_owned (kv_ok sizeof_PatternEntry) \<sigma> ?m"
    using tx_memory [OF tx] by (simp add: memory_ok_def)
  obtain r i m \<sigma>' where em: "KFlatHashMap_Emplace KPrecomputedHash bucket_ops sizeof_Slot \<sigma> ?m hash KVector_new = Some (r, i, m, \<sigma>')"
      "hm_ok KPrecomputedHash sizeof_Slot kv_owned (kv_ok sizeof_PatternEntry) \<sigma>' m"
      "owns_step \<sigma> (hm_owned kv_owned ?m) \<sigma>' (hm_owned kv_owned m)"
      "buckets.emplace_spec \<sigma> ?m hash KVector_new r i m \<sigma>'"
    using buckets.Emplace_spec [OF tx_sys_ok [OF tx] mok, of KVector_new hash] by auto
  note mem = memory_map [OF tx_sys_ok [OF tx] tx_memory [OF tx] em(3,2)]
  have "hm_map m = hm_map ?m \<or> hm_map ?m hash = None \<and> hm_map m = (hm_map ?m)(hash \<mapsto> KVector_new)"
    using em(4) by (auto simp: buckets.emplace_spec_def)
  then have "bucket (e\<lparr>m_HashMap := m\<rparr>) h = bucket e h" for h
    by (auto simp: bucket_def)
  then have "tx_ok up csz \<sigma>0 e0 bs rules \<sigma>' (e\<lparr>m_HashMap := m\<rparr>)"
    by (rule tx_map [OF ok tx mem])
  moreover have "NT_SUCCESS r \<and> (\<exists>p. i = Some p \<and> has_key (hm_slots m) hash p) \<or> \<not> NT_SUCCESS r"
    using em(4) by (auto simp: buckets.emplace_spec_def)
  moreover have "takes_little ?m m"
    by (rule buckets.Emplace_takes_little [OF tx_sys_ok [OF tx] mok em(1)])
  ultimately show ?thesis
    using em(1) by (intro that) (simp_all add: KFlatHashMap_GetOrInsert_def)
qed

lemma bucket_push:
  assumes ok: "sys_ok \<sigma>" "memory_ok csz \<sigma> e" and key: "has_key (hm_slots (m_HashMap e)) hash p"
  shows "\<exists>b. value_at (m_HashMap e) p = Some b \<and>
    (\<forall>r b' \<sigma>'. KVector_PushBack sizeof_PatternEntry \<sigma> b en = (r, b', \<sigma>') \<longrightarrow>
       (\<exists>m. set_value_at (m_HashMap e) p b' = Some m \<and> memory_ok csz \<sigma>' (e\<lparr>m_HashMap := m\<rparr>) \<and>
         owns_step \<sigma> (engine_owned e) \<sigma>' (engine_owned (e\<lparr>m_HashMap := m\<rparr>)) \<and>
         (r = STATUS_SUCCESS \<and>
            (\<forall>h. bucket (e\<lparr>m_HashMap := m\<rparr>) h = bucket e h @ (if h = hash then [en] else [])) \<or>
          \<not> NT_SUCCESS r \<and> (\<forall>h. bucket (e\<lparr>m_HashMap := m\<rparr>) h = bucket e h))))"
proof -
  have mok: "hm_ok KPrecomputedHash sizeof_Slot kv_owned (kv_ok sizeof_PatternEntry) \<sigma> (m_HashMap e)"
    using ok(2) by (simp add: memory_ok_def)
  obtain b where b: "value_at (m_HashMap e) p = Some b" "hm_map (m_HashMap e) hash = Some b"
    using buckets.has_key_value [OF buckets.hm_ok_table [OF mok] key] by metis
  have bok: "kv_ok sizeof_PatternEntry \<sigma> b"
    using mok b(2) by (auto simp: hm_ok_def values_ok_def ran_def)
  show ?thesis
  proof (intro exI [of _ b] conjI allI impI b(1))
    fix r b' \<sigma>'
    assume "KVector_PushBack sizeof_PatternEntry \<sigma> b en = (r, b', \<sigma>')"
    note pb = PushBack_spec [OF ok(1) bok this]
    then have b': "owns_step \<sigma> (kv_owned b) \<sigma>' (kv_owned b')" "kv_ok sizeof_PatternEntry \<sigma>' b'"
      by simp_all
    obtain m where m: "set_value_at (m_HashMap e) p b' = Some m"
        "hm_ok KPrecomputedHash sizeof_Slot kv_owned (kv_ok sizeof_PatternEntry) \<sigma>' m"
        "hm_map m = (hm_map (m_HashMap e))(hash \<mapsto> b')"
        "owns_step \<sigma> (hm_owned kv_owned (m_HashMap e)) \<sigma>' (hm_owned kv_owned m)"
      using buckets.set_value_spec [OF ok(1) mok key b(2) b'] by metis
    have "bucket (e\<lparr>m_HashMap := m\<rparr>) h = (if h = hash then kv_elems b' else bucket e h)" for h
      by (simp add: bucket_def m(3))
    moreover have "bucket e hash = kv_elems b"
      by (simp add: bucket_def b(2))
    ultimately show "\<exists>m. set_value_at (m_HashMap e) p b' = Some m \<and> memory_ok csz \<sigma>' (e\<lparr>m_HashMap := m\<rparr>) \<and>
         owns_step \<sigma> (engine_owned e) \<sigma>' (engine_owned (e\<lparr>m_HashMap := m\<rparr>)) \<and>
         (r = STATUS_SUCCESS \<and>
            (\<forall>h. bucket (e\<lparr>m_HashMap := m\<rparr>) h = bucket e h @ (if h = hash then [en] else [])) \<or>
          \<not> NT_SUCCESS r \<and> (\<forall>h. bucket (e\<lparr>m_HashMap := m\<rparr>) h = bucket e h))"
      using m(1) memory_map [OF ok m(4,2)] pb by (intro exI [of _ m]) auto
  qed
qed

section \<open>The filter\<close>

lemma filter_set_spec:
  assumes "length fs = 16"
  obtains f where "filter_set fs h = Some f" "length f = 16" "filter_test f h = Some True"
    "\<And>h'. filter_test fs h' = Some True \<Longrightarrow> filter_test f h' = Some True"
proof -
  let ?i = "unat (drop_bit 6 h AND 15)" and ?b = "unat (h AND 63)"
  let ?w = "fs ! ?i OR push_bit ?b 1"
  have i: "?i < 16"
    by (rule filter_index)
  have b: "?b < 64"
  proof -
    have "h AND 63 \<le> 63"
      by (rule word_and_le1)
    then show ?thesis
      by (simp add: word_le_nat_alt)
  qed
  have w: "bit ?w n \<longleftrightarrow> bit (fs ! ?i) n \<or> n = ?b" for n
    using b by (auto simp: bit_or_iff bit_push_bit_iff bit_1_iff simp del: push_bit_of_1)
  show thesis
  proof (rule that)
    show "filter_set fs h = Some (fs[?i := ?w])"
      using i assms by (simp add: filter_set_def Let_def)
    show "length (fs[?i := ?w]) = 16"
      using assms by simp
    show "filter_test (fs[?i := ?w]) h = Some True"
      using i assms w by (simp add: filter_test_def)
    show "filter_test (fs[?i := ?w]) h' = Some True" if "filter_test fs h' = Some True" for h'
      using that i assms filter_index [of h'] w by (auto simp: filter_test_def nth_list_update)
  qed
qed

section \<open>One more rule\<close>

lemma list_all2_snoc: "list_all2 P xs ys \<Longrightarrow> P x y \<Longrightarrow> list_all2 P (xs @ [x]) (ys @ [y])"
  by (simp add: list_all2_appendI)

lemma holds_rules_snoc:
  fixes up e e' r en
  defines "v \<equiv> rule_view up (m_bCaseInsensitive e) r"
  assumes h: "holds_rules up e rules" and rep: "represents up (m_bCaseInsensitive e) (m_StringArena e) r en"
    and same: "m_bCaseInsensitive e' = m_bCaseInsensitive e" "m_StringArena e' = m_StringArena e"
    and slow: "kv_elems (m_SlowPathList e') = kv_elems (m_SlowPathList e) @ (if is_slow v then [en] else [])"
    and fast: "\<And>h. bucket e' h = bucket e h @ (if \<not> is_slow v \<and> h = block_hash 0 (vPrefix v) then [en] else [])"
  shows "holds_rules up e' (rules @ [r])"
proof -
  let ?P = "represents up (m_bCaseInsensitive e) (m_StringArena e)"
  have "list_all2 ?P (slow_rules up (m_bCaseInsensitive e) (rules @ [r])) (kv_elems (m_SlowPathList e'))"
    using h rep list_all2_snoc [of ?P _ _ r en]
    by (auto simp: holds_rules_def Let_def slow_rules_def slow v_def [symmetric])
  moreover have "list_all2 ?P (fast_rules up (m_bCaseInsensitive e) (rules @ [r]) k) (bucket e' k)" for k
    using h rep list_all2_snoc [of ?P _ _ r en]
    by (auto simp: holds_rules_def Let_def fast_rules_def fast v_def [symmetric])
  ultimately show ?thesis
    by (simp add: holds_rules_def Let_def same)
qed

lemma filters_ok_snoc:
  fixes up e e' r
  defines "v \<equiv> rule_view up (m_bCaseInsensitive e) r"
  assumes f: "filters_ok up e rules" and same: "m_bCaseInsensitive e' = m_bCaseInsensitive e"
    and min: "m_nGlobalMinMatchLength e' = min (m_nGlobalMinMatchLength e) (length (vPrefix v) + vMin v)"
    and wild: "m_bWildCardPresent e' \<longleftrightarrow> m_bWildCardPresent e \<or> vWild v \<noteq> []"
    and lens: "m_LengthVec e' = m_LengthVec e" "\<not> is_slow v \<Longrightarrow> length (vPrefix v) \<in> set (kv_elems (m_LengthVec e))"
    and bits: "length (m_HashFilter e') = 16"
      "\<And>h. filter_test (m_HashFilter e) h = Some True \<Longrightarrow> filter_test (m_HashFilter e') h = Some True"
      "\<not> is_slow v \<Longrightarrow> filter_test (m_HashFilter e') (block_hash 0 (vPrefix v)) = Some True"
  shows "filters_ok up e' (rules @ [r])"
  using assms unfolding filters_ok_def Let_def by (auto simp: min.coboundedI1)

lemma contexts_ok_snoc:
  assumes c: "contexts_ok e rules" and n: "length rules < kMaxPatterns"
    and r: "rId r = Suc (length rules)" "length (rPat r) < 2 ^ 32"
    and idx: "\<forall>x \<in> set rules. rIndex x < rIndex r" "rIndex r < dq_size (m_ContextArena e)"
      "KDeque_at BlockCapacity (m_ContextArena e) (rIndex r) = Some (rCtx r)"
    and e': "m_nPatternCount e' = Suc (length rules)" "m_ContextArena e' = m_ContextArena e"
  shows "contexts_ok e' (rules @ [r])"
  using assms unfolding contexts_ok_def by (auto simp: sorted_wrt_append)

end
