(* ===== verification/EngineCommit.thy ===== *)
theory EngineCommit
  imports EngineAdd
begin

text \<open>
  \<open>AddPattern\<close> adds the rule or leaves the rules as they were: whatever the allocator answers,
  it returns, keeps the invariant, and touches no block that is not the engine's.
\<close>

section \<open>The new entry\<close>

definition entry_ready ::
  "('c::len word \<Rightarrow> 'c word) \<Rightarrow> ('c word, 'ctx) engine \<Rightarrow> ('c word, 'ctx) rule list \<Rightarrow> parsed \<Rightarrow> ('c word, 'ctx) rule \<Rightarrow>
     'c word pentry \<Rightarrow> bool" where
  "entry_ready up e rules p r en \<longleftrightarrow>
     parsed_ok (m_StringArena e) p (rule_view up (m_bCaseInsensitive e) r) \<and>
     en = new_entry p (m_nPatternCount e) (rIndex r) (rScope r) \<and>
     length rules < kMaxPatterns \<and> rId r = Suc (length rules) \<and> length (rPat r) < 2 ^ 32 \<and>
     (\<forall>x \<in> set rules. rIndex x < rIndex r) \<and> rIndex r < dq_size (m_ContextArena e) \<and>
     KDeque_at BlockCapacity (m_ContextArena e) (rIndex r) = Some (rCtx r)"

lemma entry_ready_cong:
  "m_StringArena e' = m_StringArena e \<Longrightarrow> m_bCaseInsensitive e' = m_bCaseInsensitive e \<Longrightarrow>
     m_nPatternCount e' = m_nPatternCount e \<Longrightarrow> m_ContextArena e' = m_ContextArena e \<Longrightarrow>
     entry_ready up e' rules p r en = entry_ready up e rules p r en"
  by (simp add: entry_ready_def)

lemma rule_view_first:
  fixes r :: "('c::len word, 'ctx) rule"
  assumes "tchar_ok TYPE('c)" "case_table_ok up ci"
  defines "v \<equiv> rule_view up ci r"
  shows "vFirst v = (if is_slow v then first_literal_char (vWild v) 0 False False else 0)"
proof -
  obtain raw u where "parse_prefix (rPat r) 0 0 = (raw, u)"
    by fastforce
  then show ?thesis
    unfolding v_def rule_view_def using parse_view_eqs(11) [OF assms(1,2)] by blast
qed

lemma ready_view:
  assumes "entry_ready up e rules p r en"
  defines "v \<equiv> rule_view up (m_bCaseInsensitive e) r"
  shows "view_of (m_StringArena e) en = Some (v\<lparr>vFirst := 0\<rparr>)"
    "committed_chars (m_StringArena e) (LiteralPrefix en)" "committed_chars (m_StringArena e) (WildcardSuffix en)"
    "committed_chars (m_StringArena e) (TailAnchor en)" "ContextIndex en = rIndex r"
    "prefixUnescapedLen p = length (vPrefix v)" "lastWildcardEnd p = length (vWild v)"
    "suffixMinLength p = vMin v" "cchWildPart p = 0 \<longleftrightarrow> vWild v = []"
    "read_chars (m_StringArena e) (pStableBuffer p) (prefixUnescapedLen p) = Some (vPrefix v)"
proof -
  have s: "vScope v = rScope r"
    by (simp add: v_def rule_view_def parse_view_def Let_def case_prod_unfold)
  have en: "en = new_entry p (m_nPatternCount e) (rIndex r) (vScope v)" and p: "parsed_ok (m_StringArena e) p v"
    using assms(1) by (simp_all add: entry_ready_def v_def [symmetric] s)
  show "view_of (m_StringArena e) en = Some (v\<lparr>vFirst := 0\<rparr>)"
    "committed_chars (m_StringArena e) (LiteralPrefix en)" "committed_chars (m_StringArena e) (WildcardSuffix en)"
    "committed_chars (m_StringArena e) (TailAnchor en)"
    "prefixUnescapedLen p = length (vPrefix v)" "lastWildcardEnd p = length (vWild v)"
    "suffixMinLength p = vMin v" "cchWildPart p = 0 \<longleftrightarrow> vWild v = []"
    "read_chars (m_StringArena e) (pStableBuffer p) (prefixUnescapedLen p) = Some (vPrefix v)"
    using p unfolding en parsed_ok_def by blast+
  show "ContextIndex en = rIndex r"
    by (simp add: en new_entry_def)
qed

lemma ready_id:
  assumes "entry_ready up e rules p r en" "contexts_ok e rules"
  shows "EntryId en = rId r"
  using assms by (simp add: entry_ready_def contexts_ok_def new_entry_def kMaxPatterns_def add32_def)

lemma view_of_first:
  "view_of a (en\<lparr>FirstLiteralChar := c\<rparr>) = map_option (\<lambda>v. v\<lparr>vFirst := c\<rparr>) (view_of a en)"
  by (auto simp: view_of_def split: bind_splits)

lemma view_of_wild:
  "view_of a en = Some v \<Longrightarrow> read_chars a (psBuffer (WildcardSuffix en)) (psLength (WildcardSuffix en)) = Some (vWild v)"
  by (auto simp: view_of_def split: bind_splits)

lemma ready_represents:
  fixes e :: "('c::len word, 'ctx) engine"
  assumes ok: "tchar_ok TYPE('c)" "case_table_ok up (m_bCaseInsensitive e)"
    and en: "entry_ready up e rules p r en" and c: "contexts_ok e rules"
  defines "v \<equiv> rule_view up (m_bCaseInsensitive e) r"
  shows "represents up (m_bCaseInsensitive e) (m_StringArena e) r (en\<lparr>FirstLiteralChar := vFirst v\<rparr>)"
    "\<not> is_slow v \<Longrightarrow> represents up (m_bCaseInsensitive e) (m_StringArena e) r en"
proof -
  note rv = ready_view [OF en, folded v_def]
  have "view_of (m_StringArena e) (en\<lparr>FirstLiteralChar := vFirst v\<rparr>) = Some v"
    by (simp add: view_of_first rv(1))
  then show "represents up (m_bCaseInsensitive e) (m_StringArena e) r (en\<lparr>FirstLiteralChar := vFirst v\<rparr>)"
    using rv(2-5) ready_id [OF en c] by (simp add: represents_def v_def)
  show "represents up (m_bCaseInsensitive e) (m_StringArena e) r en" if "\<not> is_slow v"
  proof -
    have "vFirst v = 0"
      using rule_view_first [OF ok, of r] that unfolding v_def by presburger
    then have "v\<lparr>vFirst := 0\<rparr> = v"
      by (cases v) simp
    then show ?thesis
      using rv(1-5) ready_id [OF en c] by (simp add: represents_def v_def)
  qed
qed

lemma count_pattern_fields:
  fixes e :: "('c::len word, 'ctx) engine"
  assumes ok: "tchar_ok TYPE('c)" "case_table_ok up (m_bCaseInsensitive e)"
    and en: "entry_ready up e rules p r en" and c: "contexts_ok e rules"
  defines "v \<equiv> rule_view up (m_bCaseInsensitive e) r"
  shows "m_nPatternCount (count_pattern e p) = Suc (length rules)"
    "m_bWildCardPresent (count_pattern e p) \<longleftrightarrow> m_bWildCardPresent e \<or> vWild v \<noteq> []"
    "m_nGlobalMinMatchLength (count_pattern e p) = min (m_nGlobalMinMatchLength e) (length (vPrefix v) + vMin v)"
proof -
  note rv = ready_view [OF en, folded v_def]
  have len: "length (rPat r) < 2 ^ 32" and n: "length rules < kMaxPatterns" "m_nPatternCount e = length rules"
    using en c by (simp_all add: entry_ready_def contexts_ok_def)
  show "m_nPatternCount (count_pattern e p) = Suc (length rules)"
    using n by (simp add: count_pattern_def Let_def add32_def kMaxPatterns_def)
  show "m_bWildCardPresent (count_pattern e p) \<longleftrightarrow> m_bWildCardPresent e \<or> vWild v \<noteq> []"
    by (simp add: count_pattern_def Let_def rv(9))
  have "add32 (prefixUnescapedLen p) (suffixMinLength p) = length (vPrefix v) + vMin v"
    using rule_view_parts(1) [OF ok len] by (simp add: rv(6,8) v_def add32_eq)
  then show "m_nGlobalMinMatchLength (count_pattern e p) = min (m_nGlobalMinMatchLength e) (length (vPrefix v) + vMin v)"
    by (simp add: count_pattern_def Let_def min_def)
qed

lemma count_pattern_same [simp]:
  "m_bCaseInsensitive (count_pattern e p) = m_bCaseInsensitive e" "m_HashFilter (count_pattern e p) = m_HashFilter e"
  "m_LengthVec (count_pattern e p) = m_LengthVec e" "m_StringArena (count_pattern e p) = m_StringArena e"
  "m_ContextArena (count_pattern e p) = m_ContextArena e" "m_HashMap (count_pattern e p) = m_HashMap e"
  "m_SlowPathList (count_pattern e p) = m_SlowPathList e"
  by (simp_all add: count_pattern_def Let_def)

lemma memory_ok_cong:
  assumes "m_StringArena e' = m_StringArena e" "m_ContextArena e' = m_ContextArena e" "m_LengthVec e' = m_LengthVec e"
    "m_HashMap e' = m_HashMap e" "m_SlowPathList e' = m_SlowPathList e"
  shows "memory_ok csz \<sigma> e' = memory_ok csz \<sigma> e" "engine_owned e' = engine_owned e"
  using assms by (simp_all add: memory_ok_def engine_owned_def part_owned_def)

section \<open>The outcome of a registration\<close>

text \<open>
  The engine has room for one more rule: the allocator grants every request, the context
  arena is not at its limit, and the tables are far from the range of SIZE_T.
\<close>

definition roomy :: "sys \<Rightarrow> ('tchar, 'ctx) engine \<Rightarrow> bool" where
  "roomy \<sigma> e \<longleftrightarrow>
     generous \<sigma> \<and> dq_size (m_ContextArena e) < kMaxPatterns \<and>
     length (kv_elems (m_LengthVec e)) < 2 ^ 40 \<and> hm_cap (m_HashMap e) < 2 ^ 40"

text \<open>What one registration takes at most, whether it succeeds or not.\<close>

definition grows_little :: "('tchar, 'ctx) engine \<Rightarrow> ('tchar, 'ctx) engine \<Rightarrow> bool" where
  "grows_little e e' \<longleftrightarrow>
     dq_size (m_ContextArena e') \<le> Suc (dq_size (m_ContextArena e)) \<and>
     length (kv_elems (m_LengthVec e')) \<le> Suc (length (kv_elems (m_LengthVec e))) \<and>
     set (kv_elems (m_LengthVec e')) \<subseteq> set (kv_elems (m_LengthVec e)) \<union> {..<2 ^ 32} \<and>
     m_nGlobalMinMatchLength e' \<le> m_nGlobalMinMatchLength e \<and>
     takes_little (m_HashMap e) (m_HashMap e')"

lemma grows_little_refl: "grows_little e e"
  by (simp add: grows_little_def takes_little_refl)

text \<open>Either the rule is added, or a failure is reported and the rules are those of before.\<close>

definition add_outcome ::
  "('c::len word \<Rightarrow> 'c word) \<Rightarrow> nat \<Rightarrow> sys \<Rightarrow> ('c word, 'ctx) engine \<Rightarrow> ('c word, 'ctx) rule list \<Rightarrow> ('c word, 'ctx) rule \<Rightarrow>
     (ntstatus \<times> ('c word, 'ctx) engine \<times> sys) option \<Rightarrow> bool" where
  "add_outcome up csz \<sigma> e rules r res \<longleftrightarrow>
     (\<exists>st e' \<sigma>'. res = Some (st, e', \<sigma>') \<and> owns_step \<sigma> (engine_owned e) \<sigma>' (engine_owned e') \<and>
        m_bCaseInsensitive e' = m_bCaseInsensitive e \<and> contexts_kept e e' \<and> grows_little e e' \<and>
        (st = STATUS_SUCCESS \<and> engine_ok up csz \<sigma>' e' (rules @ [r]) \<or>
         \<not> NT_SUCCESS st \<and> \<not> roomy \<sigma> e \<and> engine_ok up csz \<sigma>' e' rules))"

lemma rollback_outcome:
  assumes "sys_ok \<sigma>0" "arena_chain \<sigma>0 (m_StringArena e0) bs" "tx_ok up csz \<sigma>0 e0 bs rules \<sigma> e" "\<not> NT_SUCCESS st"
    and "\<not> roomy \<sigma>0 e0" "grows_little e0 e"
  shows "add_outcome up csz \<sigma>0 e0 rules r (rollback \<sigma> e (GetBookmark (m_StringArena e0)) st)"
proof -
  obtain e' \<sigma>' where rb: "rollback \<sigma> e (GetBookmark (m_StringArena e0)) st = Some (st, e', \<sigma>')"
      "engine_ok up csz \<sigma>' e' rules" "owns_step \<sigma>0 (engine_owned e0) \<sigma>' (engine_owned e')"
      "contexts_kept e0 e'" "m_bCaseInsensitive e' = m_bCaseInsensitive e0"
    using tx_rollback [OF assms(1-3), of st] by blast
  then have "grows_little e0 e'"
    using assms(6) by (auto simp: rollback_def grows_little_def bind_eq_Some_conv)
  then show ?thesis
    using rb assms(4,5) unfolding add_outcome_def by blast
qed

text \<open>Inside the transaction the entry lists are no longer than the rules.\<close>

lemma tx_generous: "tx_ok up csz \<sigma>0 e0 bs rules \<sigma> e \<Longrightarrow> generous \<sigma> = generous \<sigma>0"
  unfolding tx_ok_def using generous_step by blast

lemma tx_list_lengths:
  assumes "tx_ok up csz \<sigma>0 e0 bs rules \<sigma> e"
  shows "length (kv_elems (m_SlowPathList e)) < 2 ^ 40" "length (bucket e h) < 2 ^ 40"
proof -
  have n: "length rules < 2 ^ 40"
    using assms by (simp add: tx_ok_def contexts_ok_def kMaxPatterns_def)
  let ?e = "e\<lparr>m_StringArena := m_StringArena e0\<rparr>"
  have "holds_rules up ?e rules"
    using assms by (simp only: tx_ok_def)
  then have len: "length (kv_elems (m_SlowPathList ?e)) = length (slow_rules up (m_bCaseInsensitive ?e) rules)"
      "length (bucket ?e h) = length (fast_rules up (m_bCaseInsensitive ?e) rules h)"
    unfolding holds_rules_def Let_def using list_all2_lengthD by metis+
  then show "length (kv_elems (m_SlowPathList e)) < 2 ^ 40"
    using n le_less_trans [OF length_filter_le] by (simp add: slow_rules_def)
  show "length (bucket e h) < 2 ^ 40"
    using len(2) n le_less_trans [OF length_filter_le] by (simp add: fast_rules_def bucket_def)
qed

lemma sizeof_entry_small: "sizeof_PatternEntry \<le> 2 ^ 16" "sizeof_Slot \<le> 2 ^ 16"
  by (simp_all add: sizeof_PatternEntry_def sizeof_Slot_def)

text \<open>The last step of a transaction that succeeds.\<close>

lemma commit_outcome:
  fixes e e' :: "('c::len word, 'ctx) engine"
  assumes ok: "sys_ok \<sigma>0" and tx: "tx_ok up csz \<sigma>0 e0 bs rules \<sigma> e"
    and en: "entry_ready up e rules p r en0" and rep: "represents up (m_bCaseInsensitive e) (m_StringArena e) r en"
    and mem: "memory_ok csz \<sigma>' e'" "owns_step \<sigma> (engine_owned e) \<sigma>' (engine_owned e')"
    and same: "m_bCaseInsensitive e' = m_bCaseInsensitive e" "m_StringArena e' = m_StringArena e"
      "m_ContextArena e' = m_ContextArena e" "m_LengthVec e' = m_LengthVec e"
    and v: "v = rule_view up (m_bCaseInsensitive e) r"
    and slow: "kv_elems (m_SlowPathList e') = kv_elems (m_SlowPathList e) @ (if is_slow v then [en] else [])"
    and fast: "\<And>h. bucket e' h = bucket e h @ (if \<not> is_slow v \<and> h = block_hash 0 (vPrefix v) then [en] else [])"
    and count: "m_nPatternCount e' = Suc (length rules)" "m_bWildCardPresent e' \<longleftrightarrow> m_bWildCardPresent e \<or> vWild v \<noteq> []"
      "m_nGlobalMinMatchLength e' = min (m_nGlobalMinMatchLength e) (length (vPrefix v) + vMin v)"
    and lens: "\<not> is_slow v \<Longrightarrow> length (vPrefix v) \<in> set (kv_elems (m_LengthVec e))"
    and bits: "length (m_HashFilter e') = 16"
      "\<And>h. filter_test (m_HashFilter e) h = Some True \<Longrightarrow> filter_test (m_HashFilter e') h = Some True"
      "\<not> is_slow v \<Longrightarrow> filter_test (m_HashFilter e') (block_hash 0 (vPrefix v)) = Some True"
    and little: "grows_little e0 e'"
  shows "add_outcome up csz \<sigma>0 e0 rules r (Some (STATUS_SUCCESS, e', \<sigma>'))"
proof -
  have own: "owns_step \<sigma>0 (engine_owned e0) \<sigma>' (engine_owned e')"
    using tx mem(2) ok owns_step_trans unfolding tx_ok_def by blast
  have g: "grows (m_StringArena e0) (m_StringArena e)" and h: "holds_rules up (e\<lparr>m_StringArena := m_StringArena e0\<rparr>) rules"
      and fo: "filters_ok up e rules" and co: "contexts_ok e rules" and ci: "m_bCaseInsensitive e = m_bCaseInsensitive e0"
    using tx by (simp_all only: tx_ok_def)
  have "holds_rules up (e\<lparr>m_StringArena := m_StringArena e0, m_StringArena := m_StringArena e\<rparr>) rules"
    by (rule holds_rules_grows [OF h]) (simp add: g)
  moreover have "e\<lparr>m_StringArena := m_StringArena e0, m_StringArena := m_StringArena e\<rparr> = e"
    by (cases e) simp
  ultimately have "holds_rules up e rules"
    by (simp only:)
  then have "holds_rules up e' (rules @ [r])"
    using slow fast unfolding v by (rule holds_rules_snoc [OF _ rep same(1,2)])
  moreover have "filters_ok up e' (rules @ [r])"
    using count(2,3) lens bits same(4) unfolding v by (intro filters_ok_snoc [OF fo same(1)])
  moreover have "contexts_ok e' (rules @ [r])"
    using en by (intro contexts_ok_snoc [OF co _ _ _ _ _ _ count(1) same(3)]) (simp_all add: entry_ready_def)
  ultimately have "engine_ok up csz \<sigma>' e' (rules @ [r])"
    using mem(1) by (simp add: engine_ok_def)
  moreover have "contexts_kept e0 e'"
    using tx contexts_kept_same [of e' e] same(3) by (simp add: tx_ok_def)
  ultimately show ?thesis
    using own same(1) ci little unfolding add_outcome_def by (intro exI conjI disjI1) simp_all
qed

lemma count_pattern_min: "m_nGlobalMinMatchLength (count_pattern e p) \<le> m_nGlobalMinMatchLength e"
  by (simp add: count_pattern_def Let_def)

section \<open>The two paths\<close>

lemma AddPattern_slow_outcome:
  fixes e :: "('c::len word, 'ctx) engine"
  assumes ok: "tchar_ok TYPE('c)" "case_table_ok up (m_bCaseInsensitive e)"
    and sys: "sys_ok \<sigma>0" "arena_chain \<sigma>0 (m_StringArena e0) bs" and tx: "tx_ok up csz \<sigma>0 e0 bs rules \<sigma> e"
    and en: "entry_ready up e rules p r en" and slow: "is_slow (rule_view up (m_bCaseInsensitive e) r)"
    and little: "grows_little e0 e"
  shows "add_outcome up csz \<sigma>0 e0 rules r (AddPattern_slow \<sigma> e (GetBookmark (m_StringArena e0)) p en)"
proof -
  define v where "v = rule_view up (m_bCaseInsensitive e) r"
  note rv = ready_view [OF en, folded v_def]
  have c: "contexts_ok e rules" and fo: "filters_ok up e rules"
    using tx by (simp_all add: tx_ok_def)
  have "psLength (WildcardSuffix en) = lastWildcardEnd p"
    using en rv(9) slow by (simp add: entry_ready_def new_entry_def is_slow_def v_def)
  then have wild: "read_chars (m_StringArena e) (psBuffer (WildcardSuffix en)) (lastWildcardEnd p) = Some (vWild v)"
    using view_of_wild [OF rv(1)] by simp
  let ?en = "en\<lparr>FirstLiteralChar := first_literal_char (vWild v) 0 False False\<rparr>"
  have first: "first_literal_char (vWild v) 0 False False = vFirst v"
    using rule_view_first [OF ok, of r] slow unfolding v_def by presburger
  have rep: "represents up (m_bCaseInsensitive e) (m_StringArena e) r ?en"
    using ready_represents(1) [OF ok en c] unfolding v_def [symmetric] first by simp
  obtain st s \<sigma>' where pb: "KVector_PushBack sizeof_PatternEntry \<sigma> (m_SlowPathList e) ?en = (st, s, \<sigma>')"
    by (cases "KVector_PushBack sizeof_PatternEntry \<sigma> (m_SlowPathList e) ?en")
  let ?e = "e\<lparr>m_SlowPathList := s\<rparr>"
  have "kv_ok sizeof_PatternEntry \<sigma> (m_SlowPathList e)"
    using tx_memory [OF tx] by (simp add: memory_ok_def)
  note sp = PushBack_spec [OF tx_sys_ok [OF tx] this pb]
  note mem = memory_slow [OF tx_sys_ok [OF tx] tx_memory [OF tx] sp [THEN conjunct2, THEN conjunct1] sp [THEN conjunct1]]
  show ?thesis
  proof (cases "NT_SUCCESS st")
    case False
    then have s: "s = m_SlowPathList e"
      using sp by auto
    have "\<not> generous \<sigma>"
      using PushBack_room [OF tx_sys_ok [OF tx] _ _ sizeof_entry_small(1) tx_list_lengths(1) [OF tx] pb] False
        tx_memory [OF tx] by (auto simp: memory_ok_def)
    then have full: "\<not> roomy \<sigma>0 e0"
      using tx_generous [OF tx] by (simp add: roomy_def)
    have "tx_ok up csz \<sigma>0 e0 bs rules \<sigma>' ?e"
    proof (rule tx_step [OF sys(1) tx mem])
      show "holds_rules up (?e\<lparr>m_StringArena := m_StringArena e0\<rparr>) rules"
        by (rule tx_keep [OF tx]) (simp_all add: s bucket_def)
      show "contexts_kept e0 ?e"
        using tx contexts_kept_same [of ?e e] by (simp add: tx_ok_def)
    qed (use c fo filters_ok_cong [of ?e e] contexts_ok_cong [of ?e e] in simp_all)
    then show ?thesis
      using rollback_outcome [OF sys _ False full] False little by (simp add: AddPattern_slow_def wild pb grows_little_def)
  next
    case True
    then have s: "kv_elems s = kv_elems (m_SlowPathList e) @ [?en]"
      using sp by auto
    have st: "st = STATUS_SUCCESS"
      using sp True by auto
    have run: "AddPattern_slow \<sigma> e (GetBookmark (m_StringArena e0)) p en = Some (STATUS_SUCCESS, count_pattern ?e p, \<sigma>')"
      using True by (simp add: AddPattern_slow_def wild pb)
    have en': "entry_ready up ?e rules p r en" and c': "contexts_ok ?e rules"
      using en c entry_ready_cong [of ?e e] contexts_ok_cong [of ?e e] by simp_all
    note cf = count_pattern_fields [of up ?e, OF ok(1) _ en' c', simplified, OF ok(2), folded v_def]
    have mem': "memory_ok csz \<sigma>' (count_pattern ?e p)" "engine_owned (count_pattern ?e p) = engine_owned ?e"
      using mem(1) memory_ok_cong [of "count_pattern ?e p" ?e] by simp_all
    show ?thesis
      unfolding run
    proof (rule commit_outcome [OF sys(1) tx en rep mem'(1) _ _ _ _ _ v_def])
      show "owns_step \<sigma> (engine_owned e) \<sigma>' (engine_owned (count_pattern ?e p))"
        unfolding mem'(2) by (rule mem(2))
      show "bucket (count_pattern ?e p) h = bucket e h @ (if \<not> is_slow v \<and> h = block_hash 0 (vPrefix v) then [?en] else [])" for h
        using slow by (simp add: bucket_def v_def)
      show "grows_little e0 (count_pattern ?e p)"
        using little count_pattern_min [of ?e p] by (simp add: grows_little_def)
    qed (use cf fo slow s in \<open>simp_all add: v_def filters_ok_def Let_def\<close>)
  qed
qed

text \<open>The fast path from the bucket on, and from the hash map on.\<close>

definition push_phase ::
  "sys \<Rightarrow> ('c::len word, 'ctx) engine \<Rightarrow> bookmark \<Rightarrow> parsed \<Rightarrow> 'c word pentry \<Rightarrow> u64 \<Rightarrow> nat \<Rightarrow>
     (ntstatus \<times> ('c word, 'ctx) engine \<times> sys) option" where
  "push_phase \<sigma> e mark p en hash i =
     do {
       bucket \<leftarrow> value_at (m_HashMap e) i;
       let (status, bucket, \<sigma>) = KVector_PushBack sizeof_PatternEntry \<sigma> bucket en
       in do {
         m \<leftarrow> set_value_at (m_HashMap e) i bucket;
         let e = e\<lparr>m_HashMap := m\<rparr>
         in if \<not> NT_SUCCESS status then rollback \<sigma> e mark status
            else do {
              f \<leftarrow> filter_set (m_HashFilter e) hash;
              Some (STATUS_SUCCESS, (count_pattern e p)\<lparr>m_HashFilter := f\<rparr>, \<sigma>)
            }
       }
     }"

definition map_phase ::
  "sys \<Rightarrow> ('c::len word, 'ctx) engine \<Rightarrow> bookmark \<Rightarrow> parsed \<Rightarrow> 'c word pentry \<Rightarrow> u64 \<Rightarrow>
     (ntstatus \<times> ('c word, 'ctx) engine \<times> sys) option" where
  "map_phase \<sigma> e mark p en hash =
     do {
       (status, pBucket, m, \<sigma>) \<leftarrow>
         KFlatHashMap_GetOrInsert KPrecomputedHash bucket_ops sizeof_Slot KVector_new \<sigma> (m_HashMap e) hash;
       let e = e\<lparr>m_HashMap := m\<rparr>
       in if \<not> NT_SUCCESS status then rollback \<sigma> e mark status
          else do { i \<leftarrow> pBucket; push_phase \<sigma> e mark p en hash i }
     }"

lemma AddPattern_fast_phases:
  "AddPattern_fast \<sigma> e mark p en =
     do {
       prefix \<leftarrow> read_chars (m_StringArena e) (pStableBuffer p) (prefixUnescapedLen p);
       hash \<leftarrow> CalculateHash prefix (prefixUnescapedLen p) 0;
       let (status, lens, \<sigma>) = insert_length \<sigma> (m_LengthVec e) (prefixUnescapedLen p);
           e = e\<lparr>m_LengthVec := lens\<rparr>
       in if \<not> NT_SUCCESS status then rollback \<sigma> e mark status else map_phase \<sigma> e mark p en hash
     }"
  by (simp add: AddPattern_fast_def map_phase_def push_phase_def Let_def cong: if_cong)

lemma bucket_push_room:
  assumes tx: "tx_ok up csz \<sigma>0 e0 bs rules \<sigma> e" and key: "has_key (hm_slots (m_HashMap e)) hash k"
    and b: "value_at (m_HashMap e) k = Some b" "KVector_PushBack sizeof_PatternEntry \<sigma> b en = (st, b', \<sigma>')" and g: "generous \<sigma>"
  shows "st = STATUS_SUCCESS"
proof -
  have mok: "hm_ok KPrecomputedHash sizeof_Slot kv_owned (kv_ok sizeof_PatternEntry) \<sigma> (m_HashMap e)"
    using tx_memory [OF tx] by (simp only: memory_ok_def)
  then have m: "hm_map (m_HashMap e) hash = Some b"
    using buckets.has_key_value [OF buckets.hm_ok_table [OF mok] key] b(1) by (metis option.inject)
  then have "kv_ok sizeof_PatternEntry \<sigma> b"
    using mok by (auto simp: hm_ok_def values_ok_def ran_def)
  moreover have "length (kv_elems b) < 2 ^ 40"
    using tx_list_lengths(2) [OF tx, of hash] m by (simp add: bucket_def)
  ultimately show ?thesis
    by (rule PushBack_room [OF tx_sys_ok [OF tx] generous_affords [OF g] _ sizeof_entry_small(1) _ b(2)])
qed

text \<open>The commit of the fast path: the entry is in its bucket, the pattern counted, the filter bit set.\<close>

lemma fast_commit:
  fixes e :: "('c::len word, 'ctx) engine"
  assumes ok: "tchar_ok TYPE('c)" "case_table_ok up (m_bCaseInsensitive e)"
    and sys: "sys_ok \<sigma>0" and tx: "tx_ok up csz \<sigma>0 e0 bs rules \<sigma> e" and en: "entry_ready up e rules p r en"
  defines "v \<equiv> rule_view up (m_bCaseInsensitive e) r"
  assumes fast: "\<not> is_slow v" "length (vPrefix v) \<in> set (kv_elems (m_LengthVec e))"
    and mem: "memory_ok csz \<sigma>' (e\<lparr>m_HashMap := m\<rparr>)" "owns_step \<sigma> (engine_owned e) \<sigma>' (engine_owned (e\<lparr>m_HashMap := m\<rparr>))"
    and pushed: "\<And>h. bucket (e\<lparr>m_HashMap := m\<rparr>) h = bucket e h @ (if h = block_hash 0 (vPrefix v) then [en] else [])"
    and f: "length f = 16" "filter_test f (block_hash 0 (vPrefix v)) = Some True"
      "\<And>h. filter_test (m_HashFilter e) h = Some True \<Longrightarrow> filter_test f h = Some True"
    and little: "grows_little e0 (e\<lparr>m_HashMap := m\<rparr>)"
  shows "add_outcome up csz \<sigma>0 e0 rules r
    (Some (STATUS_SUCCESS, (count_pattern (e\<lparr>m_HashMap := m\<rparr>) p)\<lparr>m_HashFilter := f\<rparr>, \<sigma>'))"
proof -
  let ?e = "e\<lparr>m_HashMap := m\<rparr>"
  let ?e' = "(count_pattern ?e p)\<lparr>m_HashFilter := f\<rparr>"
  have c: "contexts_ok e rules"
    using tx by (simp only: tx_ok_def)
  then have c': "contexts_ok ?e rules" and en': "entry_ready up ?e rules p r en"
    using en by (simp_all add: contexts_ok_def entry_ready_def)
  have count: "m_nPatternCount ?e' = Suc (length rules)" "m_bWildCardPresent ?e' \<longleftrightarrow> m_bWildCardPresent e \<or> vWild v \<noteq> []"
      "m_nGlobalMinMatchLength ?e' = min (m_nGlobalMinMatchLength e) (length (vPrefix v) + vMin v)"
    using count_pattern_fields [of up ?e, OF ok(1) _ en' c'] ok(2) by (simp_all add: v_def)
  have rep: "represents up (m_bCaseInsensitive e) (m_StringArena e) r en"
    using ready_represents(2) [OF ok en c] fast(1) by (simp add: v_def)
  have mem': "memory_ok csz \<sigma>' ?e'" "owns_step \<sigma> (engine_owned e) \<sigma>' (engine_owned ?e')"
    using mem memory_ok_cong [of ?e' ?e] by simp_all
  have b: "bucket ?e' h = bucket e h @ (if \<not> is_slow v \<and> h = block_hash 0 (vPrefix v) then [en] else [])" for h
    using pushed [of h] fast(1) by (simp add: bucket_def)
  have "grows_little e0 ?e'"
    using little count_pattern_min [of ?e p] by (simp add: grows_little_def)
  then show ?thesis
    using fast f by (intro commit_outcome [OF sys tx en rep mem' _ _ _ _ _ _ b count]) (simp_all add: v_def)
qed

lemma push_phase_outcome:
  fixes e :: "('c::len word, 'ctx) engine"
  assumes ok: "tchar_ok TYPE('c)" "case_table_ok up (m_bCaseInsensitive e)"
    and sys: "sys_ok \<sigma>0" "arena_chain \<sigma>0 (m_StringArena e0) bs" and tx: "tx_ok up csz \<sigma>0 e0 bs rules \<sigma> e"
    and en: "entry_ready up e rules p r en"
  defines "v \<equiv> rule_view up (m_bCaseInsensitive e) r"
  assumes fast: "\<not> is_slow v" "length (vPrefix v) \<in> set (kv_elems (m_LengthVec e))"
    and key: "has_key (hm_slots (m_HashMap e)) (block_hash 0 (vPrefix v)) k" and little: "grows_little e0 e"
  shows "add_outcome up csz \<sigma>0 e0 rules r (push_phase \<sigma> e (GetBookmark (m_StringArena e0)) p en (block_hash 0 (vPrefix v)) k)"
proof -
  define hash where "hash = block_hash 0 (vPrefix v)"
  have k: "has_key (hm_slots (m_HashMap e)) hash k"
    using key by (simp add: hash_def)
  obtain b where b: "value_at (m_HashMap e) k = Some b"
      "\<forall>r b' \<sigma>'. KVector_PushBack sizeof_PatternEntry \<sigma> b en = (r, b', \<sigma>') \<longrightarrow>
         (\<exists>m. set_value_at (m_HashMap e) k b' = Some m \<and> memory_ok csz \<sigma>' (e\<lparr>m_HashMap := m\<rparr>) \<and>
           owns_step \<sigma> (engine_owned e) \<sigma>' (engine_owned (e\<lparr>m_HashMap := m\<rparr>)) \<and>
           (r = STATUS_SUCCESS \<and> (\<forall>h. bucket (e\<lparr>m_HashMap := m\<rparr>) h = bucket e h @ (if h = hash then [en] else [])) \<or>
            \<not> NT_SUCCESS r \<and> (\<forall>h. bucket (e\<lparr>m_HashMap := m\<rparr>) h = bucket e h)))"
    using bucket_push [OF tx_sys_ok [OF tx] tx_memory [OF tx] k, of en] by (elim exE conjE)
  obtain st b' \<sigma>' where pb: "KVector_PushBack sizeof_PatternEntry \<sigma> b en = (st, b', \<sigma>')"
    by (cases "KVector_PushBack sizeof_PatternEntry \<sigma> b en")
  obtain m where m: "set_value_at (m_HashMap e) k b' = Some m" "memory_ok csz \<sigma>' (e\<lparr>m_HashMap := m\<rparr>)"
      "owns_step \<sigma> (engine_owned e) \<sigma>' (engine_owned (e\<lparr>m_HashMap := m\<rparr>))"
      "st = STATUS_SUCCESS \<and> (\<forall>h. bucket (e\<lparr>m_HashMap := m\<rparr>) h = bucket e h @ (if h = hash then [en] else [])) \<or>
       \<not> NT_SUCCESS st \<and> (\<forall>h. bucket (e\<lparr>m_HashMap := m\<rparr>) h = bucket e h)"
    using b(2) [rule_format, OF pb] by blast
  have l: "grows_little e0 (e\<lparr>m_HashMap := m\<rparr>)"
    using little set_value_at_fields [OF m(1)] by (simp add: grows_little_def takes_little_def)
  show ?thesis
  proof (cases "NT_SUCCESS st")
    case False
    have "tx_ok up csz \<sigma>0 e0 bs rules \<sigma>' (e\<lparr>m_HashMap := m\<rparr>)"
      using m(4) False by (intro tx_map [OF sys(1) tx m(2,3)]) auto
    moreover have "\<not> roomy \<sigma>0 e0"
      using bucket_push_room [OF tx k b(1) pb] False tx_generous [OF tx] by (auto simp: roomy_def)
    ultimately show ?thesis
      using rollback_outcome [OF sys _ False] l False by (simp add: push_phase_def b(1) pb m(1))
  next
    case True
    have "length (m_HashFilter e) = 16"
      using tx by (simp add: tx_ok_def filters_ok_def Let_def)
    then obtain f where f: "filter_set (m_HashFilter e) hash = Some f" "length f = 16" "filter_test f hash = Some True"
        "\<And>h. filter_test (m_HashFilter e) h = Some True \<Longrightarrow> filter_test f h = Some True"
      using filter_set_spec by metis
    have pushed: "bucket (e\<lparr>m_HashMap := m\<rparr>) h = bucket e h @ (if h = block_hash 0 (vPrefix v) then [en] else [])" for h
      using m(4) True by (simp add: hash_def)
    have "add_outcome up csz \<sigma>0 e0 rules r
        (Some (STATUS_SUCCESS, (count_pattern (e\<lparr>m_HashMap := m\<rparr>) p)\<lparr>m_HashFilter := f\<rparr>, \<sigma>'))"
      by (rule fast_commit [OF ok sys(1) tx en fast [unfolded v_def] m(2,3) pushed [unfolded v_def] f(2) f(3) [unfolded hash_def v_def] f(4) l])
    then show ?thesis
      using True f(1) by (simp add: push_phase_def b(1) pb m(1) flip: hash_def)
  qed
qed

lemma map_phase_outcome:
  fixes e :: "('c::len word, 'ctx) engine"
  assumes ok: "tchar_ok TYPE('c)" "case_table_ok up (m_bCaseInsensitive e)"
    and sys: "sys_ok \<sigma>0" "arena_chain \<sigma>0 (m_StringArena e0) bs" and tx: "tx_ok up csz \<sigma>0 e0 bs rules \<sigma> e"
    and en: "entry_ready up e rules p r en"
  defines "v \<equiv> rule_view up (m_bCaseInsensitive e) r"
  assumes fast: "\<not> is_slow v" "length (vPrefix v) \<in> set (kv_elems (m_LengthVec e))"
    and same: "m_HashMap e = m_HashMap e0" and little: "grows_little e0 e"
  shows "add_outcome up csz \<sigma>0 e0 rules r (map_phase \<sigma> e (GetBookmark (m_StringArena e0)) p en (block_hash 0 (vPrefix v)))"
proof -
  obtain st i m \<sigma>' where g: "KFlatHashMap_GetOrInsert KPrecomputedHash bucket_ops sizeof_Slot KVector_new \<sigma> (m_HashMap e)
        (block_hash 0 (vPrefix v)) = Some (st, i, m, \<sigma>')"
      "tx_ok up csz \<sigma>0 e0 bs rules \<sigma>' (e\<lparr>m_HashMap := m\<rparr>)"
      "NT_SUCCESS st \<and> (\<exists>k. i = Some k \<and> has_key (hm_slots m) (block_hash 0 (vPrefix v)) k) \<or> \<not> NT_SUCCESS st"
      "takes_little (m_HashMap e) m"
    by (rule tx_bucket [OF sys(1) tx])
  let ?e = "e\<lparr>m_HashMap := m\<rparr>"
  have l: "grows_little e0 ?e"
    using little g(4) same by (simp add: grows_little_def)
  show ?thesis
  proof (cases "NT_SUCCESS st")
    case False
    have "hm_ok KPrecomputedHash sizeof_Slot kv_owned (kv_ok sizeof_PatternEntry) \<sigma> (m_HashMap e)"
      using tx_memory [OF tx] by (simp add: memory_ok_def)
    then have "\<not> roomy \<sigma>0 e0"
      using buckets.Emplace_room [OF tx_sys_ok [OF tx] _ _ sizeof_entry_small(2) _ g(1) [unfolded KFlatHashMap_GetOrInsert_def]]
        tx_generous [OF tx] False same by (auto simp: roomy_def)
    then show ?thesis
      using rollback_outcome [OF sys g(2) False] False l by (simp add: map_phase_def g(1))
  next
    case True
    then obtain k where k: "i = Some k" "has_key (hm_slots (m_HashMap ?e)) (block_hash 0 (vPrefix v)) k"
      using g(3) by auto
    have en': "entry_ready up ?e rules p r en"
      using en by (simp add: entry_ready_def)
    have run: "map_phase \<sigma> e (GetBookmark (m_StringArena e0)) p en (block_hash 0 (vPrefix v)) =
        push_phase \<sigma>' ?e (GetBookmark (m_StringArena e0)) p en (block_hash 0 (vPrefix v)) k"
      using True k(1) by (simp add: map_phase_def g(1))
    show ?thesis
      unfolding run using push_phase_outcome [of up ?e, OF ok(1) _ sys g(2) en' _ _ _ l] ok(2) fast k(2) by (simp add: v_def)
  qed
qed

lemma AddPattern_fast_outcome:
  fixes e :: "('c::len word, 'ctx) engine"
  assumes ok: "tchar_ok TYPE('c)" "case_table_ok up (m_bCaseInsensitive e)"
    and sys: "sys_ok \<sigma>0" "arena_chain \<sigma>0 (m_StringArena e0) bs" and tx: "tx_ok up csz \<sigma>0 e0 bs rules \<sigma> e"
    and en: "entry_ready up e rules p r en" and fast: "\<not> is_slow (rule_view up (m_bCaseInsensitive e) r)"
    and same0: "m_LengthVec e = m_LengthVec e0" "m_HashMap e = m_HashMap e0" and little: "grows_little e0 e"
  shows "add_outcome up csz \<sigma>0 e0 rules r (AddPattern_fast \<sigma> e (GetBookmark (m_StringArena e0)) p en)"
proof -
  define v where "v = rule_view up (m_bCaseInsensitive e) r"
  note rv = ready_view [OF en, folded v_def]
  have hash: "CalculateHash (vPrefix v) (prefixUnescapedLen p) 0 = Some (block_hash 0 (vPrefix v))"
    using CalculateHash_eq [OF ok(1) order_refl, of "vPrefix v" 0] by (simp add: rv(6))
  obtain st lens \<sigma>1 where il: "insert_length \<sigma> (m_LengthVec e) (prefixUnescapedLen p) = (st, lens, \<sigma>1)"
    by (cases "insert_length \<sigma> (m_LengthVec e) (prefixUnescapedLen p)")
  note t1 = tx_lengths [OF sys(1) tx il]
  have "length (rPat r) < 2 ^ 32"
    using en by (simp add: entry_ready_def)
  then have short: "prefixUnescapedLen p < 2 ^ 32"
    using rule_view_parts(1) [OF ok, of r] by (simp add: rv(6) v_def)
  let ?e = "e\<lparr>m_LengthVec := lens\<rparr>"
  have l: "grows_little e0 ?e"
    using little t1(3,4) same0 short by (auto simp: grows_little_def)
  show ?thesis
  proof (cases "NT_SUCCESS st")
    case False
    have "kv_ok sizeof_UINT32 \<sigma> (m_LengthVec e)"
      using tx_memory [OF tx] by (simp add: memory_ok_def)
    then have "\<not> roomy \<sigma>0 e0"
      using insert_length_room [OF tx_sys_ok [OF tx] _ _ _ il] tx_generous [OF tx] False same0(1) by (auto simp: roomy_def)
    then show ?thesis
      using rollback_outcome [OF sys t1(1) False] False l by (simp add: AddPattern_fast_phases rv(10) hash il)
  next
    case True
    have n: "length (vPrefix v) \<in> set (kv_elems (m_LengthVec ?e))"
      using t1(2) True by (simp add: rv(6))
    have en': "entry_ready up ?e rules p r en"
      using en by (simp add: entry_ready_def)
    have run: "AddPattern_fast \<sigma> e (GetBookmark (m_StringArena e0)) p en =
        map_phase \<sigma>1 ?e (GetBookmark (m_StringArena e0)) p en (block_hash 0 (vPrefix v))"
      using True by (simp add: AddPattern_fast_phases rv(10) hash il)
    show ?thesis
      unfolding run using map_phase_outcome [of up ?e, OF ok(1) _ sys t1(1) en' _ _ _ l] ok(2) fast n same0(2) by (simp add: v_def)
  qed
qed

end
