(* ===== verification/EngineSpec.thy ===== *)
theory EngineSpec
  imports EngineCommit
begin

text \<open>
  The operations of the class over the abstract state, a list of rules: the constructor,
  \<open>AddPattern\<close>, \<open>Clear\<close>, the destructor and the two searches.
\<close>

section \<open>Registering\<close>

lemma passed_length: "passed s n = Some b \<Longrightarrow> length b = n"
  by (auto simp: passed_def slice_def split: option.splits if_splits)

lemma unchanged_outcome:
  assumes "sys_ok \<sigma>" "engine_ok up csz \<sigma> e rules" "\<not> NT_SUCCESS st" "\<not> roomy \<sigma> e"
  shows "add_outcome up csz \<sigma> e rules r (Some (st, e, \<sigma>))"
proof -
  have "memory_ok csz \<sigma> e"
    using assms(2) by (simp add: engine_ok_def)
  then have "owns_step \<sigma> (engine_owned e) \<sigma> (engine_owned e)"
    using assms(1) owns_step_refl engine_owned_live by blast
  then show ?thesis
    using assms(2-4) by (simp add: add_outcome_def contexts_kept_refl grows_little_refl)
qed

definition next_rule ::
  "('tchar, 'ctx) engine \<Rightarrow> ('tchar, 'ctx) rule list \<Rightarrow> 'tchar list \<Rightarrow> wild_card_scope \<Rightarrow> 'ctx \<Rightarrow> ('tchar, 'ctx) rule" where
  "next_rule e rules pat scope ctx =
     \<lparr>rPat = pat, rScope = scope, rCtx = ctx, rId = Suc (length rules), rIndex = dq_size (m_ContextArena e)\<rparr>"

lemma sorted_bound: "sorted_wrt (<) xs \<Longrightarrow> \<forall>x \<in> set xs. x < n \<Longrightarrow> length xs \<le> n" for n :: nat
  using card_mono [of "{..<n}" "set xs"] distinct_card [of xs] by (auto simp: strict_sorted_iff)

text \<open>A pattern that can be read passes the guard on its pointer and length.\<close>

lemma pattern_guard:
  assumes "tchar_ok TYPE('c::len)" "passed sPattern cch = Some (pat :: 'c word list)" "cch < 2 ^ 32"
  shows "\<not> (sPattern = None \<and> cch > 0 \<or> cch > (2 ^ 64 - 1 - 4096) div sizeof_tchar TYPE('c))"
proof -
  have "sizeof_tchar TYPE('c) = 1 \<or> sizeof_tchar TYPE('c) = 2"
    using assms(1) by (auto simp: tchar_ok_def sizeof_tchar_def)
  then have "\<not> (2 ^ 64 - 1 - 4096) div sizeof_tchar TYPE('c) < cch"
    using assms(3) by auto
  moreover have "\<not> (sPattern = None \<and> 0 < cch)"
    using assms(2) by (auto simp: passed_def split: if_splits option.splits)
  ultimately show ?thesis
    by blast
qed

lemma full_outcome:
  assumes "sys_ok \<sigma>" "engine_ok up csz \<sigma> e rules" "m_nPatternCount e \<ge> kMaxPatterns"
  shows "add_outcome up csz \<sigma> e rules r (Some (STATUS_QUOTA_EXCEEDED, e, \<sigma>))"
proof -
  have "contexts_ok e rules"
    using assms(2) by (simp add: engine_ok_def)
  then have "\<not> roomy \<sigma> e"
    using assms(3) sorted_bound [of "map rIndex rules" "dq_size (m_ContextArena e)"] by (auto simp: roomy_def contexts_ok_def)
  then show ?thesis
    using unchanged_outcome [OF assms(1,2)] by simp
qed

text \<open>\<open>AddPattern\<close> after the parser: the context, then one of the two paths.\<close>

definition entry_phase ::
  "nat \<Rightarrow> sys \<Rightarrow> ('c::len word, 'ctx) engine \<Rightarrow> bookmark \<Rightarrow> parsed \<Rightarrow> wild_card_scope \<Rightarrow> 'ctx \<Rightarrow>
     (ntstatus \<times> ('c word, 'ctx) engine \<times> sys) option" where
  "entry_phase csz \<sigma> e mark p WildScope ctx =
     (let (status, q, \<sigma>) = KDeque_EmplaceBack BlockCapacity csz \<sigma> (m_ContextArena e) ctx;
          e = e\<lparr>m_ContextArena := q\<rparr>
      in if \<not> NT_SUCCESS status then rollback \<sigma> e mark status
         else
           let ctxIndex = trunc32 (dq_size q - 1);
               newEntry = new_entry p (m_nPatternCount e) ctxIndex WildScope
           in if prefixUnescapedLen p = 0 \<and> cchWildPart p > 0
              then AddPattern_slow \<sigma> e mark p newEntry
              else AddPattern_fast \<sigma> e mark p newEntry)"

lemma AddPattern_phases:
  fixes e :: "('c::len word, 'ctx) engine"
  assumes guard: "\<not> (sPattern = None \<and> cch > 0 \<or> cch > (2 ^ 64 - 1 - 4096) div sizeof_tchar TYPE('c))"
    and room: "\<not> m_nPatternCount e \<ge> kMaxPatterns" and pat: "passed sPattern cch = Some pat"
    and parse: "AddPattern_parse up \<sigma> (m_StringArena e) (m_bCaseInsensitive e) pat = Some (r, a, \<sigma>1)"
  shows "AddPattern up csz \<sigma> e sPattern cch scope ctx =
    (case r of Inl _ \<Rightarrow> rollback \<sigma>1 (e\<lparr>m_StringArena := a\<rparr>) (GetBookmark (m_StringArena e)) STATUS_INSUFFICIENT_RESOURCES
     | Inr p \<Rightarrow> entry_phase csz \<sigma>1 (e\<lparr>m_StringArena := a\<rparr>) (GetBookmark (m_StringArena e)) p scope ctx)"
  using guard room by (simp only: AddPattern_def if_False Let_def pat bind.bind_lunit parse prod.case entry_phase_def)

lemma entry_phase_outcome:
  fixes e e0 :: "('c::len word, 'ctx) engine"
  assumes ok: "tchar_ok TYPE('c)" "case_table_ok up (m_bCaseInsensitive e)"
    and sys: "sys_ok \<sigma>0" "arena_chain \<sigma>0 (m_StringArena e0) bs" and tx: "tx_ok up csz \<sigma>0 e0 bs rules \<sigma> e"
    and p: "parsed_ok (m_StringArena e) p (parse_view up (m_bCaseInsensitive e) scope pat)" "length pat < 2 ^ 32"
    and room: "\<not> m_nPatternCount e \<ge> kMaxPatterns"
    and same: "m_ContextArena e = m_ContextArena e0" "m_LengthVec e = m_LengthVec e0" "m_HashMap e = m_HashMap e0"
      "m_nGlobalMinMatchLength e = m_nGlobalMinMatchLength e0"
  shows "add_outcome up csz \<sigma>0 e0 rules (next_rule e0 rules pat scope ctx)
    (entry_phase csz \<sigma> e (GetBookmark (m_StringArena e0)) p scope ctx)"
proof -
  let ?r = "next_rule e0 rules pat scope ctx" and ?mark = "GetBookmark (m_StringArena e0)"
  let ?v = "rule_view up (m_bCaseInsensitive e) ?r"
  have c: "contexts_ok e rules"
    using tx by (simp only: tx_ok_def)
  have pk: "parsed_ok (m_StringArena e) p ?v"
    using p(1) by (simp add: rule_view_def next_rule_def)
  obtain st q \<sigma>' where em: "KDeque_EmplaceBack BlockCapacity csz \<sigma> (m_ContextArena e) ctx = (st, q, \<sigma>')"
    by (cases "KDeque_EmplaceBack BlockCapacity csz \<sigma> (m_ContextArena e) ctx")
  note t = tx_context [OF sys(1) tx em]
  let ?e = "e\<lparr>m_ContextArena := q\<rparr>"
  have little: "grows_little e0 ?e"
    using t(4) same by (simp add: grows_little_def takes_little_refl)
  show ?thesis
  proof (cases "NT_SUCCESS st")
    case False
    have "dq_ok BlockCapacity csz \<sigma> (m_ContextArena e)"
      using tx_memory [OF tx] by (simp only: memory_ok_def)
    then have "\<not> roomy \<sigma>0 e0"
      using EmplaceBack_room [OF tx_sys_ok [OF tx] _ _ _ em] tx_generous [OF tx] False same(1)
      by (auto simp: roomy_def kMaxPatterns_def kMaxBlocks_def BlockCapacity_def)
    then show ?thesis
      using rollback_outcome [OF sys t(1) False] False little em by (simp add: entry_phase_def Let_def)
  next
    case True
    then have q: "dq_size q = dq_size (m_ContextArena e) + 1" "KDeque_at BlockCapacity q (dq_size (m_ContextArena e)) = Some ctx"
      using t(2) by auto
    have i: "trunc32 (dq_size q - 1) = dq_size (m_ContextArena e)"
      using t(3) q(1) by (simp add: trunc32_def kMaxPatterns_def)
    let ?en = "new_entry p (m_nPatternCount e) (dq_size (m_ContextArena e)) scope"
    have en: "entry_ready up ?e rules p ?r ?en"
      using pk room c p(2) q same(1) by (simp add: entry_ready_def contexts_ok_def) (simp add: next_rule_def)
    have "prefixUnescapedLen p = 0 \<and> cchWildPart p > 0 \<longleftrightarrow> is_slow ?v"
      using pk unfolding parsed_ok_def is_slow_def by auto
    then have "entry_phase csz \<sigma> e ?mark p scope ctx =
        (if is_slow ?v then AddPattern_slow \<sigma>' ?e ?mark p ?en else AddPattern_fast \<sigma>' ?e ?mark p ?en)"
      using True em i by (simp add: entry_phase_def Let_def)
    then show ?thesis
      using AddPattern_slow_outcome [of up ?e, OF ok(1) _ sys t(1) en]
        AddPattern_fast_outcome [of up ?e, OF ok(1) _ sys t(1) en] ok(2) little same by simp
  qed
qed

theorem AddPattern_spec:
  fixes e :: "('c::len word, 'ctx) engine"
  assumes ok: "tchar_ok TYPE('c)" "case_table_ok up (m_bCaseInsensitive e)"
    and sys: "sys_ok \<sigma>" and eok: "engine_ok up csz \<sigma> e rules"
    and pat: "passed sPattern cch = Some pat" "cch < 2 ^ 32"
  shows "add_outcome up csz \<sigma> e rules (next_rule e rules pat scope ctx) (AddPattern up csz \<sigma> e sPattern cch scope ctx)"
proof (cases "m_nPatternCount e \<ge> kMaxPatterns")
  case True
  then have "AddPattern up csz \<sigma> e sPattern cch scope ctx = Some (STATUS_QUOTA_EXCEEDED, e, \<sigma>)"
    using pattern_guard [OF ok(1) pat] by (simp only: AddPattern_def if_False if_True)
  then show ?thesis
    using full_outcome [OF sys eok True] by simp
next
  case False
  have len: "length pat < 2 ^ 32"
    using passed_length [OF pat(1)] pat(2) by simp
  have "arena_ok \<sigma> (m_StringArena e)"
    using eok by (simp add: engine_ok_def memory_ok_def)
  then obtain bs where ch: "arena_chain \<sigma> (m_StringArena e) bs"
    by (auto simp: arena_ok_def)
  obtain pr a \<sigma>1 where parse: "AddPattern_parse up \<sigma> (m_StringArena e) (m_bCaseInsensitive e) pat = Some (pr, a, \<sigma>1)"
      "arena_step \<sigma> (m_StringArena e) bs \<sigma>1 a" "\<And>p. pr = Inr p \<Longrightarrow> parsed_ok a p (parse_view up (m_bCaseInsensitive e) scope pat)"
      "generous \<sigma> \<Longrightarrow> \<exists>p. pr = Inr p"
    using AddPattern_parse_spec [OF ok sys ch len, of scope] by metis
  note run = AddPattern_phases [OF pattern_guard [OF ok(1) pat] False pat(1) parse(1)]
  have tx: "tx_ok up csz \<sigma> e bs rules \<sigma>1 (e\<lparr>m_StringArena := a\<rparr>)"
    by (rule tx_arena [OF sys eok ch parse(2)])
  show ?thesis
  proof (cases pr)
    case (Inl u)
    then have "\<not> roomy \<sigma> e"
      using parse(4) by (auto simp: roomy_def)
    then show ?thesis
      using rollback_outcome [OF sys ch tx, of STATUS_INSUFFICIENT_RESOURCES] Inl
      by (simp add: run grows_little_def takes_little_refl)
  next
    case (Inr p)
    then show ?thesis
      using entry_phase_outcome [of up "e\<lparr>m_StringArena := a\<rparr>", OF ok(1) _ sys ch tx _ len] parse(3) False ok(2)
      by (simp add: run)
  qed
qed

lemma AddPattern_null:
  "0 < cch \<Longrightarrow> AddPattern up csz \<sigma> e None cch scope ctx = Some (STATUS_INVALID_PARAMETER, e, \<sigma>)"
  by (simp add: AddPattern_def)

section \<open>Construction\<close>

lemma engine_new_ok:
  "engine_ok up csz \<sigma> (engine_new ci) []" "engine_owned (engine_new ci) = {}"
proof -
  have "dq_ok BlockCapacity csz \<sigma> KDeque_new"
    by (rule dq_ok_new [where k = 9]) (simp add: BlockCapacity_def)
  then show "engine_ok up csz \<sigma> (engine_new ci) []"
    by (simp add: engine_ok_def engine_new_def memory_ok_def part_owned_def holds_rules_def filters_ok_def
        contexts_ok_def Let_def bucket_def slow_rules_def fast_rules_def)
  show "engine_owned (engine_new ci) = {}"
    by (simp add: engine_owned_def part_owned_def engine_new_def)
qed

section \<open>Clearing and destroying\<close>

lemma engine_Clear_spec:
  fixes e :: "('c::len word, 'ctx) engine"
  assumes sys: "sys_ok \<sigma>" and eok: "engine_ok up csz \<sigma> e rules"
  shows "\<exists>e' \<sigma>'. engine_Clear \<sigma> e = Some (e', \<sigma>') \<and> engine_ok up csz \<sigma>' e' [] \<and>
    owns_step \<sigma> (engine_owned e) \<sigma>' (engine_owned e') \<and> m_bCaseInsensitive e' = m_bCaseInsensitive e"
proof -
  have mem: "memory_ok csz \<sigma> e"
    using eok by (simp add: engine_ok_def)
  have "hm_ok KPrecomputedHash sizeof_Slot kv_owned (kv_ok sizeof_PatternEntry) \<sigma> (m_HashMap e)"
    using mem by (simp add: memory_ok_def)
  then obtain m \<sigma>1 where m: "KFlatHashMap_Clear bucket_ops \<sigma> (m_HashMap e) = Some (m, \<sigma>1)"
      "hm_ok KPrecomputedHash sizeof_Slot kv_owned (kv_ok sizeof_PatternEntry) \<sigma>1 m" "hm_map m = Map.empty"
      "owns_step \<sigma> (hm_owned kv_owned (m_HashMap e)) \<sigma>1 (hm_owned kv_owned m)"
    using buckets.Clear_spec [OF sys] by metis
  let ?e1 = "e\<lparr>m_HashMap := m\<rparr>"
  note mem1 = memory_map [OF sys mem m(4,2)]
  have sys1: "sys_ok \<sigma>1"
    by (rule owns_step_sys_ok [OF mem1(2)])
  have a1: "arena_ok \<sigma>1 (m_StringArena ?e1)"
    using mem1(1) by (simp only: memory_ok_def)
  then obtain \<sigma>2 where a: "KStringArena_Clear \<sigma>1 (m_StringArena ?e1) = Some (KStringArena_new, \<sigma>2)"
      "owns_step \<sigma>1 (arena_owned (m_StringArena ?e1)) \<sigma>2 (arena_owned (KStringArena_new :: 'c word arena))"
    using KStringArena_Clear_spec [OF sys1 a1] by auto
  let ?e2 = "?e1\<lparr>m_StringArena := KStringArena_new\<rparr>"
  note mem2 = memory_arena [OF sys1 mem1(1) a(2) arena_ok_new(1)]
  have sys2: "sys_ok \<sigma>2"
    by (rule owns_step_sys_ok [OF mem2(2)])
  have q2: "dq_ok BlockCapacity csz \<sigma>2 (m_ContextArena ?e2)"
    using mem2(1) by (simp only: memory_ok_def)
  obtain q \<sigma>3 where q: "KDeque_Clear BlockCapacity \<sigma>2 (m_ContextArena ?e2) = (q, \<sigma>3)"
    by fastforce
  note qs = KDeque_Clear_spec [OF sys2 q2 q]
  let ?e3 = "?e2\<lparr>m_ContextArena := q\<rparr>"
  have "owns_step \<sigma>2 (dq_owned (m_ContextArena ?e2)) \<sigma>3 (dq_owned q)"
    using qs(3,4) by simp
  note mem3 = memory_context [OF sys2 mem2(1) this qs(1)]
  define e' where "e' = ?e3\<lparr>m_SlowPathList := KVector_Clear (m_SlowPathList e), m_LengthVec := KVector_Clear (m_LengthVec e),
      m_nPatternCount := 0, m_nGlobalMinMatchLength := MAXUINT32, m_bWildCardPresent := False, m_HashFilter := replicate 16 0\<rparr>"
  have run: "engine_Clear \<sigma> e = Some (e', \<sigma>3)"
    using m(1) a(1) q by (simp add: engine_Clear_def e'_def)
  have owned: "part_owned e' = part_owned ?e3"
    by (simp add: part_owned_def e'_def KVector_Clear_spec(3))
  have "memory_ok csz \<sigma>3 e'"
    using mem3(1) unfolding memory_ok_def owned by (simp add: e'_def KVector_Clear_spec(1))
  moreover have "dq_size q = 0"
    using qs(2) dq_contents_length [of BlockCapacity q] by simp
  ultimately have "engine_ok up csz \<sigma>3 e' []"
    by (simp add: engine_ok_def holds_rules_def filters_ok_def contexts_ok_def Let_def bucket_def
        slow_rules_def fast_rules_def e'_def m(3) KVector_Clear_spec(2))
  moreover have "owns_step \<sigma> (engine_owned e) \<sigma>3 (engine_owned e')"
    using owns_step_trans [OF owns_step_trans [OF mem1(2) mem2(2) sys] mem3(2) sys]
    by (simp add: engine_owned_def owned)
  moreover have "m_bCaseInsensitive e' = m_bCaseInsensitive e"
    by (simp add: e'_def)
  ultimately show ?thesis
    using run by blast
qed

text \<open>The destructor: a member that is gone owns what a new one owns.\<close>

lemma engine_destroy_spec:
  fixes e :: "('c::len word, 'ctx) engine"
  assumes sys: "sys_ok \<sigma>" and mem: "memory_ok csz \<sigma> e"
  shows "\<exists>\<sigma>'. engine_destroy \<sigma> e = Some \<sigma>' \<and> owns_step \<sigma> (engine_owned e) \<sigma>' {}"
proof -
  define \<sigma>1 where "\<sigma>1 = KVector_destroy \<sigma> (m_SlowPathList e)"
  let ?e1 = "e\<lparr>m_SlowPathList := KVector_new\<rparr>"
  have "kv_ok sizeof_PatternEntry \<sigma> (m_SlowPathList e)"
    using mem by (simp only: memory_ok_def)
  then have "owns_step \<sigma> (kv_owned (m_SlowPathList e)) \<sigma>1 (kv_owned KVector_new)"
    unfolding \<sigma>1_def kv_ok_new by (rule KVector_destroy_spec [OF sys])
  note mem1 = memory_slow [OF sys mem this kv_ok_new(1)]
  note sys1 = owns_step_sys_ok [OF mem1(2)]
  have "hm_ok KPrecomputedHash sizeof_Slot kv_owned (kv_ok sizeof_PatternEntry) \<sigma>1 (m_HashMap ?e1)"
    using mem1(1) by (simp only: memory_ok_def)
  then obtain \<sigma>2 where m: "KFlatHashMap_destroy bucket_ops \<sigma>1 (m_HashMap ?e1) = Some \<sigma>2"
      "owns_step \<sigma>1 (hm_owned kv_owned (m_HashMap ?e1)) \<sigma>2 {}"
    using buckets.destroy_spec [OF sys1] by metis
  let ?e2 = "?e1\<lparr>m_HashMap := KFlatHashMap_new\<rparr>"
  have "owns_step \<sigma>1 (hm_owned kv_owned (m_HashMap ?e1)) \<sigma>2 (hm_owned kv_owned KFlatHashMap_new)"
    using m(2) by simp
  note mem2 = memory_map [OF sys1 mem1(1) this hm_ok_new]
  note sys2 = owns_step_sys_ok [OF mem2(2)]
  define \<sigma>3 where "\<sigma>3 = KDeque_destroy BlockCapacity \<sigma>2 (m_ContextArena ?e2)"
  have "dq_ok BlockCapacity csz \<sigma>2 (m_ContextArena ?e2)"
    using mem2(1) by (simp only: memory_ok_def)
  then have d: "owns_step \<sigma>2 (dq_owned (m_ContextArena ?e2)) \<sigma>3 (dq_owned KDeque_new)"
    unfolding \<sigma>3_def dq_new by (rule KDeque_destroy_spec [OF sys2])
  have "dq_ok BlockCapacity csz \<sigma>3 KDeque_new"
    by (rule dq_ok_new [where k = 9]) (simp add: BlockCapacity_def)
  note mem3 = memory_context [OF sys2 mem2(1) d this]
  let ?e3 = "?e2\<lparr>m_ContextArena := KDeque_new\<rparr>"
  note sys3 = owns_step_sys_ok [OF mem3(2)]
  have "arena_ok \<sigma>3 (m_StringArena ?e3)"
    using mem3(1) by (simp only: memory_ok_def)
  then obtain \<sigma>4 where a: "KStringArena_Clear \<sigma>3 (m_StringArena ?e3) = Some (KStringArena_new, \<sigma>4)"
      "owns_step \<sigma>3 (arena_owned (m_StringArena ?e3)) \<sigma>4 (arena_owned (KStringArena_new :: 'c word arena))"
    using KStringArena_Clear_spec [OF sys3, of "m_StringArena ?e3"] by auto
  let ?e4 = "?e3\<lparr>m_StringArena := KStringArena_new\<rparr>"
  note mem4 = memory_arena [OF sys3 mem3(1) a(2) arena_ok_new(1)]
  note sys4 = owns_step_sys_ok [OF mem4(2)]
  define \<sigma>5 where "\<sigma>5 = KVector_destroy \<sigma>4 (m_LengthVec ?e4)"
  have "kv_ok sizeof_UINT32 \<sigma>4 (m_LengthVec ?e4)"
    using mem4(1) by (simp only: memory_ok_def)
  then have "owns_step \<sigma>4 (kv_owned (m_LengthVec ?e4)) \<sigma>5 (kv_owned KVector_new)"
    unfolding \<sigma>5_def kv_ok_new by (rule KVector_destroy_spec [OF sys4])
  note mem5 = memory_lengths [OF sys4 mem4(1) this kv_ok_new(1)]
  have "engine_owned (?e4\<lparr>m_LengthVec := KVector_new\<rparr>) = {}"
    by (simp add: engine_owned_def part_owned_def)
  moreover have "engine_destroy \<sigma> e = Some \<sigma>5"
    using m(1) a(1) by (simp add: engine_destroy_def Let_def \<sigma>1_def [symmetric] \<sigma>3_def [symmetric] \<sigma>5_def [symmetric])
      (simp add: \<sigma>3_def \<sigma>5_def)
  ultimately show ?thesis
    using owns_step_trans [OF owns_step_trans [OF owns_step_trans [OF owns_step_trans [OF mem1(2) mem2(2) sys] mem3(2) sys] mem4(2) sys] mem5(2) sys]
    by (metis (no_types))
qed

section \<open>The contexts handed out\<close>

text \<open>What is stored at an address of the context arena.\<close>

definition context_at :: "('tchar, 'ctx) engine \<Rightarrow> nat \<times> nat \<Rightarrow> 'ctx option" where
  "context_at e p = dq_slots (m_ContextArena e) (fst p) (snd p)"

lemma context_at_address:
  assumes "contexts_ok e rules" "r \<in> set rules"
  shows "context_at e (context_address e r) = Some (rCtx r)"
  using assms addresses_ok [OF assms]
  by (auto simp: contexts_ok_def context_at_def context_address_def KDeque_at_def)

text \<open>A registration moves no context and changes none.\<close>

lemma kept_context:
  assumes kept: "contexts_kept e e'" and ok: "contexts_ok e rules" "r \<in> set rules"
  shows "context_address e' r = context_address e r" "context_at e' (context_address e r) = Some (rCtx r)"
proof -
  have i: "rIndex r < dq_size (m_ContextArena e)" and at: "KDeque_at BlockCapacity (m_ContextArena e) (rIndex r) = Some (rCtx r)"
    using ok by (simp_all add: contexts_ok_def)
  then have same: "KDeque_address BlockCapacity (m_ContextArena e') (rIndex r) = KDeque_address BlockCapacity (m_ContextArena e) (rIndex r)"
      "KDeque_at BlockCapacity (m_ContextArena e') (rIndex r) = Some (rCtx r)"
    using kept by (simp_all add: contexts_kept_def)
  show adr: "context_address e' r = context_address e r"
    by (simp add: context_address_def same(1))
  show "context_at e' (context_address e r) = Some (rCtx r)"
    using same(2) unfolding adr [symmetric]
    by (auto simp: context_at_def context_address_def KDeque_at_def bind_eq_Some_conv)
qed

lemma context_address_inj:
  assumes eok: "engine_ok up csz \<sigma> e rules"
  shows "inj_on (context_address e) (set rules)" "distinct rules"
proof -
  let ?q = "m_ContextArena e"
  have c: "contexts_ok e rules" and q: "dq_ok BlockCapacity csz \<sigma> ?q"
    using eok by (simp_all add: engine_ok_def memory_ok_def)
  have idx: "distinct (map rIndex rules)"
    using c by (simp add: contexts_ok_def strict_sorted_iff)
  then show "distinct rules"
    by (simp add: distinct_map)
  obtain k where B: "BlockCapacity = 2 ^ k"
    using q by (auto simp: dq_ok_def)
  have inj: "inj_on (dq_blocks ?q) (dom (dq_blocks ?q))"
    using q by (simp add: dq_ok_def)
  show "inj_on (context_address e) (set rules)"
  proof (rule inj_onI)
    fix r s
    assume r: "r \<in> set rules" and s: "s \<in> set rules" and eq: "context_address e r = context_address e s"
    obtain b where b: "dq_blocks ?q (rIndex r div BlockCapacity) = Some b"
        "context_address e r = (b, rIndex r mod BlockCapacity)"
      using addresses_ok [OF c r] by (auto simp: context_address_def address_div [OF B])
    obtain d where d: "dq_blocks ?q (rIndex s div BlockCapacity) = Some d"
        "context_address e s = (d, rIndex s mod BlockCapacity)"
      using addresses_ok [OF c s] by (auto simp: context_address_def address_div [OF B])
    have "b = d" "rIndex r mod BlockCapacity = rIndex s mod BlockCapacity"
      using eq b(2) d(2) by simp_all
    moreover have "rIndex r div BlockCapacity = rIndex s div BlockCapacity"
      using inj_onD [OF inj, of "rIndex r div BlockCapacity" "rIndex s div BlockCapacity"] b(1) d(1) \<open>b = d\<close>
      by (simp add: domI)
    ultimately have "rIndex r = rIndex s"
      by (metis div_mult_mod_eq)
    then show "r = s"
      using idx r s unfolding distinct_map by (auto dest: inj_onD)
  qed
qed

section \<open>Searching\<close>

abbreviation matching :: "('c::len word \<Rightarrow> 'c word) \<Rightarrow> ('c word, 'ctx) engine \<Rightarrow> 'c word list \<Rightarrow> ('c word, 'ctx) rule list \<Rightarrow>
    ('c word, 'ctx) rule list" where
  "matching up e text rules \<equiv> filter (rule_matches up (m_bCaseInsensitive e) text) rules"

lemma mset_hits_matching:
  "engine_ok up csz \<sigma> e rules \<Longrightarrow> mset (hits up e text rules) = mset (matching up e text rules)"
  by (rule mset_hits) (simp add: engine_ok_def)

lemma set_hits: "engine_ok up csz \<sigma> e rules \<Longrightarrow> set (hits up e text rules) = set (matching up e text rules)"
  using mset_hits_matching by (metis set_mset_mset)

lemma passed_not_null: "passed s n = Some b \<Longrightarrow> \<not> (s = None \<and> 0 < n)"
  by (auto simp: passed_def split: option.splits if_splits)

lemma Search_first_eq:
  fixes e :: "('c::len word, 'ctx) engine"
  assumes t: "text_ok up (m_bCaseInsensitive e) text" and ok: "engine_ok up csz \<sigma> e rules"
    and p: "passed sText cch = Some text"
  shows "Search_first up e sText cch False =
    Some (case hits up e text rules of [] \<Rightarrow> (False, None) | r # _ \<Rightarrow> (True, Some (context_address e r)))"
proof -
  have "feed first_collector None (map (context_address e) rs) =
      (case rs of [] \<Rightarrow> (False, None) | r # _ \<Rightarrow> (True, Some (context_address e r)))" for rs :: "('c word, 'ctx) rule list"
    by (cases rs) (simp_all add: first_collector_def)
  then show ?thesis
    unfolding Search_first_def if_not_P [OF passed_not_null [OF p]] p
    by (simp add: SearchInternal_eq [OF t ok])
qed

theorem Search_first_spec:
  fixes e :: "('c::len word, 'ctx) engine"
  assumes t: "text_ok up (m_bCaseInsensitive e) text" and ok: "engine_ok up csz \<sigma> e rules"
    and p: "passed sText cch = Some text"
  obtains (miss) "Search_first up e sText cch False = Some (False, None)" "matching up e text rules = []"
  | (hit) r where "Search_first up e sText cch False = Some (True, Some (context_address e r))"
      "r \<in> set (matching up e text rules)" "context_at e (context_address e r) = Some (rCtx r)"
proof (cases "hits up e text rules")
  case Nil
  then have "mset (matching up e text rules) = {#}"
    using mset_hits_matching [OF ok, of "text"] by simp
  then show ?thesis
    using Nil Search_first_eq [OF t ok p] by (intro miss) simp_all
next
  case (Cons r rs)
  then have r: "r \<in> set (matching up e text rules)"
    using set_hits [OF ok, of "text"] by auto
  then show ?thesis
    using Cons Search_first_eq [OF t ok p] context_at_address [of e rules r] ok
    by (intro hit [of r]) (simp_all add: engine_ok_def)
qed

text \<open>The collector of the other search is \<open>append_list\<close> on the result vector.\<close>

lemma feed_all_collector:
  assumes "append_list (KVector_PushBack sizeof_pointer) \<sigma> v ps = (r, v', \<sigma>')"
  shows "feed all_collector (v, \<sigma>, STATUS_SUCCESS) ps = (\<not> NT_SUCCESS r, (v', \<sigma>', r))"
  using assms
proof (induction ps arbitrary: \<sigma> v)
  case Nil
  then show ?case by simp
next
  case (Cons p ps)
  obtain r1 v1 \<sigma>1 where pb: "KVector_PushBack sizeof_pointer \<sigma> v p = (r1, v1, \<sigma>1)"
    by (cases "KVector_PushBack sizeof_pointer \<sigma> v p")
  show ?case
    using Cons vector.append_status [OF pb] by (cases "NT_SUCCESS r1") (auto simp: pb all_collector_def)
qed

theorem Search_all_spec:
  fixes e :: "('c::len word, 'ctx) engine"
  assumes t: "text_ok up (m_bCaseInsensitive e) text" and ok: "engine_ok up csz \<sigma> e rules"
    and p: "passed sText cch = Some text" and sys: "sys_ok \<sigma>" and v: "kv_ok sizeof_pointer \<sigma> v"
  obtains st v' \<sigma>' where "Search_all up \<sigma> e sText cch v = Some (st, v', \<sigma>')"
    "kv_ok sizeof_pointer \<sigma>' v'" "owns_step \<sigma> (kv_owned v) \<sigma>' (kv_owned v')"
    "st = STATUS_SUCCESS \<and> mset (kv_elems v') = mset (map (context_address e) (matching up e text rules)) \<or>
     \<not> NT_SUCCESS st \<and> \<not> generous \<sigma> \<and>
       mset (kv_elems v') \<subset># mset (map (context_address e) (matching up e text rules))"
proof -
  let ?ps = "map (context_address e) (hits up e text rules)" and ?v = "KVector_Clear v"
  obtain st v' \<sigma>' where al: "append_list (KVector_PushBack sizeof_pointer) \<sigma> ?v ?ps = (st, v', \<sigma>')"
    by (cases "append_list (KVector_PushBack sizeof_pointer) \<sigma> ?v ?ps")
  have run: "Search_all up \<sigma> e sText cch v = Some (st, v', \<sigma>')"
    unfolding Search_all_def Let_def if_not_P [OF passed_not_null [OF p]] p
    by (simp add: SearchInternal_eq [OF t ok] feed_all_collector [OF al])
  have vc: "kv_ok sizeof_pointer \<sigma> ?v"
    by (rule KVector_Clear_spec(1) [OF v])
  obtain k where sp: "kv_ok sizeof_pointer \<sigma>' v'" "owns_step \<sigma> (kv_owned ?v) \<sigma>' (kv_owned v')"
      "kv_elems v' = take k ?ps" "if NT_SUCCESS st then st = STATUS_SUCCESS \<and> k = length ?ps else k < length ?ps"
    using vector.append_list_spec [OF sys vc al] by (auto simp: KVector_Clear_spec(2))
  have "length (hits up e text rules) \<le> length rules"
    using mset_eq_length [OF mset_hits_matching [OF ok, of "text"]] by (metis length_filter_le)
  moreover have "length rules \<le> kMaxPatterns"
    using ok by (simp add: engine_ok_def contexts_ok_def)
  ultimately have "length (kv_elems ?v) + length ?ps \<le> 2 ^ 40"
    by (simp add: KVector_Clear_spec(2) kMaxPatterns_def)
  then have room: "NT_SUCCESS st" if "generous \<sigma>"
    using vector_room.append_list_room [OF sys that _ _ al] vc by (simp add: sizeof_pointer_def)
  have all: "mset ?ps = mset (map (context_address e) (matching up e text rules))"
    using mset_hits_matching [OF ok, of "text"] by (metis mset_map)
  have "mset (take k ?ps) \<subset># mset ?ps" if "k < length ?ps"
  proof -
    have "mset ?ps = mset (take k ?ps) + mset (drop k ?ps)"
      by (metis append_take_drop_id mset_append)
    moreover have "mset (drop k ?ps) \<noteq> {#}"
      using that by simp
    ultimately show ?thesis
      by (metis mset_subset_eq_add_left subset_mset.dual_order.not_eq_order_implies_strict add_cancel_right_right)
  qed
  then show ?thesis
    using sp all by (intro that [OF run sp(1)]) (use room in \<open>auto simp: KVector_Clear_spec(3) split: if_splits\<close>)
qed

text \<open>The engine is not changed by either search, and a search that pushes results elsewhere keeps it.\<close>

lemma engine_ok_frame:
  assumes ok: "engine_ok up csz \<sigma> e rules" "sys_ok \<sigma>" and st: "owns_step \<sigma> A \<sigma>' A'" and dis: "A \<inter> engine_owned e = {}"
  shows "engine_ok up csz \<sigma>' e rules" "A' \<inter> engine_owned e = {}"
proof -
  have mem: "memory_ok csz \<sigma> e"
    using ok(1) by (simp add: engine_ok_def)
  note fr = owns_step_frame [OF st ok(2) engine_owned_live [OF mem] dis]
  show "A' \<inter> engine_owned e = {}"
    by (rule fr(2))
  have "part_ok csz \<sigma>' e i" if "i < 5" for i
  proof (rule part_ok_frame [OF _ that])
    show "part_ok csz \<sigma> e i"
      using mem that by (simp add: memory_parts)
    have "part_owned e ! i \<in> set (part_owned e)"
      using that by (intro nth_mem) (simp add: part_owned_def)
    then show "\<forall>b \<in> part_owned e ! i. live \<sigma>' b = live \<sigma> b"
      using fr(3) unfolding engine_owned_def by blast
  qed
  then show "engine_ok up csz \<sigma>' e rules"
    using ok(1) mem by (simp add: engine_ok_def memory_parts)
qed

end
