(* ===== verification/EngineMachine.thy ===== *)
theory EngineMachine
  imports EngineSpec
begin

text \<open>
  The engine over its lifetime: the requests a client makes as a step relation, the
  specification it implements (a list of patterns with their contexts), and what holds of
  every state that requests lead to.
\<close>

section \<open>Requests\<close>

datatype ('tchar, 'ctx) request =
    Register "'tchar list option" nat wild_card_scope 'ctx ntstatus
  | Reset

text \<open>
  A caller passes a pointer to at least as many characters as it says (the \<open>_In_reads_\<close>
  annotation), or the null pointer. The last argument of \<open>Register\<close> is the status returned.
\<close>

definition caller_ok :: "'a list option \<Rightarrow> nat \<Rightarrow> bool" where
  "caller_ok s n \<longleftrightarrow> n < 2 ^ 32 \<and> (case s of None \<Rightarrow> True | Some b \<Rightarrow> n \<le> length b)"

inductive engine_step ::
  "('c::len word \<Rightarrow> 'c word) \<Rightarrow> nat \<Rightarrow> ('c word, 'ctx) request \<Rightarrow> sys \<times> ('c word, 'ctx) engine \<Rightarrow>
     sys \<times> ('c word, 'ctx) engine \<Rightarrow> bool" for up csz where
  step_register: "AddPattern up csz \<sigma> e s n scope ctx = Some (st, e', \<sigma>') \<Longrightarrow> caller_ok s n \<Longrightarrow>
    engine_step up csz (Register s n scope ctx st) (\<sigma>, e) (\<sigma>', e')"
| step_reset: "engine_Clear \<sigma> e = Some (e', \<sigma>') \<Longrightarrow> engine_step up csz Reset (\<sigma>, e) (\<sigma>', e')"

inductive_cases engine_step_cases: "engine_step up csz l (\<sigma>, e) (\<sigma>', e')"

inductive engine_run ::
  "('c::len word \<Rightarrow> 'c word) \<Rightarrow> nat \<Rightarrow> ('c word, 'ctx) request list \<Rightarrow> sys \<times> ('c word, 'ctx) engine \<Rightarrow>
     sys \<times> ('c word, 'ctx) engine \<Rightarrow> bool" for up csz where
  run_done: "engine_run up csz [] s s"
| run_more: "engine_run up csz ls s s' \<Longrightarrow> engine_step up csz l s' s'' \<Longrightarrow> engine_run up csz (ls @ [l]) s s''"

section \<open>The specification\<close>

type_synonym ('tchar, 'ctx) spec_rule = "'tchar list \<times> wild_card_scope \<times> 'ctx"

inductive spec_step ::
  "('tchar, 'ctx) request \<Rightarrow> ('tchar, 'ctx) spec_rule list \<Rightarrow> ('tchar, 'ctx) spec_rule list \<Rightarrow> bool" where
  accept: "passed s n = Some pat \<Longrightarrow> spec_step (Register s n scope ctx STATUS_SUCCESS) rs (rs @ [(pat, scope, ctx)])"
| refuse: "\<not> NT_SUCCESS st \<Longrightarrow> spec_step (Register s n scope ctx st) rs rs"
| reset: "spec_step Reset rs []"

inductive spec_run ::
  "('tchar, 'ctx) request list \<Rightarrow> ('tchar, 'ctx) spec_rule list \<Rightarrow> ('tchar, 'ctx) spec_rule list \<Rightarrow> bool" where
  spec_done: "spec_run [] rs rs"
| spec_more: "spec_run ls rs rs' \<Longrightarrow> spec_step l rs' rs'' \<Longrightarrow> spec_run (ls @ [l]) rs rs''"

inductive_simps spec_step_register: "spec_step (Register s n scope ctx st) rs rs'"
inductive_simps spec_step_reset: "spec_step Reset rs rs'"

definition core :: "('tchar, 'ctx) rule \<Rightarrow> ('tchar, 'ctx) spec_rule" where
  "core r = (rPat r, rScope r, rCtx r)"

definition spec_matches :: "('c::len word \<Rightarrow> 'c word) \<Rightarrow> bool \<Rightarrow> 'c word list \<Rightarrow> ('c word, 'ctx) spec_rule \<Rightarrow> bool" where
  "spec_matches up ci str = (\<lambda>(pat, scope, ctx). pattern_matches up ci scope pat str)"

lemma spec_matches_core: "spec_matches up ci str (core r) \<longleftrightarrow> rule_matches up ci str r"
  by (simp add: spec_matches_def core_def rule_matches_def)

section \<open>Simulation\<close>

lemma caller_passed: "caller_ok s n \<Longrightarrow> (\<exists>pat. passed s n = Some pat) \<or> s = None \<and> 0 < n"
  by (cases s) (auto simp: caller_ok_def passed_def slice_def)

theorem engine_step_simulates:
  fixes e :: "('c::len word, 'ctx) engine"
  assumes ok: "tchar_ok TYPE('c)" "case_table_ok up (m_bCaseInsensitive e)"
    and sys: "sys_ok \<sigma>" and eok: "engine_ok up csz \<sigma> e rules"
    and st: "engine_step up csz l (\<sigma>, e) (\<sigma>', e')"
  obtains rules' where "engine_ok up csz \<sigma>' e' rules'" "spec_step l (map core rules) (map core rules')"
    "owns_step \<sigma> (engine_owned e) \<sigma>' (engine_owned e')" "m_bCaseInsensitive e' = m_bCaseInsensitive e"
proof -
  consider (register) s n scope ctx st where "l = Register s n scope ctx st"
      "AddPattern up csz \<sigma> e s n scope ctx = Some (st, e', \<sigma>')" "caller_ok s n"
    | (reset) "l = Reset" "engine_Clear \<sigma> e = Some (e', \<sigma>')"
    using st by (auto elim: engine_step_cases)
  then show thesis
  proof cases
  case 1: (register s n scope ctx st)
  show thesis
  proof (cases "\<exists>pat. passed s n = Some pat")
    case True
    then obtain pat where pat: "passed s n = Some pat"
      by blast
    have n: "n < 2 ^ 32"
      using 1 by (simp add: caller_ok_def)
    let ?r = "next_rule e rules pat scope ctx"
    have out: "owns_step \<sigma> (engine_owned e) \<sigma>' (engine_owned e')" "m_bCaseInsensitive e' = m_bCaseInsensitive e"
        "st = STATUS_SUCCESS \<and> engine_ok up csz \<sigma>' e' (rules @ [?r]) \<or> \<not> NT_SUCCESS st \<and> engine_ok up csz \<sigma>' e' rules"
      using AddPattern_spec [OF ok sys eok pat n, of scope ctx] 1 by (auto simp: add_outcome_def)
    from out(3) show thesis
    proof
      assume a: "st = STATUS_SUCCESS \<and> engine_ok up csz \<sigma>' e' (rules @ [?r])"
      have "spec_step (Register s n scope ctx STATUS_SUCCESS) (map core rules) (map core rules @ [(pat, scope, ctx)])"
        by (rule accept [OF pat])
      then show thesis
        using a 1 out(1,2) by (intro that [of "rules @ [?r]"]) (simp_all add: core_def next_rule_def)
    next
      assume a: "\<not> NT_SUCCESS st \<and> engine_ok up csz \<sigma>' e' rules"
      then show thesis
        using 1 out(1,2) by (intro that [of rules]) (simp_all add: refuse)
    qed
  next
    case False
    then have "s = None" "0 < n"
      using caller_passed [of s n] 1 by auto
    then have "st = STATUS_INVALID_PARAMETER" "e' = e" "\<sigma>' = \<sigma>"
      using 1 by (simp_all add: AddPattern_null)
    moreover have "memory_ok csz \<sigma> e"
      using eok by (simp add: engine_ok_def)
    ultimately show thesis
      using 1 eok owns_step_refl [OF sys engine_owned_live] by (intro that [of rules]) (simp_all add: refuse)
  qed
next
  case reset
  obtain e1 \<sigma>1 where "engine_Clear \<sigma> e = Some (e1, \<sigma>1)" "engine_ok up csz \<sigma>1 e1 []"
      "owns_step \<sigma> (engine_owned e) \<sigma>1 (engine_owned e1)" "m_bCaseInsensitive e1 = m_bCaseInsensitive e"
    using engine_Clear_spec [OF sys eok] by blast
  then show thesis
    using reset by (intro that [of "[]"]) (simp_all add: spec_step_reset)
qed
qed

text \<open>Every state that requests lead to from a new engine.\<close>

theorem engine_run_simulates:
  fixes e :: "('c::len word, 'ctx) engine"
  assumes ok: "tchar_ok TYPE('c)" "case_table_ok up ci" and sys: "sys_ok \<sigma>0"
    and run: "engine_run up csz ls (\<sigma>0, engine_new ci) (\<sigma>, e)"
  obtains rules where "engine_ok up csz \<sigma> e rules" "spec_run ls [] (map core rules)"
    "owns_step \<sigma>0 {} \<sigma> (engine_owned e)" "m_bCaseInsensitive e = ci"
proof -
  have "\<exists>rules. engine_ok up csz \<sigma> e rules \<and> spec_run ls [] (map core rules) \<and>
      owns_step \<sigma>0 {} \<sigma> (engine_owned e) \<and> m_bCaseInsensitive e = ci"
    using run
  proof (induction ls "(\<sigma>0, engine_new ci :: ('c word, 'ctx) engine)" "(\<sigma>, e)" arbitrary: \<sigma> e)
    case run_done
    have "owns_step \<sigma>0 {} \<sigma>0 {}"
      by (rule owns_step_refl [OF sys]) simp
    moreover have "engine_ok up csz \<sigma>0 (engine_new ci :: ('c word, 'ctx) engine) []"
        "engine_owned (engine_new ci :: ('c word, 'ctx) engine) = {}"
      by (rule engine_new_ok)+
    moreover have "m_bCaseInsensitive (engine_new ci :: ('c word, 'ctx) engine) = ci"
      by (simp add: engine_new_def)
    ultimately show ?case
      by (intro exI [of _ "[]"]) (simp add: spec_done)
  next
    case (run_more ls s' l)
    obtain \<sigma>1 e1 where s': "s' = (\<sigma>1, e1)"
      by (cases s')
    obtain rules where r: "engine_ok up csz \<sigma>1 e1 rules" "spec_run ls [] (map core rules)"
        "owns_step \<sigma>0 {} \<sigma>1 (engine_owned e1)" "m_bCaseInsensitive e1 = ci"
      using run_more(2) [OF s'] by blast
    have ok1: "case_table_ok up (m_bCaseInsensitive e1)"
      using ok(2) r(4) by simp
    obtain rules' where r': "engine_ok up csz \<sigma> e rules'" "spec_step l (map core rules) (map core rules')"
        "owns_step \<sigma>1 (engine_owned e1) \<sigma> (engine_owned e)" "m_bCaseInsensitive e = m_bCaseInsensitive e1"
      using engine_step_simulates [OF ok(1) ok1 owns_step_sys_ok [OF r(3)] r(1)] run_more(3) s' by metis
    then show ?case
      using spec_more [OF r(2) r'(2)] owns_step_trans [OF r(3) r'(3) sys] r(4) by auto
  qed
  then show thesis
    using that by blast
qed

text \<open>No request is left unanswered.\<close>

theorem engine_step_total:
  fixes e :: "('c::len word, 'ctx) engine"
  assumes ok: "tchar_ok TYPE('c)" "case_table_ok up (m_bCaseInsensitive e)"
    and sys: "sys_ok \<sigma>" and eok: "engine_ok up csz \<sigma> e rules"
  shows "caller_ok s n \<Longrightarrow> \<exists>st s'. engine_step up csz (Register s n scope ctx st) (\<sigma>, e) s'"
    and "\<exists>s'. engine_step up csz Reset (\<sigma>, e) s'"
proof -
  show "\<exists>s'. engine_step up csz Reset (\<sigma>, e) s'"
    using engine_Clear_spec [OF sys eok] by (blast intro: step_reset)
  show "\<exists>st s'. engine_step up csz (Register s n scope ctx st) (\<sigma>, e) s'" if c: "caller_ok s n"
  proof -
    have n: "n < 2 ^ 32"
      using c by (simp add: caller_ok_def)
    have "\<exists>st e' \<sigma>'. AddPattern up csz \<sigma> e s n scope ctx = Some (st, e', \<sigma>')"
      using caller_passed [OF c]
    proof
      assume "\<exists>pat. passed s n = Some pat"
      then obtain pat where "passed s n = Some pat" ..
      from AddPattern_spec [OF ok sys eok this n, of scope ctx] show ?thesis
        by (auto simp: add_outcome_def)
    next
      assume "s = None \<and> 0 < n"
      then show ?thesis
        by (simp add: AddPattern_null)
    qed
    then show ?thesis
      by (blast intro: step_register [OF _ c])
  qed
qed

section \<open>End to end\<close>

theorem run_search:
  fixes e :: "('c::len word, 'ctx) engine"
  assumes ok: "tchar_ok TYPE('c)" "case_table_ok up ci" and sys: "sys_ok \<sigma>0"
    and run: "engine_run up csz ls (\<sigma>0, engine_new ci) (\<sigma>, e)"
    and str: "passed sText cch = Some str" "length str < 2 ^ 32"
  obtains rs found p where "spec_run ls [] rs" "Search_first up e sText cch False = Some (found, p)"
    "found \<longleftrightarrow> (\<exists>x \<in> set rs. spec_matches up ci str x)"
    "found \<Longrightarrow> \<exists>x \<in> set rs. spec_matches up ci str x \<and> (\<exists>q. p = Some q \<and> context_at e q = Some (snd (snd x)))"
proof -
  obtain rules where r: "engine_ok up csz \<sigma> e rules" "spec_run ls [] (map core rules)" "m_bCaseInsensitive e = ci"
    using engine_run_simulates [OF ok sys run] by metis
  have t: "text_ok up (m_bCaseInsensitive e) str"
    using ok str(2) r(3) by (simp add: text_ok_def)
  have m: "set (matching up e str rules) = {r \<in> set rules. spec_matches up ci str (core r)}"
    by (simp add: r(3) spec_matches_core)
  show thesis
  proof (cases rule: Search_first_spec [OF t r(1) str(1), case_names miss hit])
    case miss
    have "set (matching up e str rules) = {}"
      using miss(2) by (simp only: list.set)
    then show thesis
      unfolding m using miss(1) by (intro that [OF r(2)]) auto
  next
    case (hit x)
    then have x: "x \<in> set rules" "spec_matches up ci str (core x)"
      using m by blast+
    have "\<exists>y \<in> set (map core rules). spec_matches up ci str y \<and>
        (\<exists>q. Some (context_address e x) = Some q \<and> context_at e q = Some (snd (snd y)))"
      using x hit(3) by (intro bexI [of _ "core x"]) (simp_all add: core_def)
    moreover from this have "True \<longleftrightarrow> (\<exists>y \<in> set (map core rules). spec_matches up ci str y)"
      by blast
    ultimately show thesis
      using that [OF r(2) hit(1)] by blast
  qed
qed

text \<open>A component that owned nothing and owns nothing leaves the pool as it was.\<close>

lemma owns_nothing_live:
  assumes "owns_step \<sigma> {} \<sigma>' {}"
  shows "live \<sigma>' = live \<sigma>"
proof
  fix b
  have "dom (live \<sigma>') = dom (live \<sigma>)" "b \<in> dom (live \<sigma>) \<Longrightarrow> live \<sigma>' b = live \<sigma> b"
    using assms by (simp_all add: owns_step_def)
  then show "live \<sigma>' b = live \<sigma> b"
    by (cases "b \<in> dom (live \<sigma>)") (auto simp: domIff)
qed

text \<open>A destroyed engine has given back every block it took.\<close>

theorem run_destroy:
  fixes e :: "('c::len word, 'ctx) engine"
  assumes ok: "tchar_ok TYPE('c)" "case_table_ok up ci" and sys: "sys_ok \<sigma>0"
    and run: "engine_run up csz ls (\<sigma>0, engine_new ci) (\<sigma>, e)"
  obtains \<sigma>' where "engine_destroy \<sigma> e = Some \<sigma>'" "live \<sigma>' = live \<sigma>0" "\<not> bug_check \<sigma>'"
proof -
  obtain rules where r: "engine_ok up csz \<sigma> e rules" "owns_step \<sigma>0 {} \<sigma> (engine_owned e)"
    using engine_run_simulates [OF ok sys run] by metis
  then have mem: "memory_ok csz \<sigma> e"
    by (simp add: engine_ok_def)
  obtain \<sigma>' where d: "engine_destroy \<sigma> e = Some \<sigma>'" "owns_step \<sigma> (engine_owned e) \<sigma>' {}"
    using engine_destroy_spec [OF owns_step_sys_ok [OF r(2)] mem] by blast
  have "owns_step \<sigma>0 {} \<sigma>' {}"
    by (rule owns_step_trans [OF r(2) d(2) sys])
  then have "live \<sigma>' = live \<sigma>0" "sys_ok \<sigma>'"
    by (rule owns_nothing_live, simp add: owns_step_def)
  then show thesis
    using that [OF d(1)] by (simp add: sys_ok_def)
qed

section \<open>When memory suffices\<close>

text \<open>What an engine that has seen \<open>k\<close> requests has taken at most.\<close>

definition usage :: "nat \<Rightarrow> ('tchar, 'ctx) engine \<Rightarrow> bool" where
  "usage k e \<longleftrightarrow>
     dq_size (m_ContextArena e) \<le> k \<and> length (kv_elems (m_LengthVec e)) \<le> k \<and>
     hm_size (m_HashMap e) \<le> k \<and> hm_cap (m_HashMap e) \<le> 32 + 4 * k"

lemma usage_new: "usage k (engine_new ci)"
  by (simp add: usage_def engine_new_def KDeque_new_def)

lemma usage_add: "usage k e \<Longrightarrow> grows_little e e' \<Longrightarrow> usage (Suc k) e'"
  by (auto simp: usage_def grows_little_def takes_little_def max_def split: if_splits)

lemma usage_clear:
  assumes "usage k e" "engine_Clear \<sigma> e = Some (e', \<sigma>')"
  shows "usage (Suc k) e'"
proof -
  obtain m \<sigma>1 where c: "KFlatHashMap_Clear bucket_ops \<sigma> (m_HashMap e) = Some (m, \<sigma>1)" "m_HashMap e' = m"
    and e': "dq_size (m_ContextArena e') = 0" "kv_elems (m_LengthVec e') = []"
    using assms(2) by (auto simp: engine_Clear_def bind_eq_Some_conv KDeque_Clear_def Let_def KVector_Clear_def split: prod.splits)
  have "hm_size m = 0 \<and> hm_cap m = hm_cap (m_HashMap e)"
    using c(1) by (auto simp: KFlatHashMap_Clear_def bind_eq_Some_conv split: if_splits)
  then show ?thesis
    using assms(1) e' c(2) by (simp add: usage_def)
qed

lemma usage_roomy: "usage k e \<Longrightarrow> k < kMaxPatterns \<Longrightarrow> generous \<sigma> \<Longrightarrow> roomy \<sigma> e"
  by (simp add: usage_def roomy_def kMaxPatterns_def)

fun well_formed :: "('tchar, 'ctx) request \<Rightarrow> bool" where
  "well_formed (Register s n scope ctx st) \<longleftrightarrow> passed s n \<noteq> None"
| "well_formed Reset \<longleftrightarrow> True"

fun accepted :: "('tchar, 'ctx) request \<Rightarrow> bool" where
  "accepted (Register s n scope ctx st) \<longleftrightarrow> st = STATUS_SUCCESS"
| "accepted Reset \<longleftrightarrow> True"

text \<open>An engine that is granted all memory accepts every pattern of its first \<open>kMaxPatterns\<close> requests.\<close>

theorem run_generous:
  fixes e :: "('c::len word, 'ctx) engine"
  assumes ok: "tchar_ok TYPE('c)" "case_table_ok up ci" and sys: "sys_ok \<sigma>0" "generous \<sigma>0"
    and run: "engine_run up csz ls (\<sigma>0, engine_new ci) (\<sigma>, e)"
    and ls: "length ls \<le> kMaxPatterns" "\<forall>l \<in> set ls. well_formed l"
  shows "(\<forall>l \<in> set ls. accepted l) \<and> usage (length ls) e"
  using run ls
proof (induction ls "(\<sigma>0, engine_new ci :: ('c word, 'ctx) engine)" "(\<sigma>, e)" arbitrary: \<sigma> e)
  case run_done
  then show ?case
    by (simp add: usage_new)
next
  case (run_more ls s' l)
  obtain \<sigma>1 e1 where s': "s' = (\<sigma>1, e1)"
    by (cases s')
  have prev: "\<forall>l \<in> set ls. accepted l" "usage (length ls) e1"
    using run_more(2) [OF s'] run_more.prems by simp_all
  obtain rules where r: "engine_ok up csz \<sigma>1 e1 rules" "owns_step \<sigma>0 {} \<sigma>1 (engine_owned e1)" "m_bCaseInsensitive e1 = ci"
    using engine_run_simulates [OF ok sys(1) run_more(1) [unfolded s']] by metis
  have room: "roomy \<sigma>1 e1"
    using usage_roomy [OF prev(2)] generous_step [OF r(2)] sys(2) run_more.prems(1) by simp
  have step: "engine_step up csz l (\<sigma>1, e1) (\<sigma>, e)"
    using run_more(3) s' by simp
  have "accepted l \<and> usage (Suc (length ls)) e"
  proof (cases l)
    case (Register s n scope ctx st)
    then have add: "AddPattern up csz \<sigma>1 e1 s n scope ctx = Some (st, e, \<sigma>)" "n < 2 ^ 32"
      using step by (auto elim: engine_step_cases simp: caller_ok_def)
    obtain pat where pat: "passed s n = Some pat"
      using run_more.prems(2) Register by auto
    have ci: "case_table_ok up (m_bCaseInsensitive e1)"
      using ok(2) r(3) by simp
    have "st = STATUS_SUCCESS" "grows_little e1 e"
      using AddPattern_spec [OF ok(1) ci owns_step_sys_ok [OF r(2)] r(1) pat add(2), of scope ctx] add(1) room
      by (simp_all add: add_outcome_def)
    then show ?thesis
      using usage_add [OF prev(2)] Register by simp
  next
    case Reset
    then have "engine_Clear \<sigma>1 e1 = Some (e, \<sigma>)"
      using step by (auto elim: engine_step_cases)
    then show ?thesis
      using usage_clear [OF prev(2)] Reset by simp
  qed
  then show ?case
    using prev(1) by simp
qed

end
