(* ===== verification/EngineTests.thy ===== *)
theory EngineTests
  imports EngineMachine
begin

text \<open>
  The correctness tests of the engine, KmStringPatternTest.h: each runner with its local engine
  and result vector. A test is a program over the operations of the engine; the theorems say that
  it returns, gives back what it took, and which answer it gives.
\<close>

section \<open>Contexts and texts\<close>

record pattern_context =
  ulPatternId :: "32 word"

definition sizeof_PatternContext :: nat where "sizeof_PatternContext = 4"

text \<open>\<open>strlen\<close> and \<open>wcslen\<close>: a buffer without a terminator is read past its end.\<close>

fun KStringLength :: "'c::len word list \<Rightarrow> nat option" where
  "KStringLength [] = None"
| "KStringLength (c # s) = (if c = 0 then Some 0 else map_option Suc (KStringLength s))"

text \<open>A string literal of either character type, \<open>L"..."\<close> or \<open>"..."\<close>.\<close>

definition widen :: "string \<Rightarrow> 'c::len word list" where
  "widen s = map of_char s"

definition STR_literal :: "string \<Rightarrow> 'c::len word list" where
  "STR_literal s = widen s @ [0]"

section \<open>The runners\<close>

text \<open>
  The registrations of a runner, in order; the first one that fails makes the runner return. A
  runner that returns destroys its engine.
\<close>

type_synonym 'c registration = "'c word list \<times> wild_card_scope \<times> 32 word"

fun AddAll ::
  "('c::len word \<Rightarrow> 'c word) \<Rightarrow> sys \<Rightarrow> ('c word, pattern_context) engine \<Rightarrow> 'c registration list \<Rightarrow>
     (bool \<times> ('c word, pattern_context) engine \<times> sys) option" where
  "AddAll up \<sigma> Spm [] = Some (True, Spm, \<sigma>)"
| "AddAll up \<sigma> Spm ((psPattern, ucScope, k) # ps) =
     do {
       n \<leftarrow> KStringLength psPattern;
       (status, Spm, \<sigma>) \<leftarrow> AddPattern up sizeof_PatternContext \<sigma> Spm (Some psPattern) (trunc32 n) ucScope \<lparr>ulPatternId = k\<rparr>;
       if \<not> NT_SUCCESS status then Some (False, Spm, \<sigma>) else AddAll up \<sigma> Spm ps
     }"

definition leave :: "sys \<Rightarrow> ('c::len word, pattern_context) engine \<Rightarrow> bool \<Rightarrow> (bool \<times> sys) option" where
  "leave \<sigma> Spm b = do { \<sigma> \<leftarrow> engine_destroy \<sigma> Spm; Some (b, \<sigma>) }"

text \<open>The two searches on a literal, the first one into a new vector.\<close>

definition find_all ::
  "('c::len word \<Rightarrow> 'c word) \<Rightarrow> sys \<Rightarrow> ('c word, pattern_context) engine \<Rightarrow> 'c word list \<Rightarrow>
     (ntstatus \<times> (nat \<times> nat) kvector \<times> sys) option" where
  "find_all up \<sigma> Spm psText =
     do { n \<leftarrow> KStringLength psText; Search_all up \<sigma> Spm (Some psText) (trunc32 n) KVector_new }"

definition find_first ::
  "('c::len word \<Rightarrow> 'c word) \<Rightarrow> ('c word, pattern_context) engine \<Rightarrow> 'c word list \<Rightarrow>
     (bool \<times> (nat \<times> nat) option) option" where
  "find_first up Spm psText =
     do { n \<leftarrow> KStringLength psText; Search_first up Spm (Some psText) (trunc32 n) False }"

text \<open>\<open>bAbort\<close> is what the read of \<open>g_lAbortTests\<close> returns.\<close>

definition RunSingleCorrectnessTest ::
  "('c::len word \<Rightarrow> 'c word) \<Rightarrow> bool \<Rightarrow> sys \<Rightarrow> 'c word list \<Rightarrow> 'c word list \<Rightarrow> wild_card_scope \<Rightarrow> bool \<Rightarrow> bool \<Rightarrow>
     (bool \<times> sys) option" where
  "RunSingleCorrectnessTest up bAbort \<sigma> psText psPattern ucScope bShouldMatch bCaseInsensitive =
     (if bAbort then Some (False, \<sigma>)
      else do {
        (added, Spm, \<sigma>) \<leftarrow> AddAll up \<sigma> (engine_new bCaseInsensitive) [(psPattern, ucScope, 100)];
        if \<not> added then leave \<sigma> Spm False
        else do {
          (status, matchedCtxAll, \<sigma>) \<leftarrow> find_all up \<sigma> Spm psText;
          let bMatchedAll = (NT_SUCCESS status \<and> KVector_Size matchedCtxAll > 0)
          in do {
            (bMatchedFirst, _) \<leftarrow> find_first up Spm psText;
            leave (KVector_destroy \<sigma> matchedCtxAll) Spm (bMatchedAll = bShouldMatch \<and> bMatchedFirst = bShouldMatch)
          }
        }
      })"

definition RunMultiPatternCorrectnessTest ::
  "('c::len word \<Rightarrow> 'c word) \<Rightarrow> sys \<Rightarrow> 'c word list \<Rightarrow> 'c word list \<Rightarrow> 'c word list \<Rightarrow> bool \<Rightarrow> (bool \<times> sys) option" where
  "RunMultiPatternCorrectnessTest up \<sigma> psPattern1 psPattern2 psText bCaseInsensitive =
     do {
       (added, Spm, \<sigma>) \<leftarrow> AddAll up \<sigma> (engine_new bCaseInsensitive)
         [(psPattern1, SCOPE_DEFAULT, 1), (psPattern2, SCOPE_DEFAULT, 2)];
       if \<not> added then leave \<sigma> Spm False
       else do {
         (status, results, \<sigma>) \<leftarrow> find_all up \<sigma> Spm psText;
         let bAll = (NT_SUCCESS status \<and> KVector_Size results > 0)
         in do {
           (bFirst, pFirstRes) \<leftarrow> find_first up Spm psText;
           bPassed \<leftarrow> (if bAll \<and> KVector_Size results = 2 \<and> bFirst then
               (case pFirstRes of None \<Rightarrow> Some False
                | Some p \<Rightarrow> do { c \<leftarrow> context_at Spm p; Some (ulPatternId c = 1 \<or> ulPatternId c = 2) })
             else Some False);
           leave (KVector_destroy \<sigma> results) Spm bPassed
         }
       }
     }"

text \<open>The loop over the results that looks for the identifiers 10, 20 and 40.\<close>

fun has_ids ::
  "('c, pattern_context) engine \<Rightarrow> (nat \<times> nat) list \<Rightarrow> bool \<times> bool \<times> bool \<Rightarrow> (bool \<times> bool \<times> bool) option" where
  "has_ids Spm [] has = Some has"
| "has_ids Spm (p # ps) (bHas1, bHas2, bHas4) =
     do {
       c \<leftarrow> context_at Spm p;
       has_ids Spm ps (ulPatternId c = 10 \<or> bHas1, ulPatternId c = 20 \<or> bHas2, ulPatternId c = 40 \<or> bHas4)
     }"

definition RunMatchAllSeveralPatternsTest ::
  "('c::len word \<Rightarrow> 'c word) \<Rightarrow> sys \<Rightarrow> 'c word list \<Rightarrow> 'c word list \<Rightarrow> 'c word list \<Rightarrow> 'c word list \<Rightarrow> 'c word list \<Rightarrow> bool \<Rightarrow>
     (bool \<times> sys) option" where
  "RunMatchAllSeveralPatternsTest up \<sigma> pat1 pat2 pat3 pat4 psText bCaseInsensitive =
     do {
       (added, Spm, \<sigma>) \<leftarrow> AddAll up \<sigma> (engine_new bCaseInsensitive)
         [(pat1, SCOPE_DEFAULT, 10), (pat2, SCOPE_DEFAULT, 20), (pat3, SCOPE_DEFAULT, 30), (pat4, SCOPE_DEFAULT, 40)];
       if \<not> added then leave \<sigma> Spm False
       else do {
         (status, results, \<sigma>) \<leftarrow> find_all up \<sigma> Spm psText;
         let bAll = (NT_SUCCESS status \<and> KVector_Size results > 0)
         in do {
           bPassed \<leftarrow> (if bAll \<and> KVector_Size results = 3 then
               do { (bHas1, bHas2, bHas4) \<leftarrow> has_ids Spm (kv_elems results) (False, False, False);
                    Some (bHas1 \<and> bHas2 \<and> bHas4) }
             else Some False);
           leave (KVector_destroy \<sigma> results) Spm bPassed
         }
       }
     }"

definition RunEmptyEngineTest ::
  "('c::len word \<Rightarrow> 'c word) \<Rightarrow> sys \<Rightarrow> 'c word list \<Rightarrow> bool \<Rightarrow> (bool \<times> sys) option" where
  "RunEmptyEngineTest up \<sigma> psText bCaseInsensitive =
     (let Spm = engine_new bCaseInsensitive
      in do { (bMatchedFirst, _) \<leftarrow> find_first up Spm psText; leave \<sigma> Spm (\<not> bMatchedFirst) })"

definition RunClearLifecycleTest ::
  "('c::len word \<Rightarrow> 'c word) \<Rightarrow> sys \<Rightarrow> 'c word list \<Rightarrow> 'c word list \<Rightarrow> bool \<Rightarrow> (bool \<times> sys) option" where
  "RunClearLifecycleTest up \<sigma> psPattern psText bCaseInsensitive =
     do {
       (added, Spm, \<sigma>) \<leftarrow> AddAll up \<sigma> (engine_new bCaseInsensitive) [(psPattern, SCOPE_DEFAULT, 100)];
       if \<not> added then leave \<sigma> Spm False
       else do {
         (found, _) \<leftarrow> find_first up Spm psText;
         if \<not> found then leave \<sigma> Spm False
         else do {
           (Spm, \<sigma>) \<leftarrow> engine_Clear \<sigma> Spm;
           (ghost, _) \<leftarrow> find_first up Spm psText;
           leave \<sigma> Spm (\<not> ghost)
         }
       }
     }"

section \<open>An engine with a client\<close>

text \<open>A buffer with a terminator and no more than 32 bits of characters before it.\<close>

definition chars :: "'c::len word list \<Rightarrow> 'c word list" where
  "chars s = takeWhile (\<lambda>c. c \<noteq> 0) s"

definition terminated :: "'c::len word list \<Rightarrow> bool" where
  "terminated s \<longleftrightarrow> 0 \<in> set s \<and> length (chars s) < 2 ^ 32"

lemma KStringLength_chars: "0 \<in> set s \<Longrightarrow> KStringLength s = Some (length (chars s))"
  by (induction s) (auto simp: chars_def)

lemma passed_chars: "passed (Some s) (length (chars s)) = Some (chars s)"
  by (simp add: passed_def slice_def chars_def length_takeWhile_le takeWhile_eq_take [symmetric])

lemma literal_arguments:
  assumes "terminated s"
  shows "KStringLength s = Some (length (chars s))" "trunc32 (length (chars s)) = length (chars s)"
    "passed (Some s) (length (chars s)) = Some (chars s)" "length (chars s) < 2 ^ 32"
  using assms by (simp_all add: terminated_def KStringLength_chars passed_chars trunc32_def)

lemma terminated_literal [simp]:
  assumes "0 \<notin> set s" "length s < 2 ^ 32"
  shows "terminated (s @ [0])" "chars (s @ [0]) = s"
proof -
  show c: "chars (s @ [0]) = s"
    using assms(1) unfolding chars_def by (induction s) auto
  show "terminated (s @ [0])"
    using assms(2) by (simp add: terminated_def c)
qed

text \<open>
  The engine of a runner: it holds the rules \<open>rs\<close>, and what it owns is all the runner has taken
  from the pool since the state \<open>\<sigma>0\<close>.
\<close>

type_synonym 'c test_rule = "('c word, pattern_context) spec_rule"

definition session ::
  "('c::len word \<Rightarrow> 'c word) \<Rightarrow> bool \<Rightarrow> sys \<Rightarrow> sys \<Rightarrow> ('c word, pattern_context) engine \<Rightarrow> 'c test_rule list \<Rightarrow> bool" where
  "session up ci \<sigma>0 \<sigma> e rs \<longleftrightarrow>
     (\<exists>rules. engine_ok up sizeof_PatternContext \<sigma> e rules \<and> owns_step \<sigma>0 {} \<sigma> (engine_owned e) \<and>
        m_bCaseInsensitive e = ci \<and> map core rules = rs)"

lemma session_new: "sys_ok \<sigma>0 \<Longrightarrow> session up ci \<sigma>0 \<sigma>0 (engine_new ci) []"
  unfolding session_def
  by (intro exI [of _ "[]"]) (simp add: engine_new_ok owns_step_refl, simp add: engine_new_def)

lemma session_sys: "session up ci \<sigma>0 \<sigma> e rs \<Longrightarrow> sys_ok \<sigma> \<and> generous \<sigma> = generous \<sigma>0"
  unfolding session_def using owns_step_sys_ok generous_step by blast

lemma session_leave:
  assumes "sys_ok \<sigma>0" "session up ci \<sigma>0 \<sigma> e rs"
  obtains \<sigma>' where "leave \<sigma> e b = Some (b, \<sigma>')" "owns_step \<sigma>0 {} \<sigma>' {}"
proof -
  obtain rules where r: "engine_ok up sizeof_PatternContext \<sigma> e rules" "owns_step \<sigma>0 {} \<sigma> (engine_owned e)"
    using assms(2) by (auto simp: session_def)
  then have "memory_ok sizeof_PatternContext \<sigma> e"
    by (simp add: engine_ok_def)
  then obtain \<sigma>' where "engine_destroy \<sigma> e = Some \<sigma>'" "owns_step \<sigma> (engine_owned e) \<sigma>' {}"
    using engine_destroy_spec [OF owns_step_sys_ok [OF r(2)]] by blast
  then show thesis
    using that owns_step_trans [OF r(2) _ assms(1)] by (simp add: leave_def)
qed

definition spec_of :: "'c::len registration \<Rightarrow> 'c test_rule" where
  "spec_of = (\<lambda>(s, scope, k). (chars s, scope, \<lparr>ulPatternId = k\<rparr>))"

lemma session_add:
  fixes e :: "('c::len word, pattern_context) engine"
  assumes ok: "tchar_ok TYPE('c)" "case_table_ok up ci" "sys_ok \<sigma>0"
    and s: "session up ci \<sigma>0 \<sigma> e rs" "usage n e" "n + length ps \<le> kMaxPatterns" "\<forall>p \<in> set ps. terminated (fst p)"
  shows "\<exists>added e' \<sigma>' rs'. AddAll up \<sigma> e ps = Some (added, e', \<sigma>') \<and> session up ci \<sigma>0 \<sigma>' e' rs' \<and>
     (added \<longrightarrow> rs' = rs @ map spec_of ps) \<and> (generous \<sigma>0 \<longrightarrow> added)"
  using s
proof (induction ps arbitrary: \<sigma> e rs n)
  case Nil
  then show ?case by auto
next
  case (Cons p ps)
  obtain s scope k where p: "p = (s, scope, k)"
    by (cases p)
  obtain rules where r: "engine_ok up sizeof_PatternContext \<sigma> e rules" "owns_step \<sigma>0 {} \<sigma> (engine_owned e)"
      "m_bCaseInsensitive e = ci" "map core rules = rs"
    using Cons.prems(1) by (auto simp: session_def)
  have t: "terminated s"
    using Cons.prems(4) p by simp
  note lit = literal_arguments [OF t]
  let ?ctx = "\<lparr>ulPatternId = k\<rparr>"
  let ?r = "next_rule e rules (chars s) scope ?ctx"
  have ci: "case_table_ok up (m_bCaseInsensitive e)"
    using ok(2) r(3) by simp
  obtain st e1 \<sigma>1 where add:
      "AddPattern up sizeof_PatternContext \<sigma> e (Some s) (length (chars s)) scope ?ctx = Some (st, e1, \<sigma>1)"
      "owns_step \<sigma> (engine_owned e) \<sigma>1 (engine_owned e1)" "m_bCaseInsensitive e1 = ci" "grows_little e e1"
      "st = STATUS_SUCCESS \<and> engine_ok up sizeof_PatternContext \<sigma>1 e1 (rules @ [?r]) \<or>
       \<not> NT_SUCCESS st \<and> \<not> roomy \<sigma> e \<and> engine_ok up sizeof_PatternContext \<sigma>1 e1 rules"
    using AddPattern_spec [OF ok(1) ci owns_step_sys_ok [OF r(2)] r(1) lit(3,4), of scope ?ctx] r(3)
    by (auto simp: add_outcome_def)
  have own: "owns_step \<sigma>0 {} \<sigma>1 (engine_owned e1)"
    by (rule owns_step_trans [OF r(2) add(2) ok(3)])
  have run: "AddAll up \<sigma> e (p # ps) = (if NT_SUCCESS st then AddAll up \<sigma>1 e1 ps else Some (False, e1, \<sigma>1))"
    by (simp add: p lit(1,2) add(1))
  show ?case
  proof (cases "NT_SUCCESS st")
    case True
    then have "engine_ok up sizeof_PatternContext \<sigma>1 e1 (rules @ [?r])"
      using add(5) by auto
    moreover have "map core (rules @ [?r]) = rs @ [spec_of p]"
      by (simp add: r(4) p spec_of_def core_def next_rule_def)
    ultimately have "session up ci \<sigma>0 \<sigma>1 e1 (rs @ [spec_of p])"
      unfolding session_def using own add(3) by blast
    from Cons.IH [OF this usage_add [OF Cons.prems(2) add(4)]] show ?thesis
      using Cons.prems(3,4) True by (simp add: run)
  next
    case False
    then have "\<not> roomy \<sigma> e" "engine_ok up sizeof_PatternContext \<sigma>1 e1 rules"
      using add(5) by auto
    moreover have "roomy \<sigma> e" if "generous \<sigma>0"
      using usage_roomy [OF Cons.prems(2)] session_sys [OF Cons.prems(1)] that Cons.prems(3) by simp
    moreover have "session up ci \<sigma>0 \<sigma>1 e1 rs" if "engine_ok up sizeof_PatternContext \<sigma>1 e1 rules"
      unfolding session_def using own add(3) r(4) that by blast
    ultimately show ?thesis
      using False by (auto simp: run)
  qed
qed

text \<open>The searches of a runner.\<close>

abbreviation found_by :: "('c::len word \<Rightarrow> 'c word) \<Rightarrow> bool \<Rightarrow> 'c word list \<Rightarrow> 'c test_rule list \<Rightarrow> 'c test_rule list" where
  "found_by up ci psText rs \<equiv> filter (spec_matches up ci (chars psText)) rs"

lemma map_core_matching:
  "m_bCaseInsensitive e = ci \<Longrightarrow> map core rules = rs \<Longrightarrow> map core (matching up e (chars s) rules) = found_by up ci s rs"
  by (auto simp: filter_map comp_def spec_matches_core)

lemma session_first:
  fixes e :: "('c::len word, pattern_context) engine"
  assumes ok: "tchar_ok TYPE('c)" "case_table_ok up ci"
    and s: "session up ci \<sigma>0 \<sigma> e rs" "terminated psText"
  obtains (miss) "find_first up e psText = Some (False, None)" "found_by up ci psText rs = []"
  | (hit) q r where "find_first up e psText = Some (True, Some q)" "r \<in> set (found_by up ci psText rs)"
      "context_at e q = Some (snd (snd r))"
proof -
  obtain rules where r: "engine_ok up sizeof_PatternContext \<sigma> e rules" "m_bCaseInsensitive e = ci" "map core rules = rs"
    using s(1) by (auto simp: session_def)
  note lit = literal_arguments [OF s(2)]
  have t: "text_ok up (m_bCaseInsensitive e) (chars psText)"
    using ok r(2) lit(4) by (simp add: text_ok_def)
  have run: "find_first up e psText = Search_first up e (Some psText) (length (chars psText)) False"
    by (simp add: find_first_def lit)
  note mc = map_core_matching [OF r(2,3), of up psText]
  show thesis
  proof (cases rule: Search_first_spec [OF t r(1) lit(3), case_names none some])
    case none
    then show ?thesis
      using mc run by (intro miss) simp_all
  next
    case (some x)
    have "core x \<in> set (found_by up ci psText rs)"
      using some(2) unfolding mc [symmetric] by simp
    then show ?thesis
      using some(1,3) run by (intro hit [of _ "core x"]) (simp_all add: core_def)
  qed
qed

lemma session_all:
  fixes e :: "('c::len word, pattern_context) engine"
  assumes ok: "tchar_ok TYPE('c)" "case_table_ok up ci" "sys_ok \<sigma>0"
    and s: "session up ci \<sigma>0 \<sigma> e rs" "terminated psText"
  obtains st v \<sigma>' where "find_all up \<sigma> e psText = Some (st, v, \<sigma>')"
    "session up ci \<sigma>0 (KVector_destroy \<sigma>' v) e rs" "generous \<sigma>0 \<Longrightarrow> NT_SUCCESS st"
    "NT_SUCCESS st \<Longrightarrow>
       mset (map (context_at e) (kv_elems v)) = mset (map (\<lambda>r. Some (snd (snd r))) (found_by up ci psText rs))"
proof -
  obtain rules where r: "engine_ok up sizeof_PatternContext \<sigma> e rules" "owns_step \<sigma>0 {} \<sigma> (engine_owned e)"
      "m_bCaseInsensitive e = ci" "map core rules = rs"
    using s(1) by (auto simp: session_def)
  note lit = literal_arguments [OF s(2)] and sys = owns_step_sys_ok [OF r(2)]
  have t: "text_ok up (m_bCaseInsensitive e) (chars psText)"
    using ok r(3) lit(4) by (simp add: text_ok_def)
  let ?hits = "matching up e (chars psText) rules"
  obtain st v \<sigma>' where run: "Search_all up \<sigma> e (Some psText) (length (chars psText)) KVector_new = Some (st, v, \<sigma>')"
    and v: "kv_ok sizeof_pointer \<sigma>' v" "owns_step \<sigma> {} \<sigma>' (kv_owned v)"
    and out: "st = STATUS_SUCCESS \<and> mset (kv_elems v) = mset (map (context_address e) ?hits) \<or>
       \<not> NT_SUCCESS st \<and> \<not> generous \<sigma>"
    by (rule Search_all_spec [OF t r(1) lit(3) sys kv_ok_new(1)]) (auto simp: kv_ok_new(2))
  have d: "owns_step \<sigma> {} (KVector_destroy \<sigma>' v) {}"
    by (rule owns_step_trans [OF v(2) KVector_destroy_spec [OF owns_step_sys_ok [OF v(2)] v(1)] sys])
  have "engine_owned e \<subseteq> dom (live \<sigma>)"
    by (rule owns_step_owned [OF r(2)])
  then have "owns_step \<sigma> (engine_owned e) (KVector_destroy \<sigma>' v) (engine_owned e)"
    using owns_step_widen [OF d sys, of "engine_owned e"] by simp
  note own = owns_step_trans [OF r(2) this ok(3)]
  have "engine_ok up sizeof_PatternContext (KVector_destroy \<sigma>' v) e rules"
    using engine_ok_frame(1) [OF r(1) sys d] by simp
  then have keep: "session up ci \<sigma>0 (KVector_destroy \<sigma>' v) e rs"
    unfolding session_def using own r(3,4) by blast
  have c: "contexts_ok e rules"
    using r(1) by (simp add: engine_ok_def)
  have ctx: "map (context_at e) (map (context_address e) ?hits) = map (\<lambda>r. Some (snd (snd r))) (found_by up ci psText rs)"
    unfolding map_core_matching [OF r(3,4), symmetric] map_map comp_def
    using context_at_address [OF c] by (intro map_cong) (simp_all add: core_def)
  have "mset (map (context_at e) (kv_elems v)) = mset (map (\<lambda>r. Some (snd (snd r))) (found_by up ci psText rs))"
    if "NT_SUCCESS st"
  proof -
    have "mset (kv_elems v) = mset (map (context_address e) ?hits)"
      using out that by blast
    then have "image_mset (context_at e) (mset (kv_elems v)) = image_mset (context_at e) (mset (map (context_address e) ?hits))"
      by (rule arg_cong)
    then show ?thesis
      using ctx by (metis mset_map)
  qed
  moreover have "NT_SUCCESS st" if "generous \<sigma>0"
    using out that session_sys [OF s(1)] by auto
  ultimately show thesis
    using that [of st v \<sigma>'] keep run by (simp add: find_all_def lit)
qed

section \<open>What the runners answer\<close>

text \<open>
  A test returns and gives back what it took; when the allocator refuses nothing, its answer is
  the one of the specification.
\<close>

definition answers :: "sys \<Rightarrow> bool \<Rightarrow> (bool \<times> sys) option \<Rightarrow> bool" where
  "answers \<sigma> b res \<longleftrightarrow> (\<exists>r \<sigma>'. res = Some (r, \<sigma>') \<and> owns_step \<sigma> {} \<sigma>' {} \<and> (generous \<sigma> \<longrightarrow> r = b))"

lemma leave_answers:
  "sys_ok \<sigma>0 \<Longrightarrow> session up ci \<sigma>0 \<sigma> e rs \<Longrightarrow> (generous \<sigma>0 \<Longrightarrow> r = b) \<Longrightarrow> answers \<sigma>0 b (leave \<sigma> e r)"
  by (rule session_leave [of \<sigma>0 up ci \<sigma> e rs r]) (auto simp: answers_def)

text \<open>After its registrations a runner leaves, or goes on with the rules registered.\<close>

lemma register_answers:
  fixes ps :: "'c::len registration list"
  assumes ok: "tchar_ok TYPE('c)" "case_table_ok up ci" "sys_ok \<sigma>0"
    and ps: "length ps \<le> kMaxPatterns" "\<forall>p \<in> set ps. terminated (fst p)"
    and k: "\<And>\<sigma> e. session up ci \<sigma>0 \<sigma> e (map spec_of ps) \<Longrightarrow> answers \<sigma>0 b (k \<sigma> e)"
  shows "answers \<sigma>0 b
    (AddAll up \<sigma>0 (engine_new ci) ps \<bind> (\<lambda>(added, e, \<sigma>). if \<not> added then leave \<sigma> e False else k \<sigma> e))"
proof -
  obtain added e' \<sigma>' rs' where a: "AddAll up \<sigma>0 (engine_new ci) ps = Some (added, e', \<sigma>')"
      "session up ci \<sigma>0 \<sigma>' e' rs'" "added \<longrightarrow> rs' = map spec_of ps" "generous \<sigma>0 \<longrightarrow> added"
    using session_add [OF ok session_new [OF ok(3)] usage_new [of 0], of ps] ps by auto
  show ?thesis
  proof (cases added)
    case True
    then show ?thesis
      using a k by simp
  next
    case False
    then show ?thesis
      using a(1,4) leave_answers [OF ok(3) a(2)] by simp
  qed
qed

lemma pairs: "spec_matches up ci s (pat, scope, ctx) \<longleftrightarrow> pattern_matches up ci scope pat s"
  by (simp add: spec_matches_def)

theorem single_answers:
  fixes psText psPattern :: "'c::len word list"
  assumes ok: "tchar_ok TYPE('c)" "case_table_ok up ci" "sys_ok \<sigma>0" and s: "terminated psText" "terminated psPattern"
  shows "answers \<sigma>0 (pattern_matches up ci scope (chars psPattern) (chars psText) = bShouldMatch)
    (RunSingleCorrectnessTest up False \<sigma>0 psText psPattern scope bShouldMatch ci)"
  unfolding RunSingleCorrectnessTest_def if_False
proof (rule register_answers [OF ok])
  fix \<sigma> and e :: "('c word, pattern_context) engine"
  let ?rs = "map spec_of [(psPattern, scope, 100)]"
  let ?m = "pattern_matches up ci scope (chars psPattern) (chars psText)"
  assume e: "session up ci \<sigma>0 \<sigma> e ?rs"
  obtain st v \<sigma>1 where all: "find_all up \<sigma> e psText = Some (st, v, \<sigma>1)"
      "session up ci \<sigma>0 (KVector_destroy \<sigma>1 v) e ?rs" "generous \<sigma>0 \<Longrightarrow> NT_SUCCESS st"
      "NT_SUCCESS st \<Longrightarrow> mset (map (context_at e) (kv_elems v)) = mset (map (\<lambda>r. Some (snd (snd r))) (found_by up ci psText ?rs))"
    using session_all [OF ok e s(1)] by blast
  have size: "KVector_Size v = (if ?m then 1 else 0)" if "NT_SUCCESS st"
    using mset_eq_length [OF all(4) [OF that]] by (simp add: KVector_Size_def spec_of_def pairs split: if_splits)
  obtain q where first: "find_first up e psText = Some (?m, q)"
    by (rule session_first [OF ok(1,2) e s(1)]) (auto simp: spec_of_def pairs split: if_splits)
  show "answers \<sigma>0 (?m = bShouldMatch)
    (find_all up \<sigma> e psText \<bind> (\<lambda>(status, matchedCtxAll, \<sigma>).
       let bMatchedAll = NT_SUCCESS status \<and> 0 < KVector_Size matchedCtxAll
       in find_first up e psText \<bind> (\<lambda>(bMatchedFirst, _).
            leave (KVector_destroy \<sigma> matchedCtxAll) e (bMatchedAll = bShouldMatch \<and> bMatchedFirst = bShouldMatch))))"
    using leave_answers [OF ok(3) all(2)] all(1,3) size first by (simp add: Let_def)
qed (simp_all add: s kMaxPatterns_def)

theorem empty_answers:
  fixes psText :: "'c::len word list"
  assumes ok: "tchar_ok TYPE('c)" "case_table_ok up ci" "sys_ok \<sigma>0" and s: "terminated psText"
  shows "answers \<sigma>0 True (RunEmptyEngineTest up \<sigma>0 psText ci)"
proof -
  note e = session_new [OF ok(3), of up ci]
  have "find_first up (engine_new ci) psText = Some (False, None)"
    by (rule session_first [OF ok(1,2) e s]) simp_all
  then show ?thesis
    using leave_answers [OF ok(3) e] by (simp add: RunEmptyEngineTest_def)
qed

lemma session_clear:
  assumes "sys_ok \<sigma>0" "session up ci \<sigma>0 \<sigma> e rs"
  obtains e' \<sigma>' where "engine_Clear \<sigma> e = Some (e', \<sigma>')" "session up ci \<sigma>0 \<sigma>' e' []"
proof -
  obtain rules where r: "engine_ok up sizeof_PatternContext \<sigma> e rules" "owns_step \<sigma>0 {} \<sigma> (engine_owned e)"
      "m_bCaseInsensitive e = ci"
    using assms(2) by (auto simp: session_def)
  then obtain e' \<sigma>' where c: "engine_Clear \<sigma> e = Some (e', \<sigma>')" "engine_ok up sizeof_PatternContext \<sigma>' e' []"
      "owns_step \<sigma> (engine_owned e) \<sigma>' (engine_owned e')" "m_bCaseInsensitive e' = ci"
    using engine_Clear_spec [OF owns_step_sys_ok [OF r(2)] r(1)] by blast
  then have "session up ci \<sigma>0 \<sigma>' e' []"
    using owns_step_trans [OF r(2) c(3) assms(1)] by (auto simp: session_def)
  then show thesis
    using that c(1) by blast
qed

theorem clear_answers:
  fixes psText psPattern :: "'c::len word list"
  assumes ok: "tchar_ok TYPE('c)" "case_table_ok up ci" "sys_ok \<sigma>0" and s: "terminated psText" "terminated psPattern"
  shows "answers \<sigma>0 (pattern_matches up ci SCOPE_DEFAULT (chars psPattern) (chars psText))
    (RunClearLifecycleTest up \<sigma>0 psPattern psText ci)"
  unfolding RunClearLifecycleTest_def
proof (rule register_answers [OF ok])
  fix \<sigma> and e :: "('c word, pattern_context) engine"
  let ?rs = "map spec_of [(psPattern, SCOPE_DEFAULT, 100)]"
  let ?m = "pattern_matches up ci SCOPE_DEFAULT (chars psPattern) (chars psText)"
  assume e: "session up ci \<sigma>0 \<sigma> e ?rs"
  obtain q where first: "find_first up e psText = Some (?m, q)"
    by (rule session_first [OF ok(1,2) e s(1)]) (auto simp: spec_of_def pairs split: if_splits)
  obtain e' \<sigma>' where c: "engine_Clear \<sigma> e = Some (e', \<sigma>')" "session up ci \<sigma>0 \<sigma>' e' []"
    by (rule session_clear [OF ok(3) e])
  have ghost: "find_first up e' psText = Some (False, None)"
    by (rule session_first [OF ok(1,2) c(2) s(1)]) simp_all
  show "answers \<sigma>0 ?m
    (find_first up e psText \<bind> (\<lambda>(found, _). if \<not> found then leave \<sigma> e False
       else engine_Clear \<sigma> e \<bind> (\<lambda>(Spm, \<sigma>). find_first up Spm psText \<bind> (\<lambda>(ghost, _). leave \<sigma> Spm (\<not> ghost)))))"
    using leave_answers [OF ok(3) e] leave_answers [OF ok(3) c(2)] by (simp add: first c(1) ghost)
qed (simp_all add: s kMaxPatterns_def)

theorem multi_answers:
  fixes psText psPattern1 psPattern2 :: "'c::len word list"
  assumes ok: "tchar_ok TYPE('c)" "case_table_ok up ci" "sys_ok \<sigma>0"
    and s: "terminated psText" "terminated psPattern1" "terminated psPattern2"
  defines "m \<equiv> \<lambda>psPattern. pattern_matches up ci SCOPE_DEFAULT (chars psPattern) (chars psText)"
  shows "answers \<sigma>0 (m psPattern1 \<and> m psPattern2) (RunMultiPatternCorrectnessTest up \<sigma>0 psPattern1 psPattern2 psText ci)"
  unfolding RunMultiPatternCorrectnessTest_def
proof (rule register_answers [OF ok])
  fix \<sigma> and e :: "('c word, pattern_context) engine"
  let ?rs = "map spec_of [(psPattern1, SCOPE_DEFAULT, 1), (psPattern2, SCOPE_DEFAULT, 2)]"
  let ?b = "m psPattern1 \<and> m psPattern2"
  assume e: "session up ci \<sigma>0 \<sigma> e ?rs"
  obtain st v \<sigma>1 where all: "find_all up \<sigma> e psText = Some (st, v, \<sigma>1)"
      "session up ci \<sigma>0 (KVector_destroy \<sigma>1 v) e ?rs" "generous \<sigma>0 \<Longrightarrow> NT_SUCCESS st"
      "NT_SUCCESS st \<Longrightarrow> mset (map (context_at e) (kv_elems v)) = mset (map (\<lambda>r. Some (snd (snd r))) (found_by up ci psText ?rs))"
    using session_all [OF ok e s(1)] by blast
  have size: "KVector_Size v = (if m psPattern1 then 1 else 0) + (if m psPattern2 then 1 else 0)" if "NT_SUCCESS st"
    using mset_eq_length [OF all(4) [OF that]] by (simp add: KVector_Size_def spec_of_def pairs m_def split: if_splits)
  obtain found q where first: "find_first up e psText = Some (found, q)" "found = (m psPattern1 \<or> m psPattern2)"
      "found \<Longrightarrow> \<exists>p c. q = Some p \<and> context_at e p = Some c \<and> (ulPatternId c = 1 \<or> ulPatternId c = 2)"
  proof (cases rule: session_first [OF ok(1,2) e s(1), case_names miss hit])
    case miss
    then show thesis
      using that by (simp add: spec_of_def pairs m_def split: if_splits)
  next
    case (hit p r)
    have "ulPatternId (snd (snd r)) = 1 \<or> ulPatternId (snd (snd r)) = 2"
      using hit(2) by (auto simp: spec_of_def split: if_splits)
    moreover have "m psPattern1 \<or> m psPattern2"
      using hit(2) by (auto simp: spec_of_def pairs m_def split: if_splits)
    ultimately show thesis
      using hit(1,3) that by blast
  qed
  have two: "NT_SUCCESS st \<Longrightarrow> (KVector_Size v = 2) = ?b"
    using size by (cases "m psPattern1"; cases "m psPattern2") simp_all
  have verdict: "(if (NT_SUCCESS st \<and> 0 < KVector_Size v) \<and> KVector_Size v = 2 \<and> found then
           (case q of None \<Rightarrow> Some False
            | Some p \<Rightarrow> context_at e p \<bind> (\<lambda>c. Some (ulPatternId c = 1 \<or> ulPatternId c = 2)))
         else Some False) = Some (NT_SUCCESS st \<and> ?b)"
  proof (cases "NT_SUCCESS st \<and> KVector_Size v = 2 \<and> found")
    case True
    then obtain p c where "q = Some p" "context_at e p = Some c" "ulPatternId c = 1 \<or> ulPatternId c = 2"
      using first(3) by blast
    then show ?thesis
      using True two by simp
  next
    case False
    then show ?thesis
      using two first(2) by auto
  qed
  show "answers \<sigma>0 ?b
    (find_all up \<sigma> e psText \<bind> (\<lambda>(status, results, \<sigma>).
       let bAll = NT_SUCCESS status \<and> 0 < KVector_Size results
       in find_first up e psText \<bind> (\<lambda>(bFirst, pFirstRes).
            (if bAll \<and> KVector_Size results = 2 \<and> bFirst then
               (case pFirstRes of None \<Rightarrow> Some False
                | Some p \<Rightarrow> context_at e p \<bind> (\<lambda>c. Some (ulPatternId c = 1 \<or> ulPatternId c = 2)))
             else Some False) \<bind> (\<lambda>bPassed. leave (KVector_destroy \<sigma> results) e bPassed))))"
    unfolding all(1) Let_def bind.bind_lunit prod.case first(1) verdict
    using all(3) by (intro leave_answers [OF ok(3) all(2)]) simp
qed (simp_all add: s kMaxPatterns_def)

lemma has_ids_eq:
  "\<forall>p \<in> set ps. context_at e p \<noteq> None \<Longrightarrow>
     has_ids e ps (a, b, d) =
       Some (a \<or> 10 \<in> ids, b \<or> 20 \<in> ids, d \<or> 40 \<in> ids)"
  if "ids = (\<lambda>p. ulPatternId (the (context_at e p))) ` set ps"
  unfolding that
proof (induction ps arbitrary: a b d)
  case Nil
  then show ?case by simp
next
  case (Cons p ps)
  then obtain c where "context_at e p = Some c"
    by auto
  then show ?case
    using Cons by (simp add: disj_ac)
qed

lemma filter_count: "length (filter P (x # xs)) = of_bool (P x) + length (filter P xs)"
  by simp

lemma filter_image: "k \<in> f ` set (filter P xs) \<longleftrightarrow> (\<exists>x \<in> set xs. P x \<and> f x = k)"
  by auto

theorem several_answers:
  fixes psText pat1 pat2 pat3 pat4 :: "'c::len word list"
  assumes ok: "tchar_ok TYPE('c)" "case_table_ok up ci" "sys_ok \<sigma>0"
    and s: "terminated psText" "terminated pat1" "terminated pat2" "terminated pat3" "terminated pat4"
  defines "m \<equiv> \<lambda>pat. pattern_matches up ci SCOPE_DEFAULT (chars pat) (chars psText)"
  shows "answers \<sigma>0 (m pat1 \<and> m pat2 \<and> \<not> m pat3 \<and> m pat4) (RunMatchAllSeveralPatternsTest up \<sigma>0 pat1 pat2 pat3 pat4 psText ci)"
  unfolding RunMatchAllSeveralPatternsTest_def
proof (rule register_answers [OF ok])
  fix \<sigma> and e :: "('c word, pattern_context) engine"
  let ?rs = "map spec_of [(pat1, SCOPE_DEFAULT, 10), (pat2, SCOPE_DEFAULT, 20), (pat3, SCOPE_DEFAULT, 30), (pat4, SCOPE_DEFAULT, 40)]"
  let ?b = "m pat1 \<and> m pat2 \<and> \<not> m pat3 \<and> m pat4"
  assume e: "session up ci \<sigma>0 \<sigma> e ?rs"
  obtain st v \<sigma>1 where all: "find_all up \<sigma> e psText = Some (st, v, \<sigma>1)"
      "session up ci \<sigma>0 (KVector_destroy \<sigma>1 v) e ?rs" "generous \<sigma>0 \<Longrightarrow> NT_SUCCESS st"
      "NT_SUCCESS st \<Longrightarrow> mset (map (context_at e) (kv_elems v)) = mset (map (\<lambda>r. Some (snd (snd r))) (found_by up ci psText ?rs))"
    using session_all [OF ok e s(1)] by blast
  have size: "KVector_Size v = of_bool (m pat1) + of_bool (m pat2) + of_bool (m pat3) + of_bool (m pat4)" if "NT_SUCCESS st"
    using mset_eq_length [OF all(4) [OF that]]
    by (simp only: KVector_Size_def length_map list.map filter_count spec_of_def prod.case pairs m_def) simp
  let ?ids = "(\<lambda>p. ulPatternId (the (context_at e p))) ` set (kv_elems v)"
  have found: "context_at e ` set (kv_elems v) = (\<lambda>r. Some (snd (snd r))) ` set (found_by up ci psText ?rs)" if "NT_SUCCESS st"
    using arg_cong [OF all(4) [OF that], of set_mset] by (simp only: set_mset_mset set_map)
  have "?ids = (\<lambda>r. ulPatternId (snd (snd r))) ` set (found_by up ci psText ?rs)" if "NT_SUCCESS st"
    using arg_cong [OF found [OF that], of "image (\<lambda>c. ulPatternId (the c))"] by (simp only: image_image option.sel)
  then have "k \<in> ?ids \<longleftrightarrow> (\<exists>r \<in> set ?rs. spec_matches up ci (chars psText) r \<and> ulPatternId (snd (snd r)) = k)"
    if "NT_SUCCESS st" for k
    by (simp only: that filter_image)
  then have ids: "10 \<in> ?ids \<longleftrightarrow> m pat1" "20 \<in> ?ids \<longleftrightarrow> m pat2" "40 \<in> ?ids \<longleftrightarrow> m pat4" if "NT_SUCCESS st"
    by (simp_all add: that spec_of_def pairs m_def)
  have no_fault: "None \<notin> context_at e ` set (kv_elems v)" if "NT_SUCCESS st"
    unfolding found [OF that] by blast
  have "\<forall>p \<in> set (kv_elems v). context_at e p \<noteq> None" if "NT_SUCCESS st"
    using no_fault [OF that] by (metis image_eqI)
  then have loop: "has_ids e (kv_elems v) (False, False, False) = Some (m pat1, m pat2, m pat4)" if "NT_SUCCESS st"
    using has_ids_eq [of ?ids e "kv_elems v" False False False] ids [OF that] that by simp
  have three: "(KVector_Size v = 3 \<and> m pat1 \<and> m pat2 \<and> m pat4) = ?b" if "NT_SUCCESS st"
    using size [OF that] by (cases "m pat1"; cases "m pat2"; cases "m pat3"; cases "m pat4") simp_all
  have verdict: "(if (NT_SUCCESS st \<and> 0 < KVector_Size v) \<and> KVector_Size v = 3 then
           has_ids e (kv_elems v) (False, False, False) \<bind> (\<lambda>(bHas1, bHas2, bHas4). Some (bHas1 \<and> bHas2 \<and> bHas4))
         else Some False) = Some (NT_SUCCESS st \<and> ?b)"
  proof (cases "NT_SUCCESS st \<and> KVector_Size v = 3")
    case True
    then show ?thesis
      using three loop by simp
  next
    case False
    then show ?thesis
      using three by auto
  qed
  show "answers \<sigma>0 ?b
    (find_all up \<sigma> e psText \<bind> (\<lambda>(status, results, \<sigma>).
       let bAll = NT_SUCCESS status \<and> 0 < KVector_Size results
       in (if bAll \<and> KVector_Size results = 3 then
             has_ids e (kv_elems results) (False, False, False) \<bind> (\<lambda>(bHas1, bHas2, bHas4). Some (bHas1 \<and> bHas2 \<and> bHas4))
           else Some False) \<bind> (\<lambda>bPassed. leave (KVector_destroy \<sigma> results) e bPassed)))"
    unfolding all(1) Let_def bind.bind_lunit prod.case verdict
    using all(3) by (intro leave_answers [OF ok(3) all(2)]) simp
qed (simp_all add: s kMaxPatterns_def)

end
