(* ===== verification/ContainerProperties.thy ===== *)
theory ContainerProperties
  imports EngineInv
begin

text \<open>
  What the containers do: the vector, the deque, the string arena and the hash map, each over
  the pool allocator. Every statement says that the operation returns (the option models do not
  fault), keeps the container's invariant, accounts for every pool block, and what it does to
  the contents on success and on failure, and that it does not fail when memory is granted.
\<close>

section \<open>A system for the examples\<close>

definition demo_sys :: sys where
  "demo_sys = \<lparr>grants = (\<lambda>n bytes. True),
     SizeTMult = (\<lambda>a b. if a * b < 2 ^ 64 then Some (a * b) else None),
     SizeTAdd = (\<lambda>a b. if a + b < 2 ^ 64 then Some (a + b) else None),
     requests = 0, live = Map.empty, bug_check = False\<rparr>"

lemma demo_sys_ok [simp]: "sys_ok demo_sys" "generous demo_sys"
  by (simp_all add: demo_sys_def sys_ok_def wdk_arith_def generous_def)

section \<open>The vector\<close>

text \<open>
  C29: \<open>KVector::PushBack\<close> appends the element or, on a failed allocation or an overflow of the
  size, reports it and leaves the vector as it was; the old buffer is freed exactly once.
\<close>

theorem vector_push:
  assumes "sys_ok \<sigma>" "kv_ok sz \<sigma> v"
  shows "\<exists>r v' \<sigma>'. KVector_PushBack sz \<sigma> v x = (r, v', \<sigma>') \<and> kv_ok sz \<sigma>' v' \<and>
     owns_step \<sigma> (kv_owned v) \<sigma>' (kv_owned v') \<and>
     (r = STATUS_SUCCESS \<and> kv_elems v' = kv_elems v @ [x] \<or>
      \<not> NT_SUCCESS r \<and> v' = v \<and> \<not> (affords \<sigma> \<and> sz \<le> 2 ^ 16 \<and> length (kv_elems v) < 2 ^ 40))"
proof -
  obtain r v' \<sigma>' where pb: "KVector_PushBack sz \<sigma> v x = (r, v', \<sigma>')"
    by (cases "KVector_PushBack sz \<sigma> v x")
  show ?thesis
    using PushBack_spec [OF assms pb] PushBack_room [OF assms(1) _ assms(2) _ _ pb] pb by auto
qed

theorem vector_push_witness:
  "\<exists>v' \<sigma>'. KVector_PushBack 8 demo_sys KVector_new (7 :: nat) = (STATUS_SUCCESS, v', \<sigma>') \<and> kv_elems v' = [7]"
  using vector_push [of demo_sys 8 KVector_new "7 :: nat"] by auto

text \<open>
  C30: \<open>KVector::Insert\<close> puts the element at the index and keeps the order of the others, by
  \<open>memmove\<close> for trivially copyable types and element by element for the rest; an index behind the
  end is refused.
\<close>

theorem vector_insert:
  assumes "sys_ok \<sigma>" "kv_ok sz \<sigma> v"
  shows "\<exists>r v' \<sigma>'. KVector_Insert triv sz \<sigma> v i x = (r, v', \<sigma>') \<and> kv_ok sz \<sigma>' v' \<and>
     owns_step \<sigma> (kv_owned v) \<sigma>' (kv_owned v') \<and>
     (r = STATUS_SUCCESS \<and> i \<le> length (kv_elems v) \<and>
        kv_elems v' = take i (kv_elems v) @ x # drop i (kv_elems v) \<or>
      \<not> NT_SUCCESS r \<and> v' = v \<and>
        \<not> (i \<le> length (kv_elems v) \<and> affords \<sigma> \<and> sz \<le> 2 ^ 16 \<and> length (kv_elems v) < 2 ^ 40))"
proof -
  obtain r v' \<sigma>' where ins: "KVector_Insert triv sz \<sigma> v i x = (r, v', \<sigma>')"
    by (cases "KVector_Insert triv sz \<sigma> v i x")
  have room: "i \<le> length (kv_elems v) \<and> affords \<sigma> \<and> sz \<le> 2 ^ 16 \<and> length (kv_elems v) < 2 ^ 40 \<Longrightarrow> r = STATUS_SUCCESS"
    using Insert_room [OF assms(1) _ assms(2) _ _ _ ins] by blast
  from Insert_spec [OF assms ins] room show ?thesis
    unfolding ins by auto
qed

theorem vector_insert_witness:
  "\<exists>v' \<sigma>'. KVector_Insert True 4 demo_sys (KVector_new\<lparr>kv_elems := [1, 5]\<rparr>) 1 (3 :: nat) = (STATUS_SUCCESS, v', \<sigma>') \<and>
     kv_elems v' = [1, 3, 5]"
proof -
  have "kv_ok 4 demo_sys (KVector_new\<lparr>kv_elems := [1, 5 :: nat]\<rparr>)"
    by (simp add: kv_ok_def KVector_new_def SvoCapacity_def)
  from vector_insert [OF demo_sys_ok(1) this, of True 1 3] show ?thesis
    by auto
qed

section \<open>The deque\<close>

text \<open>
  C28: \<open>KDeque::EmplaceBack\<close> appends the element and moves none: every element keeps its address.
  It fails only for a refused allocation or at \<open>kMaxBlocks\<close> full blocks, and then changes nothing.
\<close>

theorem deque_emplace:
  assumes "sys_ok \<sigma>" "dq_ok BC sz \<sigma> q"
  shows "\<exists>r q' \<sigma>'. KDeque_EmplaceBack BC sz \<sigma> q x = (r, q', \<sigma>') \<and> dq_ok BC sz \<sigma>' q' \<and>
     owns_step \<sigma> (dq_owned q) \<sigma>' (dq_owned q') \<and>
     (\<forall>j < dq_size q. KDeque_address BC q' j = KDeque_address BC q j) \<and>
     (r = STATUS_SUCCESS \<and> dq_contents BC q' = dq_contents BC q @ [x] \<or>
      \<not> NT_SUCCESS r \<and> q' = q \<and> \<not> (generous \<sigma> \<and> dq_size q < kMaxBlocks * BC))"
proof -
  obtain r q' \<sigma>' where em: "KDeque_EmplaceBack BC sz \<sigma> q x = (r, q', \<sigma>')"
    by (cases "KDeque_EmplaceBack BC sz \<sigma> q x")
  show ?thesis
    using KDeque_EmplaceBack_spec [OF assms em] EmplaceBack_room [OF assms(1) _ assms(2) _ em] em by auto
qed

theorem deque_emplace_witness:
  "\<exists>q' \<sigma>'. KDeque_EmplaceBack 512 8 demo_sys KDeque_new (7 :: nat) = (STATUS_SUCCESS, q', \<sigma>') \<and> dq_contents 512 q' = [7]"
proof -
  have "dq_ok 512 8 demo_sys KDeque_new"
    by (rule dq_ok_new [of _ 9]) simp
  from deque_emplace [OF demo_sys_ok(1) this, of "7 :: nat"] show ?thesis
    using dq_new by (auto simp: kMaxBlocks_def) (simp add: KDeque_new_def)
qed

section \<open>The string arena\<close>





text \<open>C27: \<open>KStringArena::Clear\<close> walks the chain to its end and frees every slab once.\<close>

theorem arena_clear:
  fixes a :: "'c::len word arena"
  assumes "sys_ok \<sigma>" "arena_ok \<sigma> a"
  shows "\<exists>\<sigma>'. KStringArena_Clear \<sigma> a = Some (KStringArena_new, \<sigma>') \<and> owns_step \<sigma> (arena_owned a) \<sigma>' {}"
  by (rule KStringArena_Clear_spec [OF assms])

theorem arena_clear_witness:
  "\<exists>\<sigma>'. KStringArena_Clear demo_sys (KStringArena_new :: u8 arena) = Some (KStringArena_new, \<sigma>') \<and> sys_ok \<sigma>'"
proof -
  have "arena_ok demo_sys (KStringArena_new :: u8 arena)"
    by (rule arena_ok_new)
  from arena_clear [OF demo_sys_ok(1) this] show ?thesis
    using owns_step_sys_ok by blast
qed


section \<open>The hash map\<close>

text \<open>C32: \<open>SwarMatch\<close> marks the top bit of exactly the control bytes that equal the one looked for.\<close>

theorem group_match_exact:
  fixes bs :: "u8 list" and m :: u8
  assumes "length bs = 8" "\<not> bit m 7"
  shows "SwarMatch (block_of bs) (ucast m) = block_of (map (\<lambda>b. if b = m then 0x80 else 0 :: u8) bs)"
  using SwarMatch_block [OF assms] by simp

theorem group_match_exact_witness:
  "SwarMatch (block_of [5, 4, 0xFF, 5, 0x85, 6, 0, 5 :: u8]) 5 = block_of [0x80, 0, 0, 0x80, 0, 0, 0, 0x80 :: u8]"
  using group_match_exact [of "[5, 4, 0xFF, 5, 0x85, 6, 0, 5]" 5] by simp

text \<open>
  C21: \<open>Find\<close> returns the slot of the key when the map holds it and null otherwise; the probe ends
  and stays inside the table.
\<close>

theorem map_find:
  fixes H :: "'k \<Rightarrow> u64" and m :: "('k, 'a kvector) kmap"
  assumes "table_ok H ssz \<sigma> m"
  shows "\<exists>r. KFlatHashMap_Find H m Key = Some r \<and>
     (case r of None \<Rightarrow> hm_map m Key = None
      | Some i \<Rightarrow> \<exists>v. hm_map m Key = Some v \<and> value_at m i = Some v)"
proof -
  obtain r where r: "KFlatHashMap_Find H m Key = Some r" "\<And>i. r = Some i \<Longrightarrow> has_key (hm_slots m) Key i"
      "r = None \<longleftrightarrow> hm_map m Key = None"
    using buckets.Find_spec [OF assms, of Key] by metis
  show ?thesis
  proof (cases r)
    case (Some i)
    obtain v where "value_at m i = Some v" "hm_map m Key = Some v"
      using buckets.has_key_value [OF assms r(2) [OF Some]] by metis
    then show ?thesis
      using r(1) Some by simp
  qed (use r in auto)
qed

theorem map_find_witness: "KFlatHashMap_Find id (KFlatHashMap_new :: (u64, nat kvector) kmap) 7 = Some None"
  using map_find [of id 16 demo_sys "KFlatHashMap_new :: (u64, nat kvector) kmap" 7]
  by (auto simp: table_ok_def split: option.splits)

text \<open>
  C20: \<open>GetOrInsert\<close> of a bucket: the slot of the key when the map holds it, nothing else changed;
  otherwise a new empty bucket, after a rehash when the load is reached; a failure leaves the
  map's contents alone, and only a refused allocation or sizes near the range of SIZE_T fail.
\<close>

theorem map_get_or_insert:
  fixes H :: "'k \<Rightarrow> u64" and m :: "('k, 'a kvector) kmap"
  assumes "sys_ok \<sigma>" "hm_ok H ssz kv_owned (kv_ok sz) \<sigma> m"
  shows "\<exists>r i m' \<sigma>'. KFlatHashMap_GetOrInsert H bucket_ops ssz KVector_new \<sigma> m Key = Some (r, i, m', \<sigma>') \<and>
     hm_ok H ssz kv_owned (kv_ok sz) \<sigma>' m' \<and> owns_step \<sigma> (hm_owned kv_owned m) \<sigma>' (hm_owned kv_owned m') \<and>
     (r = STATUS_OBJECT_NAME_EXISTS \<and> hm_map m Key \<noteq> None \<and> m' = m \<and> (\<exists>p. i = Some p \<and> has_key (hm_slots m') Key p) \<or>
      r = STATUS_SUCCESS \<and> hm_map m Key = None \<and> hm_map m' = (hm_map m)(Key \<mapsto> KVector_new) \<and>
        (\<exists>p. i = Some p \<and> has_key (hm_slots m') Key p) \<or>
      \<not> NT_SUCCESS r \<and> i = None \<and> hm_map m' = hm_map m \<and>
        \<not> (affords \<sigma> \<and> ssz \<le> 2 ^ 16 \<and> hm_cap m < 2 ^ 40))"
proof -
  obtain r i m' \<sigma>' where em: "KFlatHashMap_Emplace H bucket_ops ssz \<sigma> m Key KVector_new = Some (r, i, m', \<sigma>')"
      "hm_ok H ssz kv_owned (kv_ok sz) \<sigma>' m'" "owns_step \<sigma> (hm_owned kv_owned m) \<sigma>' (hm_owned kv_owned m')"
      "buckets.emplace_spec \<sigma> m Key KVector_new r i m' \<sigma>'"
    using buckets.Emplace_spec [OF assms, of KVector_new Key] by auto
  have "affords \<sigma> \<and> ssz \<le> 2 ^ 16 \<and> hm_cap m < 2 ^ 40 \<Longrightarrow> NT_SUCCESS r"
    using buckets.Emplace_room [OF assms(1) _ assms(2) _ _ em(1)] by blast
  then show ?thesis
    using em unfolding KFlatHashMap_GetOrInsert_def buckets.emplace_spec_def by auto
qed

theorem map_get_or_insert_witness:
  "\<exists>i m \<sigma>. KFlatHashMap_GetOrInsert KPrecomputedHash bucket_ops 32 KVector_new demo_sys KFlatHashMap_new 7 =
       Some (STATUS_SUCCESS, i, m, \<sigma>) \<and> hm_map m = [7 \<mapsto> (KVector_new :: nat kvector)]"
  using map_get_or_insert [OF demo_sys_ok(1) hm_ok_new [of KPrecomputedHash 32 kv_owned "kv_ok 8"], where Key = 7] by auto

text \<open>\<open>Clear\<close> destroys every bucket once, keeps the table and empties the map.\<close>

theorem map_clear:
  fixes H :: "'k \<Rightarrow> u64" and m :: "('k, 'a kvector) kmap"
  assumes "sys_ok \<sigma>" "hm_ok H ssz kv_owned (kv_ok sz) \<sigma> m"
  shows "\<exists>m' \<sigma>'. KFlatHashMap_Clear bucket_ops \<sigma> m = Some (m', \<sigma>') \<and> hm_ok H ssz kv_owned (kv_ok sz) \<sigma>' m' \<and>
     hm_map m' = Map.empty \<and> hm_cap m' = hm_cap m \<and> owns_step \<sigma> (hm_owned kv_owned m) \<sigma>' (hm_owned kv_owned m')"
  using buckets.Clear_spec [OF assms] by metis

theorem map_clear_witness:
  "\<exists>m' \<sigma>'. KFlatHashMap_Clear bucket_ops demo_sys (KFlatHashMap_new :: (u64, nat kvector) kmap) = Some (m', \<sigma>') \<and>
     hm_map m' = Map.empty"
  using map_clear [OF demo_sys_ok(1) hm_ok_new [of KPrecomputedHash 32 kv_owned "kv_ok 8"]] by metis

text \<open>C22: the destructor frees the block of the table and every block of every bucket, once.\<close>

theorem map_destroy:
  fixes H :: "'k \<Rightarrow> u64" and m :: "('k, 'a kvector) kmap"
  assumes "sys_ok \<sigma>" "hm_ok H ssz kv_owned (kv_ok sz) \<sigma> m"
  shows "\<exists>\<sigma>'. KFlatHashMap_destroy bucket_ops \<sigma> m = Some \<sigma>' \<and> owns_step \<sigma> (hm_owned kv_owned m) \<sigma>' {}"
  using buckets.destroy_spec [OF assms] by metis

theorem map_destroy_witness:
  "\<exists>\<sigma>'. KFlatHashMap_destroy bucket_ops demo_sys (KFlatHashMap_new :: (u64, nat kvector) kmap) = Some \<sigma>' \<and> sys_ok \<sigma>'"
  using map_destroy [OF demo_sys_ok(1) hm_ok_new [of KPrecomputedHash 32 kv_owned "kv_ok 8"]] owns_step_sys_ok by metis

text \<open>C24: a range-based loop over the map visits every entry once and ends.\<close>

theorem map_iterate:
  fixes H :: "'k \<Rightarrow> u64" and m :: "('k, 'a kvector) kmap"
  assumes "table_ok H ssz \<sigma> m"
  shows "\<exists>es. iterate m = Some es \<and> distinct (map fst es) \<and> map_of es = hm_map m"
  using iterate_spec [OF assms] by metis

theorem map_iterate_witness: "\<exists>es. iterate (KFlatHashMap_new :: (u64, nat kvector) kmap) = Some es \<and> map_of es = Map.empty"
  using map_iterate [of id 16 demo_sys "KFlatHashMap_new :: (u64, nat kvector) kmap"] by (auto simp: table_ok_def)

end
