(* ===== verification/Samples.thy ===== *)
theory Samples
  imports EngineMachine ContainerProperties
begin

text \<open>
  The inputs of the examples: an allocator that grants everything, one that refuses everything,
  and an engine in which one pattern is registered. The facts say what the code does on them.
\<close>

section \<open>An engine for the examples\<close>

text \<open>One pattern, \<open>a*\<close>, is registered with context 7 in an engine of 8-bit characters.\<close>

definition demo_requests :: "(u8, nat) request list" where
  "demo_requests = [Register (Some [97, 42]) 2 SCOPE_DEFAULT 7 STATUS_SUCCESS]"

lemma demo_new: "roomy demo_sys (engine_new ci)" "engine_ok id 8 demo_sys (engine_new ci :: (u8, nat) engine) []"
  by (simp add: roomy_def engine_new_def KDeque_new_def kMaxPatterns_def) (rule engine_new_ok)

lemma demo_pattern: "passed (Some [97, 42 :: u8]) 2 = Some [97, 42]"
  by (simp add: passed_def slice_def numeral_2_eq_2)

lemma demo_caller: "caller_ok (Some [97, 42 :: u8]) 2"
  by (simp add: caller_ok_def)

lemma demo_case: "case_table_ok (id :: u8 \<Rightarrow> u8) ci"
  by (simp add: case_table_ok_def)

lemma demo_add:
  obtains e' \<sigma>' where
    "AddPattern id 8 demo_sys (engine_new False :: (u8, nat) engine) (Some [97, 42]) 2 SCOPE_DEFAULT 7 = Some (STATUS_SUCCESS, e', \<sigma>')"
    "engine_ok id 8 \<sigma>' e' [next_rule (engine_new False :: (u8, nat) engine) [] [97, 42] SCOPE_DEFAULT 7]"
    "m_bCaseInsensitive e' = False" "sys_ok \<sigma>'"
proof -
  have "m_bCaseInsensitive (engine_new False :: (u8, nat) engine) = False"
    by (simp add: engine_new_def)
  then show thesis
    using AddPattern_spec [OF tchar_ok_8 demo_case demo_sys_ok(1) demo_new(2) demo_pattern, of False SCOPE_DEFAULT 7]
      demo_new(1) that owns_step_sys_ok unfolding add_outcome_def by fastforce
qed

lemma demo_run:
  obtains \<sigma> and e :: "(u8, nat) engine" where "engine_run id 8 demo_requests (demo_sys, engine_new False) (\<sigma>, e)"
proof -
  obtain e' \<sigma>' where "AddPattern id 8 demo_sys (engine_new False :: (u8, nat) engine) (Some [97, 42]) 2 SCOPE_DEFAULT 7 =
      Some (STATUS_SUCCESS, e', \<sigma>')"
    by (rule demo_add)
  from run_more [OF run_done step_register [OF this demo_caller]] show thesis
    by (intro that) (simp add: demo_requests_def)
qed

lemma demo_spec:
  assumes "spec_run demo_requests [] rs"
  shows "rs = [([97, 42], SCOPE_DEFAULT, 7)]"
proof -
  have nil: "rs' = []" if "spec_run [] [] rs'" for rs' :: "(u8, nat) spec_rule list"
    using that by cases auto
  from assms show ?thesis
    unfolding demo_requests_def
    by cases (auto simp: spec_step_register demo_pattern dest: nil)
qed

lemma demo_match: "pattern_matches id False SCOPE_DEFAULT [97, 42 :: u8] [97, 98]"
  "\<not> pattern_matches id False SCOPE_DEFAULT [97, 42 :: u8] [98, 98]"
  by code_simp+

lemma demo_length: "length [97, 98 :: u8] < 2 ^ 32"
  by simp

lemma demo_texts: "passed (Some [97, 98 :: u8]) 2 = Some [97, 98]" "passed (Some [98, 98 :: u8]) 2 = Some [98, 98]"
  by (simp_all add: passed_def slice_def numeral_2_eq_2)

text \<open>The allocator refuses everything.\<close>

definition refusing_sys :: sys where
  "refusing_sys = demo_sys\<lparr>grants := \<lambda>n bytes. False\<rparr>"

lemma refusing_sys_ok: "sys_ok refusing_sys"
  by (simp add: refusing_sys_def demo_sys_def sys_ok_def wdk_arith_def)

lemma refused_alloc: "ExAllocatePool2 refusing_sys n = (None, refusing_sys\<lparr>requests := 1\<rparr>)"
  by (simp add: ExAllocatePool2_def refusing_sys_def demo_sys_def Let_def)

lemma refused_store:
  "store_chars refusing_sys (KStringArena_new :: u8 arena) 2 cs = Some (Inl (), KStringArena_new, refusing_sys\<lparr>requests := 1\<rparr>)"
  by (simp add: store_chars_def Allocate_def new_slab_def refused_alloc Let_def needs_slab_def KStringArena_new_def
      length_guard_def sizeof_tchar_def charAlign_def slab_header_def)

lemma refused_add:
  obtains e' \<sigma>' where
    "AddPattern id 8 refusing_sys (engine_new False :: (u8, nat) engine) (Some [97, 42]) 2 SCOPE_DEFAULT 7 =
       Some (STATUS_INSUFFICIENT_RESOURCES, e', \<sigma>')"
proof -
  have "parse_prefix [97, 42 :: u8] 0 0 = (1, 1)"
    by code_simp
  then have "AddPattern_parse id refusing_sys (KStringArena_new :: u8 arena) False [97, 42] =
      Some (Inl (), KStringArena_new, refusing_sys\<lparr>requests := 1\<rparr>)"
    using refused_store by (simp add: AddPattern_parse_def sub32_eq add32_eq Let_def flip: numeral_2_eq_2)
  then show thesis
    using that demo_pattern
    by (simp add: AddPattern_def engine_new_def rollback_def RevertBookmark_def GetBookmark_def KStringArena_new_def
        kMaxPatterns_def sizeof_tchar_def)
qed

end
