(* ===== verification/EngineSuite.thy ===== *)
theory EngineSuite
  imports EngineTests Samples
begin

text \<open>
  The table of correctness tests of KmStringPatternTest.h for one character type, the driver that
  runs it for both and counts what passed and failed, and what it counts.
\<close>

section \<open>The suite\<close>

text \<open>
  The lines of \<open>EXECUTE_CORRECTNESS_SUITE\<close>, for either character type, without the names under
  which they are logged. A literal with backslashes is written by its parts.
\<close>

datatype suite_test =
    Single string string wild_card_scope bool bool
  | EmptyEngine string bool
  | ClearLifecycle string string bool
  | MultiPattern string string string bool
  | MatchAllSeveral string string string string string bool

fun path :: "string list \<Rightarrow> string" where
  "path [] = ''''"
| "path [s] = s"
| "path (s # ss) = s @ CHR 0x5C # path ss"

definition suite :: "suite_test list" where
  "suite =
    [Single ''file.txt'' ''file.txt'' SCOPE_DEFAULT True True,
     Single ''file.txt'' ''*.txt'' SCOPE_DEFAULT True True,
     Single ''prefix_file.txt'' ''prefix*'' SCOPE_DEFAULT True True,
     Single ''my_cool_file.txt'' ''*cool*'' SCOPE_DEFAULT True True,
     Single ''a'' ''?'' SCOPE_DEFAULT True True,
     Single ''ab'' ''?'' SCOPE_DEFAULT False True,
     Single ''abc'' ''a?c'' SCOPE_DEFAULT True True,
     Single ''Upper.TXT'' ''upper.txt'' SCOPE_DEFAULT True True,
     Single (path [''C:'', ''Temp'', ''Sub'', ''file.txt'']) (path [''C:'', ''*'', ''file.txt'']) SCOPE_DEFAULT True True,
     Single (path [''C:'', ''Temp'', ''Sub'', ''file.txt'']) (path [''C:'', ''*'', ''file.txt'']) SCOPE_PATH_SEGMENT False True,
     Single ''Upper.TXT'' ''upper.txt'' SCOPE_DEFAULT False False,
     Single ''ExactCase.TXT'' ''ExactCase.TXT'' SCOPE_DEFAULT True False,
     Single ''ExactStringTestMatch'' ''ExactStringTestMatch'' SCOPE_DEFAULT True True,
     Single ''ExactStringTestMatch'' ''ExactStringMismatch'' SCOPE_DEFAULT False True,
     Single ''a_z_test'' ''A_Z_TEST'' SCOPE_DEFAULT True True,
     Single ''`a{z`a{z'' ''`A{Z`A{Z'' SCOPE_DEFAULT True True,
     Single ''abcdefgh'' ''ABCDEFGH'' SCOPE_DEFAULT True True,
     Single ''!@#$[]{}'' ''!@#$[]{}'' SCOPE_DEFAULT True True,
     Single '''' '''' SCOPE_DEFAULT True True,
     Single '''' ''*'' SCOPE_DEFAULT True True,
     Single ''a'' '''' SCOPE_DEFAULT False True,
     Single ''a'' ''a*'' SCOPE_DEFAULT True True,
     Single ''abcdef'' ''a*f'' SCOPE_DEFAULT True True,
     Single ''abcdef'' ''a*z'' SCOPE_DEFAULT False True,
     Single ''abc'' ''????'' SCOPE_DEFAULT False True,
     Single ''abc'' ''??'' SCOPE_DEFAULT False True,
     Single ''a1b2c3d4'' ''a?b?c?d?'' SCOPE_DEFAULT True True,
     Single ''hello'' ''**hello**'' SCOPE_DEFAULT True True,
     Single ''hello'' ''*h*e*l*l*o*'' SCOPE_DEFAULT True True,
     Single (path [''C:'', ''Temp'', ''Sub'', ''test.txt'']) (path [''C:'', ''*'', ''*.txt'']) SCOPE_PATH_SEGMENT False True,
     Single (path [''C:'', ''Temp'', ''Sub'', ''test.txt'']) (path [''C:'', ''*'', ''*.txt'']) SCOPE_DEFAULT True True,
     Single ''a*b'' ''a|*b'' SCOPE_DEFAULT True True,
     Single ''a?b'' ''a|?b'' SCOPE_DEFAULT True True,
     Single ''a|b'' ''a||b'' SCOPE_DEFAULT True True,
     Single ''a*b'' ''a|?b'' SCOPE_DEFAULT False True,
     Single ''abc'' ''a|*c'' SCOPE_DEFAULT False True,
     Single ''abc|'' ''abc|'' SCOPE_DEFAULT True True,
     Single ''a|x'' ''a|x'' SCOPE_DEFAULT True True,
     Single ''a|*b'' ''a|||*b'' SCOPE_DEFAULT True True,
     Single ''A*B'' ''a|*b'' SCOPE_DEFAULT True True,
     Single ''axb'' ''a*?b'' SCOPE_DEFAULT True True,
     Single ''ab'' ''a*?b'' SCOPE_DEFAULT False True,
     Single ''axyzb'' ''a?*b'' SCOPE_DEFAULT True True,
     Single '''' ''?'' SCOPE_DEFAULT False True,
     Single (path [''a'', ''b'']) ''a?b'' SCOPE_PATH_SEGMENT False True,
     Single ''short'' ''muchlongerpattern'' SCOPE_DEFAULT False True,
     Single ''123456789'' ''123456789'' SCOPE_DEFAULT True False,
     Single ''123456789'' ''123456780'' SCOPE_DEFAULT False False,
     EmptyEngine ''FastExitCheck'' True,
     ClearLifecycle ''flush.txt'' ''flush.txt'' True,
     MultiPattern ''*.txt'' ''file.txt'' ''file.txt'' True,
     MatchAllSeveral ''*.txt'' ''test.*'' ''*.log'' ''te*xt'' ''test.txt'' True]"

fun run_test :: "('c::len word \<Rightarrow> 'c word) \<Rightarrow> bool \<Rightarrow> sys \<Rightarrow> suite_test \<Rightarrow> (bool \<times> sys) option" where
  "run_test up bAbort \<sigma> (Single t p ucScope b ci) =
     RunSingleCorrectnessTest up bAbort \<sigma> (STR_literal t) (STR_literal p) ucScope b ci"
| "run_test up bAbort \<sigma> (EmptyEngine t ci) = RunEmptyEngineTest up \<sigma> (STR_literal t) ci"
| "run_test up bAbort \<sigma> (ClearLifecycle p t ci) = RunClearLifecycleTest up \<sigma> (STR_literal p) (STR_literal t) ci"
| "run_test up bAbort \<sigma> (MultiPattern p1 p2 t ci) =
     RunMultiPatternCorrectnessTest up \<sigma> (STR_literal p1) (STR_literal p2) (STR_literal t) ci"
| "run_test up bAbort \<sigma> (MatchAllSeveral p1 p2 p3 p4 t ci) =
     RunMatchAllSeveralPatternsTest up \<sigma> (STR_literal p1) (STR_literal p2) (STR_literal p3) (STR_literal p4) (STR_literal t) ci"

text \<open>The counters \<open>ulPassed\<close> and \<open>ulFailed\<close>.\<close>

definition CheckTest :: "nat \<times> nat \<Rightarrow> bool \<Rightarrow> nat \<times> nat" where
  "CheckTest = (\<lambda>(ulPassed, ulFailed) bResult.
     if bResult then (add32 ulPassed 1, ulFailed) else (ulPassed, add32 ulFailed 1))"

text \<open>The argument \<open>aborted\<close> says what the abort flag reads as in each test.\<close>

fun RunSuite ::
  "('c::len word \<Rightarrow> 'c word) \<Rightarrow> (nat \<Rightarrow> bool) \<Rightarrow> suite_test list \<Rightarrow> nat \<times> nat \<Rightarrow> sys \<Rightarrow> ((nat \<times> nat) \<times> sys) option" where
  "RunSuite up aborted [] n \<sigma> = Some (n, \<sigma>)"
| "RunSuite up aborted (t # ts) n \<sigma> =
     do { (b, \<sigma>) \<leftarrow> run_test up (aborted (fst n + snd n)) \<sigma> t; RunSuite up aborted ts (CheckTest n b) \<sigma> }"

definition RunAllCorrectnessTests ::
  "(u16 \<Rightarrow> u16) \<Rightarrow> (u8 \<Rightarrow> u8) \<Rightarrow> (nat \<Rightarrow> bool) \<Rightarrow> sys \<Rightarrow> ((nat \<times> nat) \<times> sys) option" where
  "RunAllCorrectnessTests upW upA aborted \<sigma> =
     do { (n, \<sigma>) \<leftarrow> RunSuite upW aborted suite (0, 0) \<sigma>; RunSuite upA aborted suite n \<sigma> }"

section \<open>The answers of the suite\<close>

text \<open>What the test says of the meaning of its patterns.\<close>

fun test_holds :: "('c::len word \<Rightarrow> 'c word) \<Rightarrow> suite_test \<Rightarrow> bool" where
  "test_holds up (Single t p scope b ci) \<longleftrightarrow> pattern_matches up ci scope (widen p) (widen t) = b"
| "test_holds up (EmptyEngine t ci) \<longleftrightarrow> True"
| "test_holds up (ClearLifecycle p t ci) \<longleftrightarrow> pattern_matches up ci SCOPE_DEFAULT (widen p) (widen t)"
| "test_holds up (MultiPattern p1 p2 t ci) \<longleftrightarrow>
     pattern_matches up ci SCOPE_DEFAULT (widen p1) (widen t) \<and> pattern_matches up ci SCOPE_DEFAULT (widen p2) (widen t)"
| "test_holds up (MatchAllSeveral p1 p2 p3 p4 t ci) \<longleftrightarrow>
     pattern_matches up ci SCOPE_DEFAULT (widen p1) (widen t) \<and> pattern_matches up ci SCOPE_DEFAULT (widen p2) (widen t) \<and>
     \<not> pattern_matches up ci SCOPE_DEFAULT (widen p3) (widen t) \<and> pattern_matches up ci SCOPE_DEFAULT (widen p4) (widen t)"

fun strings :: "suite_test \<Rightarrow> string list" where
  "strings (Single t p scope b ci) = [t, p]"
| "strings (EmptyEngine t ci) = [t]"
| "strings (ClearLifecycle p t ci) = [p, t]"
| "strings (MultiPattern p1 p2 t ci) = [p1, p2, t]"
| "strings (MatchAllSeveral p1 p2 p3 p4 t ci) = [p1, p2, p3, p4, t]"

definition ascii :: "string \<Rightarrow> bool" where
  "ascii s \<longleftrightarrow> length s < 100 \<and> (\<forall>c \<in> set s. 0 < (of_char c :: int) \<and> (of_char c :: int) < 128)"

lemma ascii_widen:
  assumes "ascii s" "tchar_ok TYPE('c::len)"
  shows "0 \<notin> set (widen s :: 'c word list)" "length (widen s :: 'c word list) < 2 ^ 32"
    "\<forall>c \<in> set (widen s :: 'c word list). c \<le> 127"
proof -
  have u: "uint (of_char c :: 'c word) = of_char c" if "c \<in> set s" for c
  proof -
    have "(2 :: int) ^ 8 \<le> 2 ^ LENGTH('c)"
      using assms(2) by (intro power_increasing) (auto simp: tchar_ok_def)
    then have "(of_char c :: int) < 2 ^ LENGTH('c)" "0 \<le> (of_char c :: int)"
      using assms(1) that by (auto simp: ascii_def)
    then have "uint (word_of_int (of_char c) :: 'c word) = of_char c"
      by (simp add: uint_word_of_int take_bit_int_eq_self)
    then show ?thesis
      by (simp only: of_int_of_char)
  qed
  have "(127 :: 'c word) = of_int 127" "LENGTH('c) \<ge> 8"
    using assms(2) by (auto simp: tchar_ok_def)
  show "0 \<notin> set (widen s :: 'c word list)" "\<forall>c \<in> set (widen s :: 'c word list). c \<le> 127"
    using assms u by (auto simp: widen_def ascii_def word_le_def tchar_ok_def) fastforce+
  show "length (widen s :: 'c word list) < 2 ^ 32"
    using assms(1) by (simp add: widen_def ascii_def)
qed

lemma literal_ascii:
  assumes "ascii s" "tchar_ok TYPE('c::len)"
  shows "terminated (STR_literal s :: 'c word list)" "chars (STR_literal s :: 'c word list) = widen s"
  using ascii_widen [OF assms] by (simp_all add: STR_literal_def)

text \<open>On such texts the upcase table of the platform plays no role.\<close>

lemma gmatch_cong:
  "(\<And>p t. TLit p \<in> set ps \<Longrightarrow> t \<in> set ts \<Longrightarrow> f p t \<longleftrightarrow> g p t) \<Longrightarrow> gmatch f b ps ts \<longleftrightarrow> gmatch g b ps ts"
  by (induction f b ps ts rule: gmatch.induct) auto

lemma tokens_chars: "TLit c \<in> set (tokens p) \<Longrightarrow> c \<in> set p"
  by (induction p rule: tokens.induct) (auto simp: tok1_def split: if_splits)

lemma ascii_matches:
  fixes up :: "'c::len word \<Rightarrow> 'c word"
  assumes "ascii p" "ascii t" "tchar_ok TYPE('c)"
  shows "pattern_matches up ci scope (widen p) (widen t) = pattern_matches (id :: 'c word \<Rightarrow> 'c word) ci scope (widen p) (widen t)"
  unfolding pattern_matches_def
proof (rule gmatch_cong)
  fix a c :: "'c word"
  assume "TLit a \<in> set (tokens (widen p))" "c \<in> set (widen t)"
  then have "a \<le> 127" "c \<le> 127"
    using ascii_widen(3) [OF assms(1,3)] ascii_widen(3) [OF assms(2,3)] tokens_chars by blast+
  then show "(fold_char up ci a = fold_char up ci c) = (fold_char id ci a = fold_char id ci c)"
    by (simp add: fold_char_def ToUpperFast_def)
qed

lemma ascii_test:
  fixes up :: "'c::len word \<Rightarrow> 'c word"
  assumes "tchar_ok TYPE('c)" "\<forall>s \<in> set (strings t). ascii s"
  shows "test_holds up t = test_holds (id :: 'c word \<Rightarrow> 'c word) t"
  using assms(2) by (cases t) (simp_all add: ascii_matches [OF _ _ assms(1), where up = up])

text \<open>Every test returns and gives back what it took, and answers as it should.\<close>

lemma run_test_answers:
  fixes up :: "'c::len word \<Rightarrow> 'c word"
  assumes ok: "tchar_ok TYPE('c)" "\<And>ci. case_table_ok up ci" "sys_ok \<sigma>" and s: "\<forall>s \<in> set (strings t). ascii s"
  shows "answers \<sigma> (test_holds up t) (run_test up False \<sigma> t)"
proof -
  note lit = literal_ascii [OF _ ok(1)]
  show ?thesis
  proof (cases t)
    case (Single t p sc b ci)
    then show ?thesis
      using single_answers [OF ok, where psText = "STR_literal t" and psPattern = "STR_literal p"] s lit by simp
  next
    case (EmptyEngine t ci)
    then show ?thesis
      using empty_answers [OF ok, where psText = "STR_literal t"] s lit by simp
  next
    case (ClearLifecycle p t ci)
    then show ?thesis
      using clear_answers [OF ok, where psText = "STR_literal t" and psPattern = "STR_literal p"] s lit by simp
  next
    case (MultiPattern p1 p2 t ci)
    then show ?thesis
      using multi_answers [OF ok, where psText = "STR_literal t" and ?psPattern1.0 = "STR_literal p1" and ?psPattern2.0 = "STR_literal p2"] s lit by simp
  next
    case (MatchAllSeveral p1 p2 p3 p4 t ci)
    then show ?thesis
      using several_answers [OF ok, where psText = "STR_literal t" and ?pat1.0 = "STR_literal p1" and ?pat2.0 = "STR_literal p2"
        and ?pat3.0 = "STR_literal p3" and ?pat4.0 = "STR_literal p4"] s lit
      by simp
  qed
qed

lemma run_test_returns:
  fixes up :: "'c::len word \<Rightarrow> 'c word"
  assumes ok: "tchar_ok TYPE('c)" "\<And>ci. case_table_ok up ci" "sys_ok \<sigma>" and s: "\<forall>s \<in> set (strings t). ascii s"
  obtains b \<sigma>' where "run_test up bAbort \<sigma> t = Some (b, \<sigma>')" "owns_step \<sigma> {} \<sigma>' {}"
    "generous \<sigma> \<Longrightarrow> \<not> bAbort \<Longrightarrow> test_holds up t \<Longrightarrow> b"
proof -
  have a: "answers \<sigma> (test_holds up t) (run_test up False \<sigma> t)"
    by (rule run_test_answers [OF ok s])
  show thesis
  proof (cases "run_test up bAbort \<sigma> t = run_test up False \<sigma> t")
    case True
    then show ?thesis
      using a that by (auto simp: answers_def)
  next
    case False
    then have "bAbort" "run_test up bAbort \<sigma> t = Some (False, \<sigma>)"
      by (cases t; cases bAbort; simp add: RunSingleCorrectnessTest_def)+
    then show ?thesis
      using that [of False \<sigma>] owns_step_refl [OF ok(3), of "{}"] by simp
  qed
qed

theorem RunSuite_counts:
  fixes up :: "'c::len word \<Rightarrow> 'c word"
  assumes ok: "tchar_ok TYPE('c)" "\<And>ci. case_table_ok up ci" "sys_ok \<sigma>"
    and ts: "\<forall>t \<in> set ts. (\<forall>s \<in> set (strings t). ascii s) \<and> test_holds (id :: 'c word \<Rightarrow> 'c word) t"
    and n: "good + bad + length ts < 2 ^ 32"
  shows "\<exists>p f \<sigma>'. RunSuite up aborted ts (good, bad) \<sigma> = Some ((p, f), \<sigma>') \<and>
     p + f = good + bad + length ts \<and> owns_step \<sigma> {} \<sigma>' {} \<and>
     (generous \<sigma> \<and> (\<forall>i. \<not> aborted i) \<longrightarrow> f = bad)"
  using ok(3) ts n
proof (induction ts arbitrary: \<sigma> good bad)
  case Nil
  then show ?case
    by (simp add: owns_step_refl)
next
  case (Cons t ts)
  have t: "\<forall>s \<in> set (strings t). ascii s" "test_holds (id :: 'c word \<Rightarrow> 'c word) t"
    using bspec [OF Cons.prems(2) list.set_intros(1)] by blast+
  obtain b \<sigma>1 where b: "run_test up (aborted (good + bad)) \<sigma> t = Some (b, \<sigma>1)" "owns_step \<sigma> {} \<sigma>1 {}"
      "generous \<sigma> \<Longrightarrow> \<not> aborted (good + bad) \<Longrightarrow> b"
    using run_test_returns [OF ok(1,2) Cons.prems(1) t(1)] t(2) ascii_test [OF ok(1) t(1)] by metis
  let ?p = "if b then good + 1 else good" and ?f = "if b then bad else bad + 1"
  have c: "CheckTest (good, bad) b = (?p, ?f)"
    using Cons.prems(3) by (simp add: CheckTest_def add32_eq)
  have s: "?p + ?f = good + bad + 1"
    by simp
  then have "?p + ?f + length ts < 2 ^ 32"
    using Cons.prems(3) by simp
  then obtain p f \<sigma>' where r: "RunSuite up aborted ts (?p, ?f) \<sigma>1 = Some ((p, f), \<sigma>')" "p + f = ?p + ?f + length ts"
      "owns_step \<sigma>1 {} \<sigma>' {}" "generous \<sigma>1 \<and> (\<forall>i. \<not> aborted i) \<longrightarrow> f = ?f"
    using Cons.IH [OF owns_step_sys_ok [OF b(2)], of ?p ?f] Cons.prems(2) by auto
  have "generous \<sigma>1 = generous \<sigma>"
    by (rule generous_step [OF b(2)])
  then show ?case
    using b(1,3) c s r owns_step_trans [OF b(2) r(3) Cons.prems(1)] by auto
qed

lemma suite_ascii: "\<forall>t \<in> set suite. \<forall>s \<in> set (strings t). ascii s"
  by code_simp

lemma suite_holds: "\<forall>t \<in> set suite. test_holds (id :: u16 \<Rightarrow> u16) t" "\<forall>t \<in> set suite. test_holds (id :: u8 \<Rightarrow> u8) t"
  by code_simp+

text \<open>
  C11: the correctness tests for both character types, \<open>RunAllCorrectnessTests\<close>: under any
  allocator they run to their end without a fault, count 104 tests and give back to the pool
  all they took; when no allocation is refused and nobody aborts the run, no test fails.
\<close>

theorem correctness_suite_passes:
  assumes "upcase_ok upW" "sys_ok \<sigma>"
  shows "\<exists>p f \<sigma>'. RunAllCorrectnessTests upW upA aborted \<sigma> = Some ((p, f), \<sigma>') \<and> p + f = 104 \<and> live \<sigma>' = live \<sigma> \<and>
     (generous \<sigma> \<and> (\<forall>i. \<not> aborted i) \<longrightarrow> f = 0)"
proof -
  have ts: "\<forall>t \<in> set suite. (\<forall>s \<in> set (strings t). ascii s) \<and> test_holds (id :: u16 \<Rightarrow> u16) t"
      "\<forall>t \<in> set suite. (\<forall>s \<in> set (strings t). ascii s) \<and> test_holds (id :: u8 \<Rightarrow> u8) t"
    using suite_ascii suite_holds by blast+
  have len: "length suite = 52"
    by (simp add: suite_def)
  have ci: "case_table_ok upW ci" "case_table_ok upA ci" for ci
    using assms(1) by (simp_all add: case_table_ok_def)
  obtain p f \<sigma>1 where w: "RunSuite upW aborted suite (0, 0) \<sigma> = Some ((p, f), \<sigma>1)" "p + f = 52" "owns_step \<sigma> {} \<sigma>1 {}"
      "generous \<sigma> \<and> (\<forall>i. \<not> aborted i) \<longrightarrow> f = 0"
    using RunSuite_counts [OF tchar_ok_16 ci(1) assms(2) ts(1), of 0 0 aborted] len by auto
  obtain p' f' \<sigma>2 where a: "RunSuite upA aborted suite (p, f) \<sigma>1 = Some ((p', f'), \<sigma>2)" "p' + f' = 104" "owns_step \<sigma>1 {} \<sigma>2 {}"
      "generous \<sigma>1 \<and> (\<forall>i. \<not> aborted i) \<longrightarrow> f' = f"
    using RunSuite_counts [OF tchar_ok_8 ci(2) owns_step_sys_ok [OF w(3)] ts(2), of p f aborted] len w(2) by auto
  have "live \<sigma>2 = live \<sigma>"
    by (rule owns_nothing_live [OF owns_step_trans [OF w(3) a(3) assms(2)]])
  then show ?thesis
    using w(1,4) a(1,2,4) generous_step [OF w(3)] by (simp add: RunAllCorrectnessTests_def)
qed

theorem correctness_suite_passes_witness:
  "\<exists>\<sigma>'. RunAllCorrectnessTests id id (\<lambda>_. False) demo_sys = Some ((104, 0), \<sigma>') \<and> live \<sigma>' = Map.empty"
proof -
  have "live demo_sys = Map.empty"
    by (simp add: demo_sys_def)
  then show ?thesis
    using correctness_suite_passes [OF upcase_ok_id [OF tchar_ok_16] demo_sys_ok(1), of id "\<lambda>_. False"] demo_sys_ok(2) by auto
qed

end
