(* ===== verification/DriverLog.thy ===== *)
theory DriverLog
  imports ContainerProperties
begin

text \<open>
  The log of the kernel test driver, KmStringPatternMatchDrv.cpp: a buffer of one mebibyte in
  which \<open>RecordLog\<close> keeps the lines that fit, and which \<open>FlushLogToFile\<close> appends to a file. The
  specification keeps the text alone. The library routines of the kernel are parameters: what a
  line is formatted to, the length \<open>RtlStringCbLengthA\<close> reports, whether the file can be opened.
\<close>

section \<open>State\<close>

definition MAX_LOG_LINE :: nat where "MAX_LOG_LINE = 512"
definition g_cbLogBufferMax :: nat where "g_cbLogBufferMax = 1024 * 1024"

text \<open>\<open>log_bytes\<close> is what the buffer holds, \<open>writes\<close> what was passed to \<open>ZwWriteFile\<close> so far.\<close>

record driver =
  g_pLogBuffer :: "nat option"
  log_bytes :: "u8 list"
  g_cbLogBufferOffset :: nat
  g_lAbortTests :: bool
  g_pMasterBenchmarkThread :: bool
  writes :: "u8 list list"

lemma g_cbLogBufferMax_pos: "0 < g_cbLogBufferMax"
  by (simp add: g_cbLogBufferMax_def)

section \<open>Operations\<close>

text \<open>Copying into a buffer; past its end it is a fault.\<close>

definition CopyMemory :: "'a list \<Rightarrow> nat \<Rightarrow> 'a list \<Rightarrow> 'a list option" where
  "CopyMemory buf off xs =
     (if off + length xs \<le> length buf then Some (take off buf @ xs @ drop (off + length xs) buf) else None)"

text \<open>
  \<open>szLine\<close> is the stack buffer after \<open>RtlStringCbVPrintfA\<close>, \<open>None\<close> when that reports a failure;
  \<open>cb_length\<close> is \<open>RtlStringCbLengthA\<close>.
\<close>

definition RecordLog :: "(u8 list \<Rightarrow> nat) \<Rightarrow> driver \<Rightarrow> u8 list option \<Rightarrow> driver option" where
  "RecordLog cb_length d szLine =
     (case szLine of
        None \<Rightarrow> Some d
      | Some szLine \<Rightarrow>
          if g_pLogBuffer d = None then Some d
          else
            let cbLen = cb_length szLine
            in if g_cbLogBufferOffset d + cbLen < g_cbLogBufferMax
               then do {
                 line \<leftarrow> (if cbLen \<le> length szLine then Some (take cbLen szLine) else None);
                 buf \<leftarrow> CopyMemory (log_bytes d) (g_cbLogBufferOffset d) line;
                 let off = g_cbLogBufferOffset d + cbLen
                 in do { buf \<leftarrow> wr buf off 0; Some (d\<lparr>log_bytes := buf, g_cbLogBufferOffset := off\<rparr>) }
               }
               else Some d)"

definition FlushLogToFile :: "driver \<Rightarrow> bool \<Rightarrow> driver option" where
  "FlushLogToFile d opened =
     (if g_pLogBuffer d = None \<or> g_cbLogBufferOffset d = 0 then Some d
      else if opened
      then (let n = trunc32 (g_cbLogBufferOffset d)
            in if n \<le> length (log_bytes d) then Some (d\<lparr>writes := writes d @ [take n (log_bytes d)]\<rparr>) else None)
      else Some d)"

text \<open>
  The entry point: \<open>mem\<close> is what a fresh allocation happens to hold, \<open>started\<close> whether the test
  thread was created.
\<close>

definition DriverEntry :: "sys \<Rightarrow> u8 list \<Rightarrow> bool \<Rightarrow> (ntstatus \<times> driver \<times> sys) option" where
  "DriverEntry \<sigma> mem started =
     (let (p, \<sigma>) = ExAllocatePool2 \<sigma> g_cbLogBufferMax
      in do {
        buf \<leftarrow> (if p = None then Some [] else wr mem 0 0);
        Some (STATUS_SUCCESS,
          \<lparr>g_pLogBuffer = p, log_bytes = buf, g_cbLogBufferOffset = 0, g_lAbortTests = False,
           g_pMasterBenchmarkThread = started, writes = []\<rparr>, \<sigma>)
      })"

text \<open>The line logged at the end finds no buffer any more.\<close>

definition DriverUnload :: "(u8 list \<Rightarrow> nat) \<Rightarrow> u8 list option \<Rightarrow> sys \<Rightarrow> driver \<Rightarrow> (driver \<times> sys) option" where
  "DriverUnload cb_length szLine \<sigma> d =
     (let d = d\<lparr>g_lAbortTests := True, g_pMasterBenchmarkThread := False\<rparr>;
          (d, \<sigma>) = (case g_pLogBuffer d of
             None \<Rightarrow> (d, \<sigma>)
           | Some p \<Rightarrow> (d\<lparr>g_pLogBuffer := None, log_bytes := []\<rparr>, ExFreePoolWithTag \<sigma> p))
      in do { d \<leftarrow> RecordLog cb_length d szLine; Some (d, \<sigma>) })"

section \<open>What the driver does between the two\<close>

datatype driver_event = Line "u8 list option" | Flush bool

fun driver_step :: "(u8 list \<Rightarrow> nat) \<Rightarrow> driver \<Rightarrow> driver_event \<Rightarrow> driver option" where
  "driver_step cb_length d (Line szLine) = RecordLog cb_length d szLine"
| "driver_step cb_length d (Flush opened) = FlushLogToFile d opened"

fun driver_run :: "(u8 list \<Rightarrow> nat) \<Rightarrow> driver \<Rightarrow> driver_event list \<Rightarrow> driver option" where
  "driver_run cb_length d [] = Some d"
| "driver_run cb_length d (x # xs) = do { d \<leftarrow> driver_step cb_length d x; driver_run cb_length d xs }"

section \<open>The specification: a text that grows, and the texts written\<close>

definition line_of :: "u8 list \<Rightarrow> u8 list" where
  "line_of szLine = takeWhile (\<lambda>c. c \<noteq> 0) szLine"

fun log_spec :: "u8 list \<times> u8 list list \<Rightarrow> driver_event \<Rightarrow> u8 list \<times> u8 list list" where
  "log_spec (kept, out) (Line None) = (kept, out)"
| "log_spec (kept, out) (Line (Some szLine)) =
     (if length kept + length (line_of szLine) < g_cbLogBufferMax then (kept @ line_of szLine, out) else (kept, out))"
| "log_spec (kept, out) (Flush opened) = (kept, if opened \<and> kept \<noteq> [] then out @ [kept] else out)"

text \<open>A formatted line is a string in its buffer, and the library reports its length.\<close>

definition formatted :: "driver_event \<Rightarrow> bool" where
  "formatted x \<longleftrightarrow> (\<forall>s. x = Line (Some s) \<longrightarrow> length s = MAX_LOG_LINE \<and> 0 \<in> set s)"

definition reports_length :: "(u8 list \<Rightarrow> nat) \<Rightarrow> bool" where
  "reports_length cb_length \<longleftrightarrow>
     (\<forall>s. length s = MAX_LOG_LINE \<longrightarrow> 0 \<in> set s \<longrightarrow> cb_length s = length (takeWhile (\<lambda>c. c \<noteq> 0) s))"

text \<open>The buffer holds the text, terminated.\<close>

definition log_ok :: "driver \<Rightarrow> u8 list \<times> u8 list list \<Rightarrow> bool" where
  "log_ok d = (\<lambda>(kept, out). g_pLogBuffer d \<noteq> None \<and> length (log_bytes d) = g_cbLogBufferMax \<and>
     g_cbLogBufferOffset d = length kept \<and> take (length kept) (log_bytes d) = kept \<and>
     length kept < g_cbLogBufferMax \<and> log_bytes d ! length kept = 0 \<and> writes d = out)"

lemma record_log_ok:
  assumes cb: "reports_length cb_length" and x: "formatted (Line s)" and ok: "log_ok d (kept, out)"
  shows "\<exists>d'. RecordLog cb_length d s = Some d' \<and> log_ok d' (log_spec (kept, out) (Line s)) \<and> g_pLogBuffer d' = g_pLogBuffer d"
proof (cases s)
  case None
  then show ?thesis
    using ok by (simp add: RecordLog_def)
next
  case (Some sz)
  let ?line = "line_of sz"
  have len: "cb_length sz = length ?line" "length ?line \<le> length sz" "take (length ?line) sz = ?line"
    using cb x Some length_takeWhile_le [of "\<lambda>c. c \<noteq> 0" sz]
    by (simp_all add: reports_length_def formatted_def line_of_def takeWhile_eq_take [symmetric])
  have d: "g_pLogBuffer d \<noteq> None" "length (log_bytes d) = g_cbLogBufferMax" "g_cbLogBufferOffset d = length kept"
      "take (length kept) (log_bytes d) = kept" "writes d = out"
    using ok by (simp_all add: log_ok_def)
  show ?thesis
  proof (cases "length kept + length ?line < g_cbLogBufferMax")
    case False
    then show ?thesis
      using ok d(1,3) len(1) Some by (auto simp: RecordLog_def)
  next
    case True
    let ?buf = "kept @ ?line @ drop (length kept + length ?line) (log_bytes d)"
    have "CopyMemory (log_bytes d) (length kept) ?line = Some ?buf" "length ?buf = g_cbLogBufferMax"
      using True d(2,4) by (simp_all add: CopyMemory_def)
    then show ?thesis
      using True d len Some by (auto simp: RecordLog_def log_ok_def Let_def)
  qed
qed

lemma flush_ok:
  assumes "log_ok d (kept, out)"
  shows "\<exists>d'. FlushLogToFile d opened = Some d' \<and> log_ok d' (log_spec (kept, out) (Flush opened)) \<and> g_pLogBuffer d' = g_pLogBuffer d"
  using assms by (auto simp: FlushLogToFile_def log_ok_def trunc32_def g_cbLogBufferMax_def Let_def)

lemma driver_run_ok:
  "reports_length cb_length \<Longrightarrow> \<forall>x \<in> set xs. formatted x \<Longrightarrow> log_ok d ts \<Longrightarrow>
     \<exists>d'. driver_run cb_length d xs = Some d' \<and> log_ok d' (foldl log_spec ts xs) \<and> g_pLogBuffer d' = g_pLogBuffer d"
proof (induction xs arbitrary: d ts)
  case Nil
  then show ?case by simp
next
  case (Cons x xs)
  obtain kept out where ts: "ts = (kept, out)"
    by (cases ts)
  have "\<exists>d'. driver_step cb_length d x = Some d' \<and> log_ok d' (log_spec ts x) \<and> g_pLogBuffer d' = g_pLogBuffer d"
    using record_log_ok [OF Cons.prems(1)] flush_ok Cons.prems(2,3) unfolding ts by (cases x) auto
  then obtain d1 where d1: "driver_step cb_length d x = Some d1" "log_ok d1 (log_spec ts x)" "g_pLogBuffer d1 = g_pLogBuffer d"
    by blast
  then show ?case
    using Cons.IH [OF Cons.prems(1) _ d1(2)] Cons.prems(2) by auto
qed

text \<open>Without a buffer nothing is recorded or written.\<close>

lemma record_null: "g_pLogBuffer d = None \<Longrightarrow> RecordLog cb_length d szLine = Some d"
  by (simp add: RecordLog_def split: option.split)

lemma driver_run_null: "g_pLogBuffer d = None \<Longrightarrow> driver_run cb_length d xs = Some d"
proof (induction xs)
  case Nil
  then show ?case by simp
next
  case (Cons x xs)
  then have "driver_step cb_length d x = Some d"
    by (cases x) (simp_all add: record_null FlushLogToFile_def)
  then show ?case
    using Cons by simp
qed

section \<open>The log is the text\<close>

lemma unload_ok:
  assumes "sys_ok \<sigma>" "set_option (g_pLogBuffer d) \<subseteq> dom (live \<sigma>)"
  shows "\<exists>d' \<sigma>'. DriverUnload cb_length szLine \<sigma> d = Some (d', \<sigma>') \<and> g_pLogBuffer d' = None \<and> writes d' = writes d \<and>
     owns_step \<sigma> (set_option (g_pLogBuffer d)) \<sigma>' {}"
proof (cases "g_pLogBuffer d")
  case None
  then show ?thesis
    using owns_step_refl [OF assms(1), of "{}"] by (simp add: DriverUnload_def record_null)
next
  case (Some p)
  then have "owns_step \<sigma> {p} (ExFreePoolWithTag \<sigma> p) ({p} - {p})"
    using assms Some by (intro free_owned) auto
  then show ?thesis
    using Some by (simp add: DriverUnload_def record_null)
qed

text \<open>
  C31: the log of the test driver: whatever lines are recorded and whenever it is flushed, no
  access leaves the buffer; what goes to the file is, at every flush, the text of the lines
  recorded so far that fit, in their order; without a buffer nothing is recorded; and unloading
  gives the buffer back.
\<close>

theorem driver_log_faithful:
  assumes "sys_ok \<sigma>" "length mem = g_cbLogBufferMax" "reports_length cb_length" "\<forall>x \<in> set xs. formatted x"
  shows "\<exists>d \<sigma>1 d1 d2 \<sigma>2. DriverEntry \<sigma> mem started = Some (STATUS_SUCCESS, d, \<sigma>1) \<and>
     driver_run cb_length d xs = Some d1 \<and> DriverUnload cb_length szLine \<sigma>1 d1 = Some (d2, \<sigma>2) \<and>
     writes d2 = (if g_pLogBuffer d = None then [] else snd (foldl log_spec ([], []) xs)) \<and>
     owns_step \<sigma> {} \<sigma>2 {}"
proof -
  obtain p \<sigma>1 where a: "ExAllocatePool2 \<sigma> g_cbLogBufferMax = (p, \<sigma>1)"
    by fastforce
  define buf where "buf = (if p = None then [] else mem[0 := 0])"
  define d where "d = \<lparr>g_pLogBuffer = p, log_bytes = buf, g_cbLogBufferOffset = 0, g_lAbortTests = False,
    g_pMasterBenchmarkThread = started, writes = []\<rparr>"
  have entry: "DriverEntry \<sigma> mem started = Some (STATUS_SUCCESS, d, \<sigma>1)"
    using assms(2) by (cases p) (simp_all add: DriverEntry_def a d_def buf_def g_cbLogBufferMax_pos)
  have own: "owns_step \<sigma> {} \<sigma>1 (set_option p)"
    using alloc_Some [of \<sigma> g_cbLogBufferMax _ \<sigma>1 "{}"] alloc_None [of \<sigma> g_cbLogBufferMax \<sigma>1 "{}"] assms(1) a by (cases p) auto
  obtain d1 where d1: "driver_run cb_length d xs = Some d1" "g_pLogBuffer d1 = p"
      "writes d1 = (if p = None then [] else snd (foldl log_spec ([], []) xs))"
  proof (cases p)
    case None
    then show thesis
      using that [of d] driver_run_null [of d cb_length xs] by (simp add: d_def)
  next
    case (Some b)
    then have "log_ok d ([], [])"
      using assms(2) by (simp add: log_ok_def d_def buf_def g_cbLogBufferMax_def)
    from driver_run_ok [OF assms(3,4) this] obtain d1 where r: "driver_run cb_length d xs = Some d1"
        "log_ok d1 (foldl log_spec ([], []) xs)" "g_pLogBuffer d1 = g_pLogBuffer d"
      by blast
    then show thesis
      using that [of d1] Some by (cases "foldl log_spec ([], []) xs") (simp add: log_ok_def d_def)
  qed
  have "set_option (g_pLogBuffer d1) \<subseteq> dom (live \<sigma>1)"
    using owns_step_owned [OF own] d1(2) by simp
  then obtain d2 \<sigma>2 where u: "DriverUnload cb_length szLine \<sigma>1 d1 = Some (d2, \<sigma>2)" "writes d2 = writes d1"
      "owns_step \<sigma>1 (set_option (g_pLogBuffer d1)) \<sigma>2 {}"
    using unload_ok [OF owns_step_sys_ok [OF own]] by metis
  have "owns_step \<sigma> {} \<sigma>2 {}"
    using owns_step_trans [OF own _ assms(1)] u(3) d1(2) by simp
  moreover have "g_pLogBuffer d = p"
    by (simp add: d_def)
  ultimately show ?thesis
    using entry d1 u(1,2) by metis
qed

text \<open>One line, \<open>Hi\<close>, recorded and flushed.\<close>

definition demo_line :: "u8 list" where
  "demo_line = 72 # 105 # 0 # replicate 509 0"

theorem driver_log_faithful_witness:
  "\<exists>d \<sigma>1 d1 d2 \<sigma>2. DriverEntry demo_sys (replicate g_cbLogBufferMax 0) True = Some (STATUS_SUCCESS, d, \<sigma>1) \<and>
     driver_run (\<lambda>s. length (takeWhile (\<lambda>c. c \<noteq> 0) s)) d [Line (Some demo_line), Flush True] = Some d1 \<and>
     DriverUnload (\<lambda>s. length (takeWhile (\<lambda>c. c \<noteq> 0) s)) None \<sigma>1 d1 = Some (d2, \<sigma>2) \<and> writes d2 = [[72, 105]]"
proof -
  let ?cb = "\<lambda>s :: u8 list. length (takeWhile (\<lambda>c. c \<noteq> 0) s)"
  have f: "\<forall>x \<in> set [Line (Some demo_line), Flush True]. formatted x"
    by (simp add: formatted_def demo_line_def MAX_LOG_LINE_def)
  have r: "reports_length ?cb"
    by (simp add: reports_length_def)
  have s: "snd (foldl log_spec ([], []) [Line (Some demo_line), Flush True]) = [[72, 105]]"
    by (simp add: line_of_def demo_line_def g_cbLogBufferMax_def)
  have "g_pLogBuffer d \<noteq> None" if "DriverEntry demo_sys (replicate g_cbLogBufferMax 0) True = Some (STATUS_SUCCESS, d, \<sigma>1)" for d \<sigma>1
    using that by (auto simp: DriverEntry_def ExAllocatePool2_def demo_sys_def Let_def bind_eq_Some_conv)
  then show ?thesis
    using driver_log_faithful [OF demo_sys_ok(1) length_replicate r f, of 0 True None] unfolding s by (metis (no_types))
qed

end
