(* ===== verification/ContainerTests.thy ===== *)
theory ContainerTests
  imports EngineMachine
begin

text \<open>
  The correctness tests of the containers, ContainerTests.cpp, as programs over the container
  operations. A failed \<open>ASSERTMSG\<close> ends the program: like a fault, it is \<open>None\<close>. The elements are
  C integers, 32-bit words of four bytes.
\<close>

definition ASSERTMSG :: "bool \<Rightarrow> unit option" where
  "ASSERTMSG cond = (if cond then Some () else None)"

lemma ASSERTMSG_True [simp]: "ASSERTMSG True = Some ()"
  by (simp add: ASSERTMSG_def)

definition sizeof_int :: nat where "sizeof_int = 4"

section \<open>The deque\<close>

definition kSmallBlockSize :: nat where "kSmallBlockSize = 4"

text \<open>A loop of \<open>EmplaceBack\<close> whose status nobody reads.\<close>

fun emplace_each :: "sys \<Rightarrow> 'a kdeque \<Rightarrow> 'a list \<Rightarrow> 'a kdeque \<times> sys" where
  "emplace_each \<sigma> q [] = (q, \<sigma>)"
| "emplace_each \<sigma> q (x # xs) =
     (let (_, q, \<sigma>) = KDeque_EmplaceBack kSmallBlockSize sizeof_int \<sigma> q x in emplace_each \<sigma> q xs)"

text \<open>Assigning to \<open>deque.Back()\<close>.\<close>

definition assign_back :: "'a kdeque \<Rightarrow> 'a \<Rightarrow> 'a kdeque option" where
  "assign_back q x =
     (if dq_size q = 0 then None
      else do { (b, s) \<leftarrow> KDeque_address kSmallBlockSize q (dq_size q - 1);
                Some (q\<lparr>dq_slots := (dq_slots q)(b := (dq_slots q b)(s := Some x))\<rparr>) })"

definition ints :: "nat \<Rightarrow> nat \<Rightarrow> 32 word list" where
  "ints a b = map word_of_nat [a..<b]"

definition TestDequeCorrectness :: "sys \<Rightarrow> sys option" where
  "TestDequeCorrectness \<sigma> =
     (let deque = KDeque_new;
          (deque, \<sigma>) = emplace_each \<sigma> deque (ints 0 4)
      in do {
        _ \<leftarrow> ASSERTMSG (KDeque_Size deque = 4);
        let (_, deque, \<sigma>) = KDeque_EmplaceBack kSmallBlockSize sizeof_int \<sigma> deque 4
        in do {
          x \<leftarrow> KDeque_at kSmallBlockSize deque 4;
          _ \<leftarrow> ASSERTMSG (x = 4);
          _ \<leftarrow> ASSERTMSG (KDeque_Size deque = 5);
          let (_, deque, \<sigma>) = KDeque_EmplaceBack kSmallBlockSize sizeof_int \<sigma> deque 42
          in do {
            x \<leftarrow> KDeque_Back kSmallBlockSize deque;
            _ \<leftarrow> ASSERTMSG (x = 42);
            deque \<leftarrow> assign_back deque 84;
            x \<leftarrow> KDeque_Back kSmallBlockSize deque;
            _ \<leftarrow> ASSERTMSG (x = 84);
            x \<leftarrow> KDeque_at kSmallBlockSize deque 4;
            _ \<leftarrow> ASSERTMSG (x = 4);
            let (deque, \<sigma>) = emplace_each \<sigma> deque (ints 6 1024)
            in do {
              _ \<leftarrow> ASSERTMSG (KDeque_Size deque = 1024);
              let (failureStatus, deque, \<sigma>) = KDeque_EmplaceBack kSmallBlockSize sizeof_int \<sigma> deque 1024
              in do {
                _ \<leftarrow> ASSERTMSG (failureStatus = STATUS_QUOTA_EXCEEDED);
                let (deque, \<sigma>) = KDeque_Clear kSmallBlockSize \<sigma> deque
                in do {
                  _ \<leftarrow> ASSERTMSG (KDeque_Size deque = 0);
                  let (failureStatus, deque, \<sigma>) = KDeque_EmplaceBack kSmallBlockSize sizeof_int \<sigma> deque 99
                  in do {
                    _ \<leftarrow> ASSERTMSG (NT_SUCCESS failureStatus);
                    Some (KDeque_destroy kSmallBlockSize \<sigma> deque)
                  }
                }
              }
            }
          }
        }
      })"

text \<open>
  The deque of the test with its contents, and nothing else taken from the pool since \<open>\<sigma>0\<close>.
\<close>

definition deque_holds :: "sys \<Rightarrow> sys \<Rightarrow> 'a kdeque \<Rightarrow> 'a list \<Rightarrow> bool" where
  "deque_holds \<sigma>0 \<sigma> q xs \<longleftrightarrow>
     sys_ok \<sigma> \<and> affords \<sigma> \<and> dq_ok kSmallBlockSize sizeof_int \<sigma> q \<and> dq_contents kSmallBlockSize q = xs \<and>
     owns_step \<sigma>0 {} \<sigma> (dq_owned q)"

lemma deque_holds_size: "deque_holds \<sigma>0 \<sigma> q xs \<Longrightarrow> KDeque_Size q = length xs"
  by (auto simp: deque_holds_def KDeque_Size_def dq_contents_def)

lemma deque_holds_at:
  assumes "deque_holds \<sigma>0 \<sigma> q xs" "i < length xs"
  shows "KDeque_at kSmallBlockSize q i = Some (xs ! i)"
proof -
  have n: "i < dq_size q"
    using assms deque_holds_size [OF assms(1)] by (simp add: KDeque_Size_def)
  then have "KDeque_at kSmallBlockSize q i \<noteq> None"
    using assms(1) by (simp add: deque_holds_def dq_ok_def)
  moreover have "xs ! i = the (KDeque_at kSmallBlockSize q i)"
    using assms(1) n by (auto simp: deque_holds_def dq_contents_def)
  ultimately show ?thesis
    by simp
qed

lemma deque_holds_back:
  assumes "deque_holds \<sigma>0 \<sigma> q (xs @ [x])"
  shows "KDeque_Back kSmallBlockSize q = Some x"
  using deque_holds_at [OF assms, of "length xs"] deque_holds_size [OF assms] by (simp add: KDeque_Back_def KDeque_Size_def)

lemma deque_emplace_holds:
  assumes ok: "sys_ok \<sigma>0" and h: "deque_holds \<sigma>0 \<sigma> q xs" and room: "length xs < 1024"
  obtains q' \<sigma>' where "KDeque_EmplaceBack kSmallBlockSize sizeof_int \<sigma> q x = (STATUS_SUCCESS, q', \<sigma>')"
    "deque_holds \<sigma>0 \<sigma>' q' (xs @ [x])"
proof -
  obtain r q' \<sigma>' where e: "KDeque_EmplaceBack kSmallBlockSize sizeof_int \<sigma> q x = (r, q', \<sigma>')"
    by (cases "KDeque_EmplaceBack kSmallBlockSize sizeof_int \<sigma> q x")
  have d: "sys_ok \<sigma>" "affords \<sigma>" "dq_ok kSmallBlockSize sizeof_int \<sigma> q" "owns_step \<sigma>0 {} \<sigma> (dq_owned q)"
    using h by (simp_all add: deque_holds_def)
  have "dq_size q < kMaxBlocks * kSmallBlockSize"
    using room deque_holds_size [OF h] by (simp add: KDeque_Size_def kMaxBlocks_def kSmallBlockSize_def)
  from EmplaceBack_granted [OF _ d(3) this e] have r: "r = STATUS_SUCCESS"
    using d(2) by (simp add: affords_def kSmallBlockSize_def sizeof_int_def)
  note sp = KDeque_EmplaceBack_spec [OF d(1,3) e]
  have "owns_step \<sigma> (dq_owned q) \<sigma>' (dq_owned q')" "dq_contents kSmallBlockSize q' = xs @ [x]"
    using sp r h by (auto simp: deque_holds_def)
  then have "deque_holds \<sigma>0 \<sigma>' q' (xs @ [x])"
    using sp owns_step_sys_ok affords_step d owns_step_trans [OF d(4) _ ok] by (auto simp: deque_holds_def)
  then show thesis
    using that e r by blast
qed

lemma emplace_each_holds:
  assumes ok: "sys_ok \<sigma>0"
  shows "deque_holds \<sigma>0 \<sigma> q xs \<Longrightarrow> length xs + length ys \<le> 1024 \<Longrightarrow>
    \<exists>q' \<sigma>'. emplace_each \<sigma> q ys = (q', \<sigma>') \<and> deque_holds \<sigma>0 \<sigma>' q' (xs @ ys)"
proof (induction ys arbitrary: \<sigma> q xs)
  case Nil
  then show ?case by simp
next
  case (Cons y ys)
  obtain q1 \<sigma>1 where e: "KDeque_EmplaceBack kSmallBlockSize sizeof_int \<sigma> q y = (STATUS_SUCCESS, q1, \<sigma>1)"
      "deque_holds \<sigma>0 \<sigma>1 q1 (xs @ [y])"
    using deque_emplace_holds [OF ok Cons.prems(1), of y] Cons.prems(2) by auto
  then show ?case
    using Cons.IH [OF e(2)] Cons.prems(2) by simp
qed

lemma assign_back_holds:
  assumes "deque_holds \<sigma>0 \<sigma> q (xs @ [x])"
  obtains q' where "assign_back q y = Some q'" "deque_holds \<sigma>0 \<sigma> q' (xs @ [y])"
proof -
  let ?B = kSmallBlockSize and ?n = "length xs"
  have n: "dq_size q = Suc ?n"
    using deque_holds_size [OF assms] by (simp add: KDeque_Size_def)
  have B: "?B = 2 ^ 2"
    by (simp add: kSmallBlockSize_def)
  have q: "dq_ok ?B sizeof_int \<sigma> q"
    using assms by (simp add: deque_holds_def)
  have "KDeque_at ?B q ?n \<noteq> None"
    using deque_holds_at [OF assms, of ?n] by simp
  then obtain b where b: "dq_blocks q (?n div ?B) = Some b"
    by (auto simp: at_div [OF B] split: bind_splits)
  let ?q = "q\<lparr>dq_slots := (dq_slots q)(b := (dq_slots q b)(?n mod ?B := Some y))\<rparr>"
  have run: "assign_back q y = Some ?q"
    using n b by (simp add: assign_back_def address_div [OF B])
  have inj: "c = ?n div ?B" if "dq_blocks q c = Some b" for c
    using q b that unfolding dq_ok_def by (metis domI inj_onD)
  have other: "KDeque_at ?B ?q j = KDeque_at ?B q j" if "j < ?n" for j
  proof (cases "dq_blocks q (j div ?B)")
    case None
    then show ?thesis
      by (simp add: at_div [OF B])
  next
    case (Some c)
    have "\<not> (c = b \<and> j mod ?B = ?n mod ?B)"
    proof
      assume "c = b \<and> j mod ?B = ?n mod ?B"
      then have "j div ?B = ?n div ?B" "j mod ?B = ?n mod ?B"
        using inj Some by simp_all
      then show False
        using that by (metis div_mult_mod_eq less_irrefl)
    qed
    then show ?thesis
      using Some by (auto simp: at_div [OF B])
  qed
  have last: "KDeque_at ?B ?q ?n = Some y"
    using b by (simp add: at_div [OF B])
  have "dq_contents ?B ?q = map (\<lambda>j. the (KDeque_at ?B ?q j)) [0..<?n] @ [y]"
    using last n by (simp add: dq_contents_def)
  also have "map (\<lambda>j. the (KDeque_at ?B ?q j)) [0..<?n] = map (\<lambda>j. the (KDeque_at ?B q j)) [0..<?n]"
    using other by (intro map_cong) simp_all
  also have "\<dots> = xs"
    using assms n by (simp add: deque_holds_def dq_contents_def)
  finally have "dq_contents ?B ?q = xs @ [y]" .
  moreover have "dq_ok ?B sizeof_int \<sigma> ?q"
    using q n other last unfolding dq_ok_def by (auto simp: dq_owned_def less_Suc_eq)
  ultimately show thesis
    using that run assms by (simp add: deque_holds_def dq_owned_def)
qed

text \<open>At the block limit.\<close>

lemma deque_exhausted:
  assumes "deque_holds \<sigma>0 \<sigma> q xs" "length xs = 1024"
  shows "KDeque_EmplaceBack kSmallBlockSize sizeof_int \<sigma> q x = (STATUS_QUOTA_EXCEEDED, q, \<sigma>)"
proof -
  have B: "kSmallBlockSize = 2 ^ 2" and n: "dq_size q = 1024"
    using deque_holds_size [OF assms(1)] assms(2) by (simp_all add: KDeque_Size_def kSmallBlockSize_def)
  have "(1024 :: nat) AND (kSmallBlockSize - 1) = 0" "drop_bit (Log2 kSmallBlockSize) 1024 = (256 :: nat)"
    by (simp_all only: index_arith [OF B]) (simp_all add: kSmallBlockSize_def)
  then show ?thesis
    by (simp add: KDeque_EmplaceBack_def AllocateBlock_def n kMaxBlocks_def)
qed

lemma deque_clear_holds:
  assumes ok: "sys_ok \<sigma>0" and h: "deque_holds \<sigma>0 \<sigma> q xs"
  obtains q' \<sigma>' where "KDeque_Clear kSmallBlockSize \<sigma> q = (q', \<sigma>')" "deque_holds \<sigma>0 \<sigma>' q' []"
proof -
  obtain q' \<sigma>' where c: "KDeque_Clear kSmallBlockSize \<sigma> q = (q', \<sigma>')"
    by fastforce
  have d: "sys_ok \<sigma>" "affords \<sigma>" "dq_ok kSmallBlockSize sizeof_int \<sigma> q" "owns_step \<sigma>0 {} \<sigma> (dq_owned q)"
    using h by (simp_all add: deque_holds_def)
  note sp = KDeque_Clear_spec [OF d(1,3) c]
  have "deque_holds \<sigma>0 \<sigma>' q' []"
    using sp(1-3) owns_step_trans [OF d(4) sp(4) ok] owns_step_sys_ok [OF sp(4)] affords_step [OF sp(4)] d(2)
    by (simp add: deque_holds_def)
  then show thesis
    using that c by blast
qed

lemma deque_new_holds: "sys_ok \<sigma> \<Longrightarrow> affords \<sigma> \<Longrightarrow> deque_holds \<sigma> \<sigma> KDeque_new []"
  using dq_ok_new [of kSmallBlockSize 2] owns_step_refl [of \<sigma> "{}"] by (simp add: deque_holds_def kSmallBlockSize_def)

theorem TestDequeCorrectness_ok:
  assumes ok: "sys_ok \<sigma>" "affords \<sigma>"
  obtains \<sigma>' where "TestDequeCorrectness \<sigma> = Some \<sigma>'" "owns_step \<sigma> {} \<sigma>' {}"
proof -
  obtain q1 \<sigma>1 where s1: "emplace_each \<sigma> KDeque_new (ints 0 4) = (q1, \<sigma>1)" "deque_holds \<sigma> \<sigma>1 q1 (ints 0 4)"
    using emplace_each_holds [OF ok(1) deque_new_holds [OF ok], of "ints 0 4"] by (auto simp: ints_def)
  have five: "ints 0 4 @ [4] = ints 0 5"
    by code_simp
  obtain q2 \<sigma>2 where s2: "KDeque_EmplaceBack kSmallBlockSize sizeof_int \<sigma>1 q1 4 = (STATUS_SUCCESS, q2, \<sigma>2)"
      "deque_holds \<sigma> \<sigma>2 q2 (ints 0 5)"
    by (rule deque_emplace_holds [OF ok(1) s1(2), of 4]) (simp_all add: five, simp add: ints_def)
  obtain q3 \<sigma>3 where s3: "KDeque_EmplaceBack kSmallBlockSize sizeof_int \<sigma>2 q2 42 = (STATUS_SUCCESS, q3, \<sigma>3)"
      "deque_holds \<sigma> \<sigma>3 q3 (ints 0 5 @ [42])"
    by (rule deque_emplace_holds [OF ok(1) s2(2), of 42]) (simp_all add: ints_def)
  obtain q4 where s4: "assign_back q3 84 = Some q4" "deque_holds \<sigma> \<sigma>3 q4 (ints 0 5 @ [84])"
    by (rule assign_back_holds [OF s3(2), of 84])
  obtain q5 \<sigma>5 where s5: "emplace_each \<sigma>3 q4 (ints 6 1024) = (q5, \<sigma>5)" "deque_holds \<sigma> \<sigma>5 q5 ((ints 0 5 @ [84]) @ ints 6 1024)"
    using emplace_each_holds [OF ok(1) s4(2), of "ints 6 1024"] by (auto simp: ints_def)
  have full: "length ((ints 0 5 @ [84]) @ ints 6 1024) = 1024"
    by (simp add: ints_def)
  note s6 = deque_exhausted [OF s5(2) full]
  obtain q7 \<sigma>7 where s7: "KDeque_Clear kSmallBlockSize \<sigma>5 q5 = (q7, \<sigma>7)" "deque_holds \<sigma> \<sigma>7 q7 []"
    by (rule deque_clear_holds [OF ok(1) s5(2)])
  obtain q8 \<sigma>8 where s8: "KDeque_EmplaceBack kSmallBlockSize sizeof_int \<sigma>7 q7 99 = (STATUS_SUCCESS, q8, \<sigma>8)"
      "deque_holds \<sigma> \<sigma>8 q8 ([] @ [99])"
    by (rule deque_emplace_holds [OF ok(1) s7(2), of 99]) simp_all
  have at4: "KDeque_at kSmallBlockSize q2 4 = Some 4" "KDeque_at kSmallBlockSize q4 4 = Some 4"
    using deque_holds_at [OF s2(2), of 4] deque_holds_at [OF s4(2), of 4] by (simp_all add: ints_def nth_append)
  note sizes = deque_holds_size [OF s1(2)] deque_holds_size [OF s2(2)] deque_holds_size [OF s5(2), unfolded full]
    deque_holds_size [OF s7(2)]
  note backs = deque_holds_back [OF s3(2)] deque_holds_back [OF s4(2)]
  have "TestDequeCorrectness \<sigma> = Some (KDeque_destroy kSmallBlockSize \<sigma>8 q8)"
    by (simp add: TestDequeCorrectness_def s1(1) s2(1) s3(1) s4(1) s5(1) s6 s7(1) s8(1) at4 sizes backs)
      (simp add: ints_def)
  moreover have "owns_step \<sigma> {} (KDeque_destroy kSmallBlockSize \<sigma>8 q8) {}"
  proof -
    have d: "sys_ok \<sigma>8" "dq_ok kSmallBlockSize sizeof_int \<sigma>8 q8" "owns_step \<sigma> {} \<sigma>8 (dq_owned q8)"
      using s8(2) by (simp_all add: deque_holds_def)
    show ?thesis
      by (rule owns_step_trans [OF d(3) KDeque_destroy_spec [OF d(1,2)] ok(1)])
  qed
  ultimately show thesis
    by (rule that)
qed

end
