(* ===== verification/VectorTests.thy ===== *)
theory VectorTests
  imports ContainerTests
begin

text \<open>
  \<open>TestVectorCorrectness\<close> of ContainerTests.cpp. Each block of the function is a definition of its
  own; a block destroys its vectors at its end, the last one made first. The block that counts
  destructor calls is left out: the calls on elements are not part of the model.
\<close>

section \<open>The test\<close>

definition SIZE_MAX :: nat where "SIZE_MAX = 2 ^ 64 - 1"

text \<open>A loop of \<open>PushBack\<close> whose status nobody reads.\<close>

fun push_each :: "nat \<Rightarrow> sys \<Rightarrow> 'a kvector \<Rightarrow> 'a list \<Rightarrow> 'a kvector \<times> sys" where
  "push_each sz \<sigma> v [] = (v, \<sigma>)"
| "push_each sz \<sigma> v (x # xs) = (let (_, v, \<sigma>) = KVector_PushBack sz \<sigma> v x in push_each sz \<sigma> v xs)"

text \<open>Assigning to an element.\<close>

definition assign_elem :: "'a kvector \<Rightarrow> nat \<Rightarrow> 'a \<Rightarrow> 'a kvector option" where
  "assign_elem v i x = do { xs \<leftarrow> wr (kv_elems v) i x; Some (v\<lparr>kv_elems := xs\<rparr>) }"

definition vector_pushing :: "sys \<Rightarrow> (32 word kvector \<times> sys) option" where
  "vector_pushing \<sigma> =
     (let intVec = KVector_new
      in do {
        _ \<leftarrow> ASSERTMSG (KVector_IsEmpty intVec);
        _ \<leftarrow> ASSERTMSG (KVector_Size intVec = 0);
        let (status, intVec, \<sigma>) = KVector_PushBack sizeof_int \<sigma> intVec 10
        in do {
          _ \<leftarrow> ASSERTMSG (NT_SUCCESS status);
          x \<leftarrow> KVector_nth_elem intVec 0;
          _ \<leftarrow> ASSERTMSG (x = 10);
          let (intVec, \<sigma>) = push_each sizeof_int \<sigma> intVec (map (\<lambda>i. word_of_nat (i * 10)) [1..<11])
          in do {
            _ \<leftarrow> ASSERTMSG (KVector_Size intVec = 11);
            x \<leftarrow> KVector_Back intVec;
            _ \<leftarrow> ASSERTMSG (x = 100);
            Some (intVec, \<sigma>)
          }
        }
      })"

text \<open>The check of the element in \<open>emptyVec\<close> is an assignment in the source.\<close>

definition vector_inserting :: "sys \<Rightarrow> 32 word kvector \<Rightarrow> (32 word kvector \<times> 32 word kvector \<times> sys) option" where
  "vector_inserting \<sigma> intVec =
     (let (status, intVec, \<sigma>) = KVector_Insert True sizeof_int \<sigma> intVec 5 999
      in do {
        _ \<leftarrow> ASSERTMSG (NT_SUCCESS status);
        x \<leftarrow> KVector_nth_elem intVec 5;
        _ \<leftarrow> ASSERTMSG (x = 999);
        let (status, intVec, \<sigma>) = KVector_Insert True sizeof_int \<sigma> intVec 0 111
        in do {
          _ \<leftarrow> ASSERTMSG (NT_SUCCESS status);
          x \<leftarrow> KVector_nth_elem intVec 0;
          _ \<leftarrow> ASSERTMSG (x = 111);
          let (status, intVec, \<sigma>) = KVector_Insert True sizeof_int \<sigma> intVec (KVector_Size intVec) 555
          in do {
            _ \<leftarrow> ASSERTMSG (NT_SUCCESS status);
            x \<leftarrow> KVector_Back intVec;
            _ \<leftarrow> ASSERTMSG (x = 555);
            let (status, emptyVec, \<sigma>) = KVector_Insert True sizeof_int \<sigma> KVector_new 0 777
            in do {
              _ \<leftarrow> ASSERTMSG (NT_SUCCESS status);
              emptyVec \<leftarrow> assign_elem emptyVec 0 777;
              _ \<leftarrow> ASSERTMSG ((777 :: 32 word) \<noteq> 0);
              _ \<leftarrow> ASSERTMSG (KVector_Size emptyVec = 1);
              Some (intVec, emptyVec, \<sigma>)
            }
          }
        }
      })"

definition vector_cloning :: "sys \<Rightarrow> sys option" where
  "vector_cloning \<sigma> =
     (let (sourceVec, \<sigma>) = push_each sizeof_int \<sigma> KVector_new [10, 20, 30 :: 32 word];
          (status, destVec, \<sigma>) = KVector_Clone sizeof_int \<sigma> sourceVec (Some KVector_new)
      in do {
        destVec \<leftarrow> destVec;
        _ \<leftarrow> ASSERTMSG (NT_SUCCESS status);
        _ \<leftarrow> ASSERTMSG (KVector_Size destVec = 3);
        x \<leftarrow> KVector_nth_elem destVec 1;
        _ \<leftarrow> ASSERTMSG (x = 20);
        destVec \<leftarrow> assign_elem destVec 1 99;
        x \<leftarrow> KVector_nth_elem sourceVec 1;
        _ \<leftarrow> ASSERTMSG (x = 20);
        x \<leftarrow> KVector_nth_elem destVec 1;
        _ \<leftarrow> ASSERTMSG (x = 99);
        Some (KVector_destroy (KVector_destroy \<sigma> destVec) sourceVec)
      })"

text \<open>The two loops run over the elements from \<open>begin()\<close> to \<open>end()\<close>.\<close>

definition vector_iterating :: "32 word kvector \<Rightarrow> unit option" where
  "vector_iterating intVec =
     (let iteratorSum = foldl (+) 0 (kv_elems intVec)
      in do {
        _ \<leftarrow> ASSERTMSG (0 <s iteratorSum);
        x \<leftarrow> KVector_nth_elem intVec 0;
        _ \<leftarrow> ASSERTMSG (x = 111);
        let constIteratorSum = foldl (+) 0 (kv_elems intVec)
        in ASSERTMSG (constIteratorSum = iteratorSum)
      })"

definition vector_moving :: "sys \<Rightarrow> sys option" where
  "vector_moving \<sigma> =
     (let (svoVec, \<sigma>) = push_each sizeof_int \<sigma> KVector_new [1, 2 :: 32 word];
          (movedVec, svoVec) = KVector_move_construct svoVec
      in do {
        _ \<leftarrow> ASSERTMSG (KVector_Size movedVec = 2);
        _ \<leftarrow> ASSERTMSG (KVector_Size svoVec = 0);
        let (_, dynamicVec, \<sigma>) = KVector_Reserve sizeof_int \<sigma> KVector_new 100;
            (_, dynamicVec, \<sigma>) = KVector_PushBack sizeof_int \<sigma> dynamicVec 99;
            (dynamicVec, movedVec, \<sigma>) = KVector_move_assign \<sigma> dynamicVec movedVec
        in do {
          _ \<leftarrow> ASSERTMSG (KVector_Size dynamicVec = 2);
          Some (KVector_destroy (KVector_destroy (KVector_destroy \<sigma> dynamicVec) movedVec) svoVec)
        }
      })"

text \<open>\<open>NonTrivial\<close> is a pair of integers whose copies run code.\<close>

type_synonym non_trivial = "32 word \<times> 32 word"

definition sizeof_NonTrivial :: nat where "sizeof_NonTrivial = 8"

definition vector_non_trivial :: "sys \<Rightarrow> sys option" where
  "vector_non_trivial \<sigma> =
     (let (ntVec, \<sigma>) = push_each sizeof_NonTrivial \<sigma> KVector_new [(10, 20), (30, 40), (50, 60) :: non_trivial];
          (ntStatus, ntVec, \<sigma>) = KVector_Reserve sizeof_NonTrivial \<sigma> ntVec 20
      in do {
        _ \<leftarrow> ASSERTMSG (NT_SUCCESS ntStatus);
        x \<leftarrow> KVector_nth_elem ntVec 2;
        _ \<leftarrow> ASSERTMSG (fst x = 50);
        let (ntStatus, clonedVec, \<sigma>) = KVector_Clone sizeof_NonTrivial \<sigma> ntVec (Some KVector_new)
        in do {
          clonedVec \<leftarrow> clonedVec;
          _ \<leftarrow> ASSERTMSG (NT_SUCCESS ntStatus);
          x \<leftarrow> KVector_nth_elem clonedVec 1;
          _ \<leftarrow> ASSERTMSG (snd x = 40);
          let (_, clonedVec, \<sigma>) = KVector_Insert False sizeof_NonTrivial \<sigma> clonedVec 1 (99, 99)
          in do {
            x \<leftarrow> KVector_nth_elem clonedVec 2;
            _ \<leftarrow> ASSERTMSG (fst x = 30);
            x \<leftarrow> KVector_nth_elem clonedVec 1;
            _ \<leftarrow> ASSERTMSG (fst x = 99);
            Some (KVector_destroy (KVector_destroy \<sigma> clonedVec) ntVec)
          }
        }
      })"

definition vector_rehoming :: "sys \<Rightarrow> sys option" where
  "vector_rehoming \<sigma> =
     (let (_, vecDest, \<sigma>) = KVector_Reserve sizeof_int \<sigma> KVector_new 100;
          (_, vecDest, \<sigma>) = KVector_PushBack sizeof_int \<sigma> vecDest (10 :: 32 word);
          (_, vecSource, \<sigma>) = KVector_Reserve sizeof_int \<sigma> KVector_new 100;
          (_, vecSource, \<sigma>) = KVector_PushBack sizeof_int \<sigma> vecSource 99;
          (vecDest, vecSource, \<sigma>) = KVector_move_assign \<sigma> vecDest vecSource
      in do {
        _ \<leftarrow> ASSERTMSG (KVector_Size vecDest = 1);
        x \<leftarrow> KVector_nth_elem vecDest 0;
        _ \<leftarrow> ASSERTMSG (x = 99);
        Some (KVector_destroy (KVector_destroy \<sigma> vecSource) vecDest)
      })"

definition vector_limits :: "sys \<Rightarrow> sys option" where
  "vector_limits \<sigma> =
     (let (limitStatus, limitVec, \<sigma>) = KVector_Reserve sizeof_int \<sigma> (KVector_new :: 32 word kvector) SIZE_MAX
      in do {
        _ \<leftarrow> ASSERTMSG (limitStatus = STATUS_INTEGER_OVERFLOW \<or> limitStatus = STATUS_INSUFFICIENT_RESOURCES);
        let impossibleCapacity = SIZE_MAX div sizeof_int - 1;
            (limitStatus, limitVec, \<sigma>) = KVector_Reserve sizeof_int \<sigma> limitVec impossibleCapacity
        in do {
          _ \<leftarrow> ASSERTMSG (limitStatus = STATUS_INSUFFICIENT_RESOURCES);
          Some (KVector_destroy \<sigma> limitVec)
        }
      })"

definition TestVectorCorrectness :: "sys \<Rightarrow> sys option" where
  "TestVectorCorrectness \<sigma> =
     do {
       (intVec, \<sigma>) \<leftarrow> vector_pushing \<sigma>;
       (intVec, emptyVec, \<sigma>) \<leftarrow> vector_inserting \<sigma> intVec;
       \<sigma> \<leftarrow> vector_cloning \<sigma>;
       _ \<leftarrow> vector_iterating intVec;
       \<sigma> \<leftarrow> vector_moving \<sigma>;
       \<sigma> \<leftarrow> vector_non_trivial \<sigma>;
       \<sigma> \<leftarrow> vector_rehoming \<sigma>;
       \<sigma> \<leftarrow> vector_limits \<sigma>;
       Some (KVector_destroy (KVector_destroy \<sigma> emptyVec) intVec)
     }"

section \<open>Several vectors over one pool\<close>

text \<open>
  The vectors of a block, each well formed, all apart, and together owning what has been taken
  from the pool since the state \<open>\<sigma>0\<close>.
\<close>

definition vectors :: "nat \<Rightarrow> sys \<Rightarrow> sys \<Rightarrow> 'a kvector list \<Rightarrow> bool" where
  "vectors sz \<sigma>0 \<sigma> vs \<longleftrightarrow>
     sys_ok \<sigma>0 \<and> sz \<le> 2 ^ 16 \<and> affords \<sigma> \<and> (\<forall>v \<in> set vs. kv_ok sz \<sigma> v) \<and> apart (map kv_owned vs) \<and>
     owns_step \<sigma>0 {} \<sigma> (\<Union> (set (map kv_owned vs)))"

lemma vectors_sys: "vectors sz \<sigma>0 \<sigma> vs \<Longrightarrow> sys_ok \<sigma> \<and> affords \<sigma> \<and> sz \<le> 2 ^ 16"
  unfolding vectors_def using owns_step_sys_ok by blast

lemma vectors_ok: "vectors sz \<sigma>0 \<sigma> vs \<Longrightarrow> i < length vs \<Longrightarrow> kv_ok sz \<sigma> (vs ! i)"
  by (simp add: vectors_def)

lemma vectors_nil: "sys_ok \<sigma> \<Longrightarrow> affords \<sigma> \<Longrightarrow> sz \<le> 2 ^ 16 \<Longrightarrow> vectors sz \<sigma> \<sigma> []"
  by (simp add: vectors_def owns_step_refl)

text \<open>A vector without a block of its own can be added, or left out.\<close>

lemma vectors_cons: "vectors sz \<sigma>0 \<sigma> (KVector_new # vs) \<longleftrightarrow> vectors sz \<sigma>0 \<sigma> vs"
  by (auto simp: vectors_def)

lemma vectors_step:
  assumes v: "vectors sz \<sigma>0 \<sigma> vs" and i: "i < length vs"
    and st: "owns_step \<sigma> (kv_owned (vs ! i)) \<sigma>' (kv_owned v')" "kv_ok sz \<sigma>' v'"
  shows "vectors sz \<sigma>0 \<sigma>' (vs[i := v'])"
proof -
  let ?As = "map kv_owned vs"
  have sys: "sys_ok \<sigma>" and own: "owns_step \<sigma>0 {} \<sigma> (\<Union> (set ?As))" and ap: "apart ?As" and \<sigma>0: "sys_ok \<sigma>0"
    using v vectors_sys [OF v] by (simp_all add: vectors_def)
  have ok: "kv_ok sz \<sigma> w" if "w \<in> set vs" for w
    using v that by (simp add: vectors_def)
  have dom: "\<forall>A \<in> set ?As. A \<subseteq> dom (live \<sigma>)"
    using kv_ok_owned [OF ok] by simp
  have "i < length ?As" "owns_step \<sigma> (?As ! i) \<sigma>' (kv_owned v')"
    using i st(1) by simp_all
  note ps = part_step [OF sys ap dom this]
  have "kv_ok sz \<sigma>' w" if "w \<in> set (vs[i := v'])" for w
  proof -
    obtain j where j: "j < length vs" "w = vs[i := v'] ! j"
      using \<open>w \<in> set (vs[i := v'])\<close> by (auto simp: in_set_conv_nth)
    show ?thesis
    proof (cases "j = i")
      case True
      then show ?thesis
        using j st(2) by simp
    next
      case False
      then have "\<forall>b \<in> kv_owned (vs ! j). live \<sigma>' b = live \<sigma> b"
        using ps(3) [of j] j(1) by simp
      then show ?thesis
        using kv_ok_frame [OF ok] j False by simp
    qed
  qed
  moreover have "map kv_owned (vs[i := v']) = ?As[i := kv_owned v']"
    by (rule map_update)
  moreover have "affords \<sigma>'"
    using affords_step [OF st(1)] vectors_sys [OF v] by simp
  ultimately show ?thesis
    using v ps(1) owns_step_trans [OF own ps(2) \<sigma>0] by (simp add: vectors_def)
qed

text \<open>Other work over the same pool.\<close>

lemma vectors_frame:
  assumes "vectors sz \<sigma>0 \<sigma> vs" "owns_step \<sigma> {} \<sigma>' {}"
  shows "vectors sz \<sigma>0 \<sigma>' vs"
  using vectors_step [of sz \<sigma>0 \<sigma> "KVector_new # vs" 0 \<sigma>' KVector_new] assms by (simp add: vectors_cons)

text \<open>At the end of a block all of its vectors are gone.\<close>

lemma vectors_done: "vectors sz \<sigma>0 \<sigma> vs \<Longrightarrow> \<forall>v \<in> set vs. v = KVector_new \<Longrightarrow> owns_step \<sigma>0 {} \<sigma> {}"
proof -
  assume "vectors sz \<sigma>0 \<sigma> vs" "\<forall>v \<in> set vs. v = KVector_new"
  moreover from this(2) have "\<Union> (set (map kv_owned vs)) = {}"
    by auto
  ultimately show ?thesis
    unfolding vectors_def by metis
qed

section \<open>The operations on one of the vectors\<close>

lemma vectors_push:
  assumes v: "vectors sz \<sigma>0 \<sigma> vs" "i < length vs" "length (kv_elems (vs ! i)) < 2 ^ 40"
  obtains v' \<sigma>' where "KVector_PushBack sz \<sigma> (vs ! i) x = (STATUS_SUCCESS, v', \<sigma>')"
    "kv_elems v' = kv_elems (vs ! i) @ [x]" "vectors sz \<sigma>0 \<sigma>' (vs[i := v'])"
proof -
  obtain r v' \<sigma>' where e: "KVector_PushBack sz \<sigma> (vs ! i) x = (r, v', \<sigma>')"
    by (cases "KVector_PushBack sz \<sigma> (vs ! i) x")
  have d: "sys_ok \<sigma>" "affords \<sigma>" "kv_ok sz \<sigma> (vs ! i)" "sz \<le> 2 ^ 16"
    using vectors_sys [OF v(1)] vectors_ok [OF v(1,2)] by simp_all
  have r: "r = STATUS_SUCCESS"
    by (rule PushBack_room [OF d v(3) e])
  show thesis
    using that vectors_step [OF v(1,2), of \<sigma>' v'] PushBack_spec [OF d(1,3) e] e r by auto
qed

lemma vectors_push_each:
  "vectors sz \<sigma>0 \<sigma> vs \<Longrightarrow> i < length vs \<Longrightarrow> length (kv_elems (vs ! i)) + length xs < 2 ^ 40 \<Longrightarrow>
   \<exists>v' \<sigma>'. push_each sz \<sigma> (vs ! i) xs = (v', \<sigma>') \<and> kv_elems v' = kv_elems (vs ! i) @ xs \<and>
     vectors sz \<sigma>0 \<sigma>' (vs[i := v'])"
proof (induction xs arbitrary: \<sigma> vs)
  case Nil
  then show ?case by simp
next
  case (Cons x xs)
  obtain v1 \<sigma>1 where e: "KVector_PushBack sz \<sigma> (vs ! i) x = (STATUS_SUCCESS, v1, \<sigma>1)"
      "kv_elems v1 = kv_elems (vs ! i) @ [x]" "vectors sz \<sigma>0 \<sigma>1 (vs[i := v1])"
    by (rule vectors_push [OF Cons.prems(1,2), of x]) (use Cons.prems(3) in auto)
  then show ?case
    using Cons.IH [OF e(3)] Cons.prems(2,3) by auto
qed

lemma vectors_insert:
  assumes v: "vectors sz \<sigma>0 \<sigma> vs" "i < length vs" "length (kv_elems (vs ! i)) < 2 ^ 40"
    and at: "k \<le> length (kv_elems (vs ! i))"
  obtains v' \<sigma>' where "KVector_Insert triv sz \<sigma> (vs ! i) k x = (STATUS_SUCCESS, v', \<sigma>')"
    "kv_elems v' = take k (kv_elems (vs ! i)) @ x # drop k (kv_elems (vs ! i))" "vectors sz \<sigma>0 \<sigma>' (vs[i := v'])"
proof -
  obtain r v' \<sigma>' where e: "KVector_Insert triv sz \<sigma> (vs ! i) k x = (r, v', \<sigma>')"
    by (cases "KVector_Insert triv sz \<sigma> (vs ! i) k x")
  have d: "sys_ok \<sigma>" "affords \<sigma>" "kv_ok sz \<sigma> (vs ! i)" "sz \<le> 2 ^ 16"
    using vectors_sys [OF v(1)] vectors_ok [OF v(1,2)] by simp_all
  have r: "r = STATUS_SUCCESS"
    by (rule Insert_room [OF d v(3) at e])
  show thesis
    using that vectors_step [OF v(1,2), of \<sigma>' v'] Insert_spec [OF d(1,3) e] e r by auto
qed

lemma vectors_reserve:
  assumes v: "vectors sz \<sigma>0 \<sigma> vs" "i < length vs" "n < 2 ^ 42"
  obtains v' \<sigma>' where "KVector_Reserve sz \<sigma> (vs ! i) n = (STATUS_SUCCESS, v', \<sigma>')"
    "kv_elems v' = kv_elems (vs ! i)" "vectors sz \<sigma>0 \<sigma>' (vs[i := v'])"
proof -
  obtain r v' \<sigma>' where e: "KVector_Reserve sz \<sigma> (vs ! i) n = (r, v', \<sigma>')"
    by (cases "KVector_Reserve sz \<sigma> (vs ! i) n")
  have d: "sys_ok \<sigma>" "affords \<sigma>" "kv_ok sz \<sigma> (vs ! i)" "sz \<le> 2 ^ 16"
    using vectors_sys [OF v(1)] vectors_ok [OF v(1,2)] by simp_all
  have r: "r = STATUS_SUCCESS"
    by (rule Reserve_room [OF d(1,2,4) v(3) e])
  show thesis
    using that vectors_step [OF v(1,2), of \<sigma>' v'] KVector_Reserve_spec [OF d(1,3) e] e r by auto
qed

lemma vectors_clone:
  assumes v: "vectors sz \<sigma>0 \<sigma> vs" "i < length vs" "length (kv_elems w) < 2 ^ 42"
  obtains v' \<sigma>' where "KVector_Clone sz \<sigma> w (Some (vs ! i)) = (STATUS_SUCCESS, Some v', \<sigma>')"
    "kv_elems v' = kv_elems w" "vectors sz \<sigma>0 \<sigma>' (vs[i := v'])"
proof -
  obtain r o' \<sigma>' where e: "KVector_Clone sz \<sigma> w (Some (vs ! i)) = (r, o', \<sigma>')"
    by (cases "KVector_Clone sz \<sigma> w (Some (vs ! i))")
  have d: "sys_ok \<sigma>" "affords \<sigma>" "kv_ok sz \<sigma> (vs ! i)" "sz \<le> 2 ^ 16"
    using vectors_sys [OF v(1)] vectors_ok [OF v(1,2)] by simp_all
  have r: "r = STATUS_SUCCESS"
    using Reserve_room [OF d(1,2,4) v(3)] e by (auto simp: KVector_Clone_def Let_def split: if_splits prod.splits)
  obtain v' where v': "o' = Some v'" "kv_ok sz \<sigma>' v'" "owns_step \<sigma> (kv_owned (vs ! i)) \<sigma>' (kv_owned v')"
      "kv_elems v' = kv_elems w"
    using Clone_spec [OF d(1,3) e] r by auto
  show thesis
    using that vectors_step [OF v(1,2) v'(3,2)] v'(1,4) e r by simp
qed

lemma vectors_destroy:
  assumes v: "vectors sz \<sigma>0 \<sigma> vs" "i < length vs"
  shows "vectors sz \<sigma>0 (KVector_destroy \<sigma> (vs ! i)) (vs[i := KVector_new])"
  using vectors_step [OF v, of "KVector_destroy \<sigma> (vs ! i)" KVector_new] vectors_sys [OF v(1)]
    KVector_destroy_spec [OF _ vectors_ok [OF v]] by simp

lemma assign_elem_elems:
  assumes "i < length (kv_elems v)"
  shows "assign_elem v i x = Some (v\<lparr>kv_elems := (kv_elems v)[i := x]\<rparr>)"
  using assms by (simp add: assign_elem_def)

lemma vectors_assign:
  assumes v: "vectors sz \<sigma>0 \<sigma> vs" "i < length vs" and len: "length xs = length (kv_elems (vs ! i))"
  shows "vectors sz \<sigma>0 \<sigma> (vs[i := (vs ! i)\<lparr>kv_elems := xs\<rparr>])"
proof (rule vectors_step [OF v])
  have "kv_owned ((vs ! i)\<lparr>kv_elems := xs\<rparr>) = kv_owned (vs ! i)"
    by (simp add: kv_owned_def)
  then show "owns_step \<sigma> (kv_owned (vs ! i)) \<sigma> (kv_owned ((vs ! i)\<lparr>kv_elems := xs\<rparr>))"
    using owns_step_refl kv_ok_owned [OF vectors_ok [OF v]] vectors_sys [OF v(1)] by simp
  show "kv_ok sz \<sigma> ((vs ! i)\<lparr>kv_elems := xs\<rparr>)"
    using vectors_ok [OF v] len by (simp add: kv_ok_def split: option.split_asm)
qed

text \<open>Moving hands the block of one vector to another that has none.\<close>

lemma vectors_move:
  assumes v: "vectors sz \<sigma>0 \<sigma> vs" "i < length vs" "j < length vs" "i \<noteq> j" "kv_owned (vs ! i) = {}"
    and m: "KVector_move_construct (vs ! j) = (a, b)"
  shows "vectors sz \<sigma>0 \<sigma> (vs[i := a, j := b])" "kv_elems a = kv_elems (vs ! j)" "kv_elems b = []"
proof -
  note mc = KVector_move_construct_spec [OF vectors_ok [OF v(1,3)] m]
  show "kv_elems a = kv_elems (vs ! j)" "kv_elems b = []"
    using mc by simp_all
  let ?As = "map kv_owned vs" and ?Bs = "map kv_owned (vs[i := a, j := b])"
  have B: "?Bs = ?As[i := ?As ! j, j := {}]"
    using mc(3,6) v(2,3) by (simp add: map_update)
  have nth: "?Bs ! k = (if k = j then {} else if k = i then ?As ! j else ?As ! k)" if "k < length vs" for k
    using that v(4) by (simp add: B)
  have i: "?As ! i = {}"
    using v(2,5) by simp
  have ap: "apart ?As"
    using v(1) by (simp add: vectors_def)
  have "apart ?Bs"
    unfolding apart_nth
  proof (intro allI impI)
    fix k l
    assume kl: "k < length ?Bs" "l < length ?Bs" "k \<noteq> l"
    then show "?Bs ! k \<inter> ?Bs ! l = {}"
      using ap v(2-4) nth [of k] nth [of l] unfolding apart_nth by auto
  qed
  moreover have "\<Union> (set ?Bs) = \<Union> (set ?As)"
  proof -
    have U: "\<Union> (set Xs) = (\<Union>k < length vs. Xs ! k)" if "length Xs = length vs" for Xs :: "nat set list"
      using that by (auto simp: set_conv_nth)
    have "(\<Union>k < length vs. ?Bs ! k) = (\<Union>k < length vs. ?As ! k)"
    proof (intro subset_antisym UN_least)
      fix k
      assume "k \<in> {..<length vs}"
      then show "?Bs ! k \<subseteq> (\<Union>k < length vs. ?As ! k)"
        using nth [of k] v(3) by auto
    next
      fix k
      assume k: "k \<in> {..<length vs}"
      show "?As ! k \<subseteq> (\<Union>k < length vs. ?Bs ! k)"
      proof (cases "k = j")
        case True
        then have "?As ! k = ?Bs ! i"
          using nth [OF v(2)] v(4) by simp
        then show ?thesis
          using v(2) by blast
      next
        case False
        then show ?thesis
          using nth [of k] k i by (cases "k = i") auto
      qed
    qed
    then show ?thesis
      by (simp only: U length_map length_list_update)
  qed
  moreover have "kv_ok sz \<sigma> w" if "w \<in> set (vs[i := a, j := b])" for w
    using that v(1) mc(1,4) set_update_subset_insert [of "vs[i := a]" j b] set_update_subset_insert [of vs i a]
    unfolding vectors_def by blast
  ultimately show "vectors sz \<sigma>0 \<sigma> (vs[i := a, j := b])"
    using v(1) by (simp add: vectors_def)
qed

lemma vectors_move_assign:
  assumes v: "vectors sz \<sigma>0 \<sigma> vs" "i < length vs" "j < length vs" "i \<noteq> j"
  obtains a b \<sigma>' where "KVector_move_assign \<sigma> (vs ! i) (vs ! j) = (a, b, \<sigma>')"
    "vectors sz \<sigma>0 \<sigma>' (vs[i := a, j := b])" "kv_elems a = kv_elems (vs ! j)" "kv_elems b = []"
proof -
  obtain a b where m: "KVector_move_construct (vs ! j) = (a, b)"
    by fastforce
  have e: "KVector_move_assign \<sigma> (vs ! i) (vs ! j) = (a, b, KVector_destroy \<sigma> (vs ! i))"
    by (simp add: KVector_move_assign_def KVector_destroy_def m)
  have "vs[i := KVector_new] ! j = vs ! j" "kv_owned (vs[i := KVector_new] ! i) = {}"
    using v by simp_all
  then show thesis
    using that [OF e] vectors_move [OF vectors_destroy [OF v(1,2)], of i j a b] v m by simp
qed

section \<open>The blocks pass\<close>

lemma vectors_destroy2:
  assumes "vectors sz \<sigma>0 \<sigma> [a, b]"
  shows "owns_step \<sigma>0 {} (KVector_destroy (KVector_destroy \<sigma> b) a) {}"
proof -
  have "vectors sz \<sigma>0 (KVector_destroy \<sigma> b) [a, KVector_new]"
    using vectors_destroy [OF assms, of 1] by simp
  from vectors_destroy [OF this, of 0] vectors_done show ?thesis
    by fastforce
qed

lemma vectors_destroy3:
  assumes "vectors sz \<sigma>0 \<sigma> [a, b, c]"
  shows "owns_step \<sigma>0 {} (KVector_destroy (KVector_destroy (KVector_destroy \<sigma> c) b) a) {}"
proof -
  have "vectors sz \<sigma>0 (KVector_destroy \<sigma> c) [a, b, KVector_new]"
    using vectors_destroy [OF assms, of 2] by simp
  from vectors_destroy [OF this, of 1] have "vectors sz \<sigma>0 (KVector_destroy (KVector_destroy \<sigma> c) b) [a, KVector_new, KVector_new]"
    by simp
  from vectors_destroy [OF this, of 0] vectors_done show ?thesis
    by fastforce
qed

lemmas vector_queries = KVector_Size_def KVector_IsEmpty_def KVector_nth_elem_def KVector_Back_def

lemma vectors_start:
  assumes "sys_ok \<sigma>" "affords \<sigma>"
  shows "vectors sizeof_int \<sigma> \<sigma> [KVector_new, KVector_new]" "vectors sizeof_int \<sigma> \<sigma> [KVector_new, KVector_new, KVector_new]"
    "vectors sizeof_NonTrivial \<sigma> \<sigma> [KVector_new, KVector_new]"
  using assms by (simp_all add: vectors_cons vectors_nil sizeof_int_def sizeof_NonTrivial_def)

lemma vector_pushing_ok:
  assumes v: "vectors sizeof_int \<sigma>0 \<sigma> [KVector_new, w]"
  obtains intVec \<sigma>' where "vector_pushing \<sigma> = Some (intVec, \<sigma>')" "vectors sizeof_int \<sigma>0 \<sigma>' [intVec, w]"
    "kv_elems intVec = [10, 10, 20, 30, 40, 50, 60, 70, 80, 90, 100]"
proof -
  obtain v1 \<sigma>1 where s1: "KVector_PushBack sizeof_int \<sigma> KVector_new (10 :: 32 word) = (STATUS_SUCCESS, v1, \<sigma>1)"
      "kv_elems v1 = [10]" "vectors sizeof_int \<sigma>0 \<sigma>1 [v1, w]"
    by (rule vectors_push [OF v, of 0 10]) simp_all
  have tens: "map (\<lambda>i. word_of_nat (i * 10)) [1..<11] = [10, 20, 30, 40, 50, 60, 70, 80, 90, 100 :: 32 word]"
    by code_simp
  obtain v2 \<sigma>2 where s2: "push_each sizeof_int \<sigma>1 v1 [10, 20, 30, 40, 50, 60, 70, 80, 90, 100] = (v2, \<sigma>2)"
      "kv_elems v2 = [10, 10, 20, 30, 40, 50, 60, 70, 80, 90, 100]" "vectors sizeof_int \<sigma>0 \<sigma>2 [v2, w]"
    using vectors_push_each [OF s1(3), of 0 "[10, 20, 30, 40, 50, 60, 70, 80, 90, 100]"] s1(2) by auto
  have "vector_pushing \<sigma> = Some (v2, \<sigma>2)"
    unfolding vector_pushing_def tens by (simp add: s1(1,2) s2(1,2) vector_queries del: push_each.simps)
  then show thesis
    using that s2(2,3) by blast
qed

lemma vector_inserting_ok:
  assumes v: "vectors sizeof_int \<sigma>0 \<sigma> [intVec, KVector_new]"
    and el: "kv_elems intVec = [10, 10, 20, 30, 40, 50, 60, 70, 80, 90, 100]"
  obtains intVec' emptyVec \<sigma>' where "vector_inserting \<sigma> intVec = Some (intVec', emptyVec, \<sigma>')"
    "vectors sizeof_int \<sigma>0 \<sigma>' [intVec', emptyVec]"
    "kv_elems intVec' = [111, 10, 10, 20, 30, 40, 999, 50, 60, 70, 80, 90, 100, 555]"
proof -
  obtain v1 \<sigma>1 where s1: "KVector_Insert True sizeof_int \<sigma> intVec 5 999 = (STATUS_SUCCESS, v1, \<sigma>1)"
      "kv_elems v1 = [10, 10, 20, 30, 40, 999, 50, 60, 70, 80, 90, 100]" "vectors sizeof_int \<sigma>0 \<sigma>1 [v1, KVector_new]"
    by (rule vectors_insert [OF v, of 0 5 True 999]) (simp_all add: el)
  obtain v2 \<sigma>2 where s2: "KVector_Insert True sizeof_int \<sigma>1 v1 0 111 = (STATUS_SUCCESS, v2, \<sigma>2)"
      "kv_elems v2 = [111, 10, 10, 20, 30, 40, 999, 50, 60, 70, 80, 90, 100]" "vectors sizeof_int \<sigma>0 \<sigma>2 [v2, KVector_new]"
    by (rule vectors_insert [OF s1(3), of 0 0 True 111]) (simp_all add: s1(2))
  obtain v3 \<sigma>3 where s3: "KVector_Insert True sizeof_int \<sigma>2 v2 13 555 = (STATUS_SUCCESS, v3, \<sigma>3)"
      "kv_elems v3 = [111, 10, 10, 20, 30, 40, 999, 50, 60, 70, 80, 90, 100, 555]" "vectors sizeof_int \<sigma>0 \<sigma>3 [v3, KVector_new]"
    by (rule vectors_insert [OF s2(3), of 0 13 True 555]) (simp_all add: s2(2))
  obtain w \<sigma>4 where s4: "KVector_Insert True sizeof_int \<sigma>3 KVector_new 0 777 = (STATUS_SUCCESS, w, \<sigma>4)"
      "kv_elems w = [777 :: 32 word]" "vectors sizeof_int \<sigma>0 \<sigma>4 [v3, w]"
    by (rule vectors_insert [OF s3(3), of 1 0 True 777]) simp_all
  let ?w = "w\<lparr>kv_elems := [777]\<rparr>"
  have s5: "vectors sizeof_int \<sigma>0 \<sigma>4 [v3, ?w]"
    using vectors_assign [OF s4(3), of 1 "[777]"] s4(2) by simp
  have sizes: "KVector_Size v2 = 13" "KVector_Size ?w = 1"
    by (simp_all add: KVector_Size_def s2(2))
  have "vector_inserting \<sigma> intVec = Some (v3, ?w, \<sigma>4)"
    by (simp add: vector_inserting_def s1(1,2) s2(1,2) s3(1,2) s4(1,2) assign_elem_def sizes
        KVector_nth_elem_def KVector_Back_def)
  then show thesis
    using that s5 s3(2) by blast
qed

lemma vector_cloning_ok:
  assumes "sys_ok \<sigma>" "affords \<sigma>"
  obtains \<sigma>' where "vector_cloning \<sigma> = Some \<sigma>'" "owns_step \<sigma> {} \<sigma>' {}"
proof -
  obtain v1 \<sigma>1 where s1: "push_each sizeof_int \<sigma> KVector_new [10, 20, 30 :: 32 word] = (v1, \<sigma>1)"
      "kv_elems v1 = [10, 20, 30]" "vectors sizeof_int \<sigma> \<sigma>1 [v1, KVector_new]"
    using vectors_push_each [OF vectors_start(1) [OF assms], of 0 "[10, 20, 30]"] by auto
  obtain v2 \<sigma>2 where s2: "KVector_Clone sizeof_int \<sigma>1 v1 (Some KVector_new) = (STATUS_SUCCESS, Some v2, \<sigma>2)"
      "kv_elems v2 = [10, 20, 30]" "vectors sizeof_int \<sigma> \<sigma>2 [v1, v2]"
    by (rule vectors_clone [OF s1(3), of 1 v1]) (simp_all add: s1(2))
  let ?v2 = "v2\<lparr>kv_elems := [10, 99, 30]\<rparr>"
  have "vectors sizeof_int \<sigma> \<sigma>2 [v1, ?v2]"
    using vectors_assign [OF s2(3), of 1 "[10, 99, 30]"] s2(2) by simp
  moreover have "vector_cloning \<sigma> = Some (KVector_destroy (KVector_destroy \<sigma>2 ?v2) v1)"
    by (simp add: vector_cloning_def s1(1,2) s2(1,2) assign_elem_def vector_queries del: push_each.simps)
  ultimately show thesis
    using that vectors_destroy2 by blast
qed

lemma vector_iterating_ok:
  "kv_elems v = [111, 10, 10, 20, 30, 40, 999, 50, 60, 70, 80, 90, 100, 555] \<Longrightarrow> vector_iterating v = Some ()"
proof -
  have "(0 :: 32 word) <s 2225"
    by code_simp
  then show "kv_elems v = [111, 10, 10, 20, 30, 40, 999, 50, 60, 70, 80, 90, 100, 555] \<Longrightarrow> ?thesis"
    by (simp add: vector_iterating_def vector_queries)
qed

lemma vector_moving_ok:
  assumes "sys_ok \<sigma>" "affords \<sigma>"
  obtains \<sigma>' where "vector_moving \<sigma> = Some \<sigma>'" "owns_step \<sigma> {} \<sigma>' {}"
proof -
  obtain v1 \<sigma>1 where s1: "push_each sizeof_int \<sigma> KVector_new [1, 2 :: 32 word] = (v1, \<sigma>1)"
      "kv_elems v1 = [1, 2]" "vectors sizeof_int \<sigma> \<sigma>1 [v1, KVector_new, KVector_new]"
    using vectors_push_each [OF vectors_start(2) [OF assms], of 0 "[1, 2]"] by auto
  obtain m1 m2 where m: "KVector_move_construct v1 = (m1, m2)"
    by fastforce
  have s2: "kv_elems m1 = [1, 2]" "kv_elems m2 = []" "vectors sizeof_int \<sigma> \<sigma>1 [m2, m1, KVector_new]"
    using vectors_move [OF s1(3), of 1 0 m1 m2] m s1(2) by simp_all
  obtain v3 \<sigma>3 where s3: "KVector_Reserve sizeof_int \<sigma>1 KVector_new 100 = (STATUS_SUCCESS, v3, \<sigma>3)"
      "kv_elems v3 = []" "vectors sizeof_int \<sigma> \<sigma>3 [m2, m1, v3]"
    by (rule vectors_reserve [OF s2(3), of 2 100]) simp_all
  obtain v4 \<sigma>4 where s4: "KVector_PushBack sizeof_int \<sigma>3 v3 99 = (STATUS_SUCCESS, v4, \<sigma>4)"
      "vectors sizeof_int \<sigma> \<sigma>4 [m2, m1, v4]"
    by (rule vectors_push [OF s3(3), of 2 99]) (simp_all add: s3(2))
  obtain a b \<sigma>5 where s5: "KVector_move_assign \<sigma>4 v4 m1 = (a, b, \<sigma>5)" "vectors sizeof_int \<sigma> \<sigma>5 [m2, b, a]" "kv_elems a = [1, 2]"
    by (rule vectors_move_assign [OF s4(2), of 2 1]) (simp_all add: s2(1))
  have "vector_moving \<sigma> = Some (KVector_destroy (KVector_destroy (KVector_destroy \<sigma>5 a) b) m2)"
    by (simp add: vector_moving_def s1(1) m s2(1,2) s3(1) s4(1) s5(1,3) vector_queries del: push_each.simps)
  then show thesis
    using that vectors_destroy3 [OF s5(2)] by blast
qed

lemma vector_non_trivial_ok:
  assumes "sys_ok \<sigma>" "affords \<sigma>"
  obtains \<sigma>' where "vector_non_trivial \<sigma> = Some \<sigma>'" "owns_step \<sigma> {} \<sigma>' {}"
proof -
  let ?els = "[(10, 20), (30, 40), (50, 60) :: non_trivial]"
  obtain v1 \<sigma>1 where s1: "push_each sizeof_NonTrivial \<sigma> KVector_new ?els = (v1, \<sigma>1)"
      "kv_elems v1 = ?els" "vectors sizeof_NonTrivial \<sigma> \<sigma>1 [v1, KVector_new]"
    using vectors_push_each [OF vectors_start(3) [OF assms], of 0 ?els] by auto
  obtain v2 \<sigma>2 where s2: "KVector_Reserve sizeof_NonTrivial \<sigma>1 v1 20 = (STATUS_SUCCESS, v2, \<sigma>2)"
      "kv_elems v2 = ?els" "vectors sizeof_NonTrivial \<sigma> \<sigma>2 [v2, KVector_new]"
    by (rule vectors_reserve [OF s1(3), of 0 20]) (simp_all add: s1(2))
  obtain v3 \<sigma>3 where s3: "KVector_Clone sizeof_NonTrivial \<sigma>2 v2 (Some KVector_new) = (STATUS_SUCCESS, Some v3, \<sigma>3)"
      "kv_elems v3 = ?els" "vectors sizeof_NonTrivial \<sigma> \<sigma>3 [v2, v3]"
    by (rule vectors_clone [OF s2(3), of 1 v2]) (simp_all add: s2(2))
  obtain v4 \<sigma>4 where s4: "KVector_Insert False sizeof_NonTrivial \<sigma>3 v3 1 (99, 99) = (STATUS_SUCCESS, v4, \<sigma>4)"
      "kv_elems v4 = [(10, 20), (99, 99), (30, 40), (50, 60)]" "vectors sizeof_NonTrivial \<sigma> \<sigma>4 [v2, v4]"
    by (rule vectors_insert [OF s3(3), of 1 1 False "(99, 99)"]) (simp_all add: s3(2))
  have "vector_non_trivial \<sigma> = Some (KVector_destroy (KVector_destroy \<sigma>4 v4) v2)"
    using s4(1) by (simp add: vector_non_trivial_def s1(1) s2(1,2) s3(1,2) s4(2) vector_queries del: push_each.simps)
  then show thesis
    using that vectors_destroy2 [OF s4(3)] by blast
qed

lemma vector_rehoming_ok:
  assumes "sys_ok \<sigma>" "affords \<sigma>"
  obtains \<sigma>' where "vector_rehoming \<sigma> = Some \<sigma>'" "owns_step \<sigma> {} \<sigma>' {}"
proof -
  obtain v1 :: "32 word kvector" and \<sigma>1 where s1: "KVector_Reserve sizeof_int \<sigma> KVector_new 100 = (STATUS_SUCCESS, v1, \<sigma>1)"
      "kv_elems v1 = []" "vectors sizeof_int \<sigma> \<sigma>1 [v1, KVector_new]"
    by (rule vectors_reserve [OF vectors_start(1) [OF assms], of 0 100]) simp_all
  obtain v2 \<sigma>2 where s2: "KVector_PushBack sizeof_int \<sigma>1 v1 10 = (STATUS_SUCCESS, v2, \<sigma>2)"
      "vectors sizeof_int \<sigma> \<sigma>2 [v2, KVector_new]"
    by (rule vectors_push [OF s1(3), of 0 10]) (simp_all add: s1(2))
  obtain w1 :: "32 word kvector" and \<sigma>3 where s3: "KVector_Reserve sizeof_int \<sigma>2 KVector_new 100 = (STATUS_SUCCESS, w1, \<sigma>3)"
      "kv_elems w1 = []" "vectors sizeof_int \<sigma> \<sigma>3 [v2, w1]"
    by (rule vectors_reserve [OF s2(2), of 1 100]) simp_all
  obtain w2 \<sigma>4 where s4: "KVector_PushBack sizeof_int \<sigma>3 w1 99 = (STATUS_SUCCESS, w2, \<sigma>4)"
      "kv_elems w2 = [99]" "vectors sizeof_int \<sigma> \<sigma>4 [v2, w2]"
    by (rule vectors_push [OF s3(3), of 1 99]) (simp_all add: s3(2))
  obtain a b \<sigma>5 where s5: "KVector_move_assign \<sigma>4 v2 w2 = (a, b, \<sigma>5)" "vectors sizeof_int \<sigma> \<sigma>5 [a, b]" "kv_elems a = [99]"
    by (rule vectors_move_assign [OF s4(3), of 0 1]) (simp_all add: s4(2))
  have "vector_rehoming \<sigma> = Some (KVector_destroy (KVector_destroy \<sigma>5 b) a)"
    by (simp add: vector_rehoming_def s1(1) s2(1) s3(1) s4(1) s5(1,3) vector_queries)
  then show thesis
    using that vectors_destroy2 [OF s5(2)] by blast
qed

text \<open>
  The last block relies on an allocator that does refuse what no machine has: requests of
  \<open>2 ^ 60\<close> bytes and more.
\<close>

definition refuses_huge :: "sys \<Rightarrow> bool" where
  "refuses_huge \<sigma> \<longleftrightarrow> (\<forall>n bytes. 2 ^ 60 \<le> bytes \<longrightarrow> \<not> grants \<sigma> n bytes)"

lemma refuses_huge_step: "owns_step \<sigma> A \<sigma>' A' \<Longrightarrow> refuses_huge \<sigma>' = refuses_huge \<sigma>"
  by (simp add: owns_step_def same_params_def refuses_huge_def)

lemma vector_limits_ok:
  assumes ok: "sys_ok \<sigma>" and re: "refuses_huge \<sigma>"
  obtains \<sigma>' where "vector_limits \<sigma> = Some \<sigma>'" "owns_step \<sigma> {} \<sigma>' {}"
proof -
  let ?n = "SIZE_MAX div sizeof_int - 1"
  obtain \<sigma>1 where al: "ExAllocatePool2 \<sigma> (?n * sizeof_int) = (None, \<sigma>1)"
    using re by (simp add: ExAllocatePool2_def Let_def refuses_huge_def SIZE_MAX_def sizeof_int_def)
  have "SizeTMult \<sigma> SIZE_MAX sizeof_int = None" "SizeTMult \<sigma> ?n sizeof_int = Some (?n * sizeof_int)"
    using ok by (simp_all add: sys_ok_def wdk_arith_def SIZE_MAX_def sizeof_int_def)
  moreover have "\<not> SIZE_MAX \<le> kv_cap KVector_new" "\<not> ?n \<le> kv_cap KVector_new"
    by (simp_all add: SIZE_MAX_def sizeof_int_def KVector_new_def SvoCapacity_def)
  ultimately have "KVector_Reserve sizeof_int \<sigma> (KVector_new :: 32 word kvector) SIZE_MAX = (STATUS_INTEGER_OVERFLOW, KVector_new, \<sigma>)"
    and "KVector_Reserve sizeof_int \<sigma> (KVector_new :: 32 word kvector) ?n = (STATUS_INSUFFICIENT_RESOURCES, KVector_new, \<sigma>1)"
    using al by (simp_all add: KVector_Reserve_def)
  then have "vector_limits \<sigma> = Some (KVector_destroy \<sigma>1 (KVector_new :: 32 word kvector))"
    by (simp add: vector_limits_def)
  moreover have "KVector_destroy \<sigma>1 (KVector_new :: 32 word kvector) = \<sigma>1"
    by (simp add: KVector_destroy_def KVector_free_buffer_def KVector_Clear_def KVector_new_def)
  moreover have "owns_step \<sigma> {} \<sigma>1 {}"
    using alloc_None [OF al ok, of "{}"] by simp
  ultimately show thesis
    using that by simp
qed

section \<open>The test passes\<close>

theorem TestVectorCorrectness_ok:
  assumes ok: "sys_ok \<sigma>" "affords \<sigma>" and re: "refuses_huge \<sigma>"
  obtains \<sigma>' where "TestVectorCorrectness \<sigma> = Some \<sigma>'" "owns_step \<sigma> {} \<sigma>' {}"
proof -
  obtain v1 \<sigma>1 where s1: "vector_pushing \<sigma> = Some (v1, \<sigma>1)" "vectors sizeof_int \<sigma> \<sigma>1 [v1, KVector_new]"
      "kv_elems v1 = [10, 10, 20, 30, 40, 50, 60, 70, 80, 90, 100]"
    by (rule vector_pushing_ok [OF vectors_start(1) [OF ok]])
  obtain v2 w \<sigma>2 where s2: "vector_inserting \<sigma>1 v1 = Some (v2, w, \<sigma>2)" "vectors sizeof_int \<sigma> \<sigma>2 [v2, w]"
      "kv_elems v2 = [111, 10, 10, 20, 30, 40, 999, 50, 60, 70, 80, 90, 100, 555]"
    by (rule vector_inserting_ok [OF s1(2,3)])
  have next_state: "sys_ok \<sigma>''" "affords \<sigma>''" "vectors sizeof_int \<sigma> \<sigma>'' [v2, w]"
    if "vectors sizeof_int \<sigma> \<sigma>' [v2, w]" "owns_step \<sigma>' {} \<sigma>'' {}" for \<sigma>' \<sigma>''
    using vectors_sys [OF vectors_frame [OF that]] vectors_frame [OF that] by simp_all
  obtain \<sigma>3 where s3: "vector_cloning \<sigma>2 = Some \<sigma>3" "owns_step \<sigma>2 {} \<sigma>3 {}"
    using vector_cloning_ok vectors_sys [OF s2(2)] by blast
  note n3 = next_state [OF s2(2) s3(2)]
  obtain \<sigma>4 where s4: "vector_moving \<sigma>3 = Some \<sigma>4" "owns_step \<sigma>3 {} \<sigma>4 {}"
    by (rule vector_moving_ok [OF n3(1,2)])
  note n4 = next_state [OF n3(3) s4(2)]
  obtain \<sigma>5 where s5: "vector_non_trivial \<sigma>4 = Some \<sigma>5" "owns_step \<sigma>4 {} \<sigma>5 {}"
    by (rule vector_non_trivial_ok [OF n4(1,2)])
  note n5 = next_state [OF n4(3) s5(2)]
  obtain \<sigma>6 where s6: "vector_rehoming \<sigma>5 = Some \<sigma>6" "owns_step \<sigma>5 {} \<sigma>6 {}"
    by (rule vector_rehoming_ok [OF n5(1,2)])
  note n6 = next_state [OF n5(3) s6(2)]
  have "refuses_huge \<sigma>6"
    using n6(3) re refuses_huge_step by (auto simp: vectors_def)
  then obtain \<sigma>7 where s7: "vector_limits \<sigma>6 = Some \<sigma>7" "owns_step \<sigma>6 {} \<sigma>7 {}"
    by (rule vector_limits_ok [OF n6(1)])
  note n7 = next_state [OF n6(3) s7(2)]
  have "TestVectorCorrectness \<sigma> = Some (KVector_destroy (KVector_destroy \<sigma>7 w) v2)"
    by (simp add: TestVectorCorrectness_def s1(1) s2(1) s3(1) vector_iterating_ok [OF s2(3)] s4(1) s5(1) s6(1) s7(1))
  then show thesis
    using that vectors_destroy2 [OF n7(3)] by blast
qed

end
