(* ===== verification/MapTests.thy ===== *)
theory MapTests
  imports VectorTests
begin

text \<open>
  \<open>TestHashMapCorrectness\<close> and \<open>main\<close> of ContainerTests.cpp. The values are integers or texts, which
  own no pool block; the size of a slot that holds a \<open>std::string\<close> is a parameter. Keys enter the
  default hash as their bytes.
\<close>

section \<open>Keys and values\<close>

text \<open>
  Values without code of this program: what a move leaves behind is only destroyed, and destroying
  frees no pool block.
\<close>

definition plain_ops :: "'v vops" where
  "plain_ops = \<lparr>vo_move = (\<lambda>v. (v, v)), vo_dtor = (\<lambda>\<sigma> v. \<sigma>)\<rparr>"

definition word_bytes :: "'a::len word \<Rightarrow> u8 list" where
  "word_bytes w = map (\<lambda>i. ucast (drop_bit (8 * i) w)) [0..<LENGTH('a) div 8]"

definition default_hash :: "('k \<Rightarrow> u8 list) \<Rightarrow> 'k \<Rightarrow> u64" where
  "default_hash bytes Key = the (KDefaultHash (bytes Key))"

definition identity_hash :: "('k \<Rightarrow> u8 list) \<Rightarrow> 'k \<Rightarrow> u64" where
  "identity_hash bytes Key = the (KIdentityHash (bytes Key))"

definition CollisionHash :: "u64 \<Rightarrow> u64" where
  "CollisionHash Key = 0xDEADBEEF00000000"

definition guid_bytes :: "u64 \<times> u64 \<Rightarrow> u8 list" where
  "guid_bytes = (\<lambda>(Part1, Part2). word_bytes Part1 @ word_bytes Part2)"

definition complex_bytes :: "u64 \<times> u64 \<times> u64 \<Rightarrow> u8 list" where
  "complex_bytes = (\<lambda>(Part1, Part2, Part3). word_bytes Part1 @ word_bytes Part2 @ word_bytes Part3)"

definition tail_bytes :: "32 word \<times> 32 word \<times> 32 word \<Rightarrow> u8 list" where
  "tail_bytes = (\<lambda>(Part1, Part2, Part3). word_bytes Part1 @ word_bytes Part2 @ word_bytes Part3)"

text \<open>Reading through the pointer that a lookup returned; the null pointer faults.\<close>

definition deref :: "('k, 'v) kmap \<Rightarrow> nat option \<Rightarrow> 'v option" where
  "deref m p = do { i \<leftarrow> p; value_at m i }"

section \<open>The test\<close>

text \<open>A loop of \<open>Emplace\<close> with a check of every status.\<close>

fun emplace_loop ::
  "(ntstatus \<Rightarrow> bool) \<Rightarrow> ('k \<Rightarrow> u64) \<Rightarrow> nat \<Rightarrow> sys \<Rightarrow> ('k, 'v) kmap \<Rightarrow> ('k \<times> 'v) list \<Rightarrow> (('k, 'v) kmap \<times> sys) option"
where
  "emplace_loop check H ssz \<sigma> m [] = Some (m, \<sigma>)"
| "emplace_loop check H ssz \<sigma> m ((k, v) # es) =
     do {
       (status, _, m, \<sigma>) \<leftarrow> KFlatHashMap_Emplace H plain_ops ssz \<sigma> m k v;
       _ \<leftarrow> ASSERTMSG (check status);
       emplace_loop check H ssz \<sigma> m es
     }"

fun find_loop :: "('k \<Rightarrow> u64) \<Rightarrow> ('k, 'v) kmap \<Rightarrow> ('k \<times> 'v) list \<Rightarrow> unit option" where
  "find_loop H m [] = Some ()"
| "find_loop H m ((k, v) # es) =
     do {
       val \<leftarrow> KFlatHashMap_Find H m k;
       x \<leftarrow> deref m val;
       _ \<leftarrow> ASSERTMSG (x = v);
       find_loop H m es
     }"

text \<open>The first blocks share one map. \<open>rvalueTest\<close> is only moved from when a pair is constructed.\<close>

definition map_basics :: "nat \<Rightarrow> sys \<Rightarrow> ((u64, string) kmap \<times> sys) option" where
  "map_basics ssz \<sigma> =
     (let H = default_hash word_bytes
      in do {
        found \<leftarrow> KFlatHashMap_Find H (KFlatHashMap_new :: (u64, string) kmap) 999;
        _ \<leftarrow> ASSERTMSG (found = None);
        (resStatus, m, \<sigma>) \<leftarrow> KFlatHashMap_Reserve H plain_ops ssz \<sigma> KFlatHashMap_new 32;
        _ \<leftarrow> ASSERTMSG (NT_SUCCESS resStatus);
        (status, pVal, m, \<sigma>) \<leftarrow> KFlatHashMap_Emplace H plain_ops ssz \<sigma> m 100 ''Apple'';
        _ \<leftarrow> ASSERTMSG (status = STATUS_SUCCESS);
        found \<leftarrow> KFlatHashMap_Find H m 100;
        _ \<leftarrow> ASSERTMSG (found \<noteq> None);
        x \<leftarrow> deref m found;
        _ \<leftarrow> ASSERTMSG (x = ''Apple'');
        missing \<leftarrow> KFlatHashMap_Find H m 200;
        _ \<leftarrow> ASSERTMSG (missing = None);
        let rvalueTest = ''Ignored'';
        (status, existingVal, m, \<sigma>) \<leftarrow> KFlatHashMap_Emplace H plain_ops ssz \<sigma> m 100 rvalueTest;
        let rvalueTest = (if status = STATUS_SUCCESS then snd (vo_move plain_ops rvalueTest) else rvalueTest);
        _ \<leftarrow> ASSERTMSG (status = STATUS_OBJECT_NAME_EXISTS);
        _ \<leftarrow> ASSERTMSG (existingVal = found);
        _ \<leftarrow> ASSERTMSG (rvalueTest = ''Ignored'');
        x \<leftarrow> deref m existingVal;
        _ \<leftarrow> ASSERTMSG (x = ''Apple'');
        p \<leftarrow> existingVal;
        m \<leftarrow> set_value_at m p ''Banana'';
        found \<leftarrow> KFlatHashMap_Find H m 100;
        x \<leftarrow> deref m found;
        _ \<leftarrow> ASSERTMSG (x = ''Banana'');
        (m, \<sigma>) \<leftarrow> emplace_loop (\<lambda>status. True) H ssz \<sigma> m (map (\<lambda>i. (word_of_nat i, ''Apple'')) [1..<11]);
        found \<leftarrow> KFlatHashMap_Find H m 5;
        _ \<leftarrow> ASSERTMSG (found \<noteq> None);
        Some (m, \<sigma>)
      })"

definition testHash :: "('k \<Rightarrow> u8 list) \<Rightarrow> nat \<Rightarrow> sys \<Rightarrow> 'k \<Rightarrow> sys option" where
  "testHash bytes ssz \<sigma> key =
     do {
       (_, val, testMap, \<sigma>) \<leftarrow> KFlatHashMap_Emplace (default_hash bytes) plain_ops ssz \<sigma> KFlatHashMap_new key (0 :: 32 word);
       r \<leftarrow> KFlatHashMap_Find (default_hash bytes) testMap key;
       _ \<leftarrow> ASSERTMSG (r \<noteq> None);
       KFlatHashMap_destroy plain_ops \<sigma> testMap
     }"

definition map_hashers :: "sys \<Rightarrow> sys option" where
  "map_hashers \<sigma> =
     do {
       \<sigma> \<leftarrow> testHash word_bytes 8 \<sigma> (65 :: 8 word);
       \<sigma> \<leftarrow> testHash word_bytes 8 \<sigma> (1234 :: 16 word);
       \<sigma> \<leftarrow> testHash word_bytes 8 \<sigma> (12345678 :: 32 word);
       testHash guid_bytes 32 \<sigma> (0xDEADBEEF, 0xBAADF00D)
     }"

text \<open>The two blocks with keys of several parts.\<close>

definition map_two_keys :: "('k \<Rightarrow> u8 list) \<Rightarrow> nat \<Rightarrow> sys \<Rightarrow> 'k \<Rightarrow> 32 word \<Rightarrow> 'k \<Rightarrow> 32 word \<Rightarrow> 'k \<Rightarrow> sys option" where
  "map_two_keys bytes ssz \<sigma> k1 v1 k2 v2 kMissing =
     (let H = default_hash bytes
      in do {
        (_, pVal, m, \<sigma>) \<leftarrow> KFlatHashMap_Emplace H plain_ops ssz \<sigma> KFlatHashMap_new k1 v1;
        (_, pVal, m, \<sigma>) \<leftarrow> KFlatHashMap_Emplace H plain_ops ssz \<sigma> m k2 v2;
        found1 \<leftarrow> KFlatHashMap_Find H m k1;
        _ \<leftarrow> ASSERTMSG (found1 \<noteq> None);
        x \<leftarrow> deref m found1;
        _ \<leftarrow> ASSERTMSG (x = v1);
        found2 \<leftarrow> KFlatHashMap_Find H m k2;
        _ \<leftarrow> ASSERTMSG (found2 \<noteq> None);
        x \<leftarrow> deref m found2;
        _ \<leftarrow> ASSERTMSG (x = v2);
        missing \<leftarrow> KFlatHashMap_Find H m kMissing;
        _ \<leftarrow> ASSERTMSG (missing = None);
        KFlatHashMap_destroy plain_ops \<sigma> m
      })"

definition map_complex :: "sys \<Rightarrow> sys option" where
  "map_complex \<sigma> = map_two_keys complex_bytes 32 \<sigma> (0x111, 0x222, 0x333) 42 (0x444, 0x555, 0x666) 84 (0x777, 0x888, 0x999)"

definition map_tail :: "sys \<Rightarrow> sys option" where
  "map_tail \<sigma> = map_two_keys tail_bytes 16 \<sigma> (1, 2, 3) 100 (4, 5, 6) 200 (7, 8, 9)"

definition map_identity :: "sys \<Rightarrow> sys option" where
  "map_identity \<sigma> =
     do {
       (_, vId16, mapIdentity16, \<sigma>) \<leftarrow>
         KFlatHashMap_Emplace (identity_hash word_bytes) plain_ops 8 \<sigma> KFlatHashMap_new (42 :: 16 word) (0 :: 32 word);
       r \<leftarrow> KFlatHashMap_Find (identity_hash word_bytes) mapIdentity16 42;
       _ \<leftarrow> ASSERTMSG (r \<noteq> None);
       (_, vId32, mapIdentity32, \<sigma>) \<leftarrow>
         KFlatHashMap_Emplace (identity_hash word_bytes) plain_ops 8 \<sigma> KFlatHashMap_new (0xDEADBEEF :: 32 word) (0 :: 32 word);
       r \<leftarrow> KFlatHashMap_Find (identity_hash word_bytes) mapIdentity32 0xDEADBEEF;
       _ \<leftarrow> ASSERTMSG (r \<noteq> None);
       (_, vId64, mapIdentity64, \<sigma>) \<leftarrow>
         KFlatHashMap_Emplace (identity_hash word_bytes) plain_ops 16 \<sigma> KFlatHashMap_new (0xABCDEF1234567890 :: u64) (0 :: 32 word);
       r \<leftarrow> KFlatHashMap_Find (identity_hash word_bytes) mapIdentity64 0xABCDEF1234567890;
       _ \<leftarrow> ASSERTMSG (r \<noteq> None);
       \<sigma> \<leftarrow> KFlatHashMap_destroy plain_ops \<sigma> mapIdentity64;
       \<sigma> \<leftarrow> KFlatHashMap_destroy plain_ops \<sigma> mapIdentity32;
       KFlatHashMap_destroy plain_ops \<sigma> mapIdentity16
     }"

definition precomputedKey :: "nat \<Rightarrow> u64" where
  "precomputedKey i = push_bit 32 (word_of_nat i) OR word_of_nat i"

definition map_precomputed :: "sys \<Rightarrow> sys option" where
  "map_precomputed \<sigma> =
     do {
       (mapPrecomputed, \<sigma>) \<leftarrow> emplace_loop (\<lambda>status. True) KPrecomputedHash 16 \<sigma> KFlatHashMap_new
         (map (\<lambda>i. (precomputedKey i, word_of_nat i :: 32 word)) [0..<100]);
       foundVal \<leftarrow> KFlatHashMap_Find KPrecomputedHash mapPrecomputed (precomputedKey 50);
       _ \<leftarrow> ASSERTMSG (foundVal \<noteq> None);
       x \<leftarrow> deref mapPrecomputed foundVal;
       _ \<leftarrow> ASSERTMSG (x = 50);
       KFlatHashMap_destroy plain_ops \<sigma> mapPrecomputed
     }"

definition collision_pairs :: "(u64 \<times> 32 word) list" where
  "collision_pairs = map (\<lambda>i. (word_of_nat i, word_of_nat i * 10)) [0..<12]"

definition map_collisions :: "sys \<Rightarrow> ((u64, 32 word) kmap \<times> sys) option" where
  "map_collisions \<sigma> =
     do {
       (collisionMap, \<sigma>) \<leftarrow>
         emplace_loop (\<lambda>colStatus. colStatus = STATUS_SUCCESS) CollisionHash 16 \<sigma> KFlatHashMap_new collision_pairs;
       _ \<leftarrow> find_loop CollisionHash collisionMap collision_pairs;
       Some (collisionMap, \<sigma>)
     }"

definition map_iterator :: "nat \<Rightarrow> sys \<Rightarrow> ((u64, string) kmap \<times> sys) option" where
  "map_iterator ssz \<sigma> =
     (let H = default_hash word_bytes
      in do {
        (_, pIterStr, iterMap, \<sigma>) \<leftarrow> KFlatHashMap_Emplace H plain_ops ssz \<sigma> KFlatHashMap_new 777 ''Lucky'';
        it \<leftarrow> KFlatHashMap_begin iterMap;
        e \<leftarrow> KFlatHashMap_end iterMap;
        _ \<leftarrow> ASSERTMSG (it \<noteq> e);
        slot \<leftarrow> iterator_deref iterMap it;
        _ \<leftarrow> ASSERTMSG (fst slot = 777);
        _ \<leftarrow> ASSERTMSG (snd slot = ''Lucky'');
        iterMap \<leftarrow> set_value_at iterMap it ''Changed'';
        r \<leftarrow> KFlatHashMap_Find H iterMap 777;
        x \<leftarrow> deref iterMap r;
        _ \<leftarrow> ASSERTMSG (x = ''Changed'');
        Some (iterMap, \<sigma>)
      })"

text \<open>The loops count the slots they visit.\<close>

definition map_iterating :: "sys \<Rightarrow> (u64, 32 word) kmap \<Rightarrow> ((u64, 32 word) kmap \<times> sys) option" where
  "map_iterating \<sigma> collisionMap =
     do {
       es \<leftarrow> iterate collisionMap;
       _ \<leftarrow> ASSERTMSG (length es = 12);
       (collisionMap, \<sigma>) \<leftarrow> KFlatHashMap_Clear plain_ops \<sigma> collisionMap;
       es \<leftarrow> iterate collisionMap;
       _ \<leftarrow> ASSERTMSG (length es = 0);
       Some (collisionMap, \<sigma>)
     }"

definition map_limits :: "sys \<Rightarrow> sys option" where
  "map_limits \<sigma> =
     (let H = default_hash word_bytes
      in do {
        (limitStatus, limitMap, \<sigma>) \<leftarrow>
          KFlatHashMap_Reserve H plain_ops 16 \<sigma> (KFlatHashMap_new :: (u64, 32 word) kmap) SIZE_MAX;
        _ \<leftarrow> ASSERTMSG (limitStatus = STATUS_INTEGER_OVERFLOW \<or> limitStatus = STATUS_INSUFFICIENT_RESOURCES);
        let impossibleCapacity = drop_bit 4 SIZE_MAX;
        (limitStatus, limitMap, \<sigma>) \<leftarrow> KFlatHashMap_Reserve H plain_ops 16 \<sigma> limitMap impossibleCapacity;
        _ \<leftarrow> ASSERTMSG (limitStatus = STATUS_INSUFFICIENT_RESOURCES);
        KFlatHashMap_destroy plain_ops \<sigma> limitMap
      })"

text \<open>What comes before the last block, and the whole.\<close>

definition map_blocks :: "nat \<Rightarrow> sys \<Rightarrow> ((u64, string) kmap \<times> (u64, 32 word) kmap \<times> (u64, string) kmap \<times> sys) option" where
  "map_blocks ssz \<sigma> =
     do {
       (m, \<sigma>) \<leftarrow> map_basics ssz \<sigma>;
       \<sigma> \<leftarrow> map_hashers \<sigma>;
       \<sigma> \<leftarrow> map_complex \<sigma>;
       \<sigma> \<leftarrow> map_tail \<sigma>;
       \<sigma> \<leftarrow> map_identity \<sigma>;
       \<sigma> \<leftarrow> map_precomputed \<sigma>;
       (collisionMap, \<sigma>) \<leftarrow> map_collisions \<sigma>;
       (iterMap, \<sigma>) \<leftarrow> map_iterator ssz \<sigma>;
       (collisionMap, \<sigma>) \<leftarrow> map_iterating \<sigma> collisionMap;
       Some (m, collisionMap, iterMap, \<sigma>)
     }"

definition TestHashMapCorrectness :: "nat \<Rightarrow> sys \<Rightarrow> sys option" where
  "TestHashMapCorrectness ssz \<sigma> =
     do {
       (m, collisionMap, iterMap, \<sigma>) \<leftarrow> map_blocks ssz \<sigma>;
       \<sigma> \<leftarrow> map_limits \<sigma>;
       \<sigma> \<leftarrow> KFlatHashMap_destroy plain_ops \<sigma> iterMap;
       \<sigma> \<leftarrow> KFlatHashMap_destroy plain_ops \<sigma> collisionMap;
       KFlatHashMap_destroy plain_ops \<sigma> m
     }"

text \<open>\<open>main\<close>, up to the benchmarks.\<close>

definition ContainerTests_main :: "nat \<Rightarrow> sys \<Rightarrow> sys option" where
  "ContainerTests_main ssz \<sigma> =
     do {
       \<sigma> \<leftarrow> TestVectorCorrectness \<sigma>;
       \<sigma> \<leftarrow> TestDequeCorrectness \<sigma>;
       TestHashMapCorrectness ssz \<sigma>
     }"

section \<open>A map of plain values\<close>

interpretation plain: map_value plain_ops "\<lambda>v. {}" "\<lambda>\<sigma> v. True"
  by unfold_locales (simp_all add: plain_ops_def owns_step_refl)

text \<open>
  A map and its entries, the latest first, that owns what has been taken since the state \<open>\<sigma>0\<close>.
\<close>

definition map_holds :: "('k \<Rightarrow> u64) \<Rightarrow> nat \<Rightarrow> sys \<Rightarrow> sys \<Rightarrow> ('k, 'v) kmap \<Rightarrow> ('k \<times> 'v) list \<Rightarrow> bool" where
  "map_holds H ssz \<sigma>0 \<sigma> m es \<longleftrightarrow>
     sys_ok \<sigma>0 \<and> affords \<sigma> \<and> ssz \<le> 2 ^ 16 \<and> hm_ok H ssz (\<lambda>v. {}) (\<lambda>\<sigma> v. True) \<sigma> m \<and>
     hm_map m = map_of es \<and> hm_cap m \<le> 2 ^ 20 \<and> owns_step \<sigma>0 {} \<sigma> (hm_owned (\<lambda>v. {}) m)"

lemma map_holds_sys: "map_holds H ssz \<sigma>0 \<sigma> m es \<Longrightarrow> sys_ok \<sigma> \<and> affords \<sigma>"
  unfolding map_holds_def using owns_step_sys_ok by blast

lemma map_holds_table: "map_holds H ssz \<sigma>0 \<sigma> m es \<Longrightarrow> table_ok H ssz \<sigma> m"
  by (simp add: map_holds_def hm_ok_def)

lemma map_holds_new: "sys_ok \<sigma> \<Longrightarrow> affords \<sigma> \<Longrightarrow> ssz \<le> 2 ^ 16 \<Longrightarrow> map_holds H ssz \<sigma> \<sigma> KFlatHashMap_new []"
  by (simp add: map_holds_def owns_step_refl)

lemma map_holds_step:
  assumes h: "map_holds H ssz \<sigma>0 \<sigma> m es" and ok: "hm_ok H ssz (\<lambda>v. {}) (\<lambda>\<sigma> v. True) \<sigma>' m'"
    and st: "owns_step \<sigma> (hm_owned (\<lambda>v. {}) m) \<sigma>' (hm_owned (\<lambda>v. {}) m')"
    and mm: "hm_map m' = map_of es'" "hm_cap m' \<le> 2 ^ 20"
  shows "map_holds H ssz \<sigma>0 \<sigma>' m' es'"
proof -
  have "owns_step \<sigma>0 {} \<sigma>' (hm_owned (\<lambda>v. {}) m')"
    using owns_step_trans [OF _ st] h by (simp add: map_holds_def)
  then show ?thesis
    using h ok mm affords_step [OF st] by (simp add: map_holds_def)
qed

lemma map_holds_frame:
  assumes h: "map_holds H ssz \<sigma>0 \<sigma> m es" and st: "owns_step \<sigma> {} \<sigma>' {}"
  shows "map_holds H ssz \<sigma>0 \<sigma>' m es"
proof (rule map_holds_step [OF h])
  have ok: "hm_ok H ssz (\<lambda>v. {}) (\<lambda>\<sigma> v. True) \<sigma> m" and sys: "sys_ok \<sigma>"
    using h map_holds_sys [OF h] by (simp_all add: map_holds_def)
  show "hm_ok H ssz (\<lambda>v. {}) (\<lambda>\<sigma> v. True) \<sigma>' m"
    by (rule plain.hm_ok_step [OF ok st sys]) simp
  show "owns_step \<sigma> (hm_owned (\<lambda>v. {}) m) \<sigma>' (hm_owned (\<lambda>v. {}) m)"
    using owns_step_widen [OF st sys plain.hm_ok_owned [OF ok]] by simp
qed (use h in \<open>simp_all add: map_holds_def\<close>)

lemma map_holds_destroy:
  assumes "map_holds H ssz \<sigma>0 \<sigma> m es"
  obtains \<sigma>' where "KFlatHashMap_destroy plain_ops \<sigma> m = Some \<sigma>'" "owns_step \<sigma>0 {} \<sigma>' {}"
proof -
  obtain \<sigma>' where d: "KFlatHashMap_destroy plain_ops \<sigma> m = Some \<sigma>'" "owns_step \<sigma> (hm_owned (\<lambda>v. {}) m) \<sigma>' {}"
    using plain.destroy_spec [of \<sigma> H ssz m] assms map_holds_sys [OF assms] by (auto simp: map_holds_def)
  have "owns_step \<sigma>0 {} \<sigma>' {}"
    using owns_step_trans [OF _ d(2)] assms by (simp add: map_holds_def)
  then show thesis
    using that d(1) by blast
qed

lemma map_holds_find:
  assumes h: "map_holds H ssz \<sigma>0 \<sigma> m es"
  obtains "map_of es Key = None" "KFlatHashMap_Find H m Key = Some None"
  | i x where "map_of es Key = Some x" "KFlatHashMap_Find H m Key = Some (Some i)" "has_key (hm_slots m) Key i"
      "value_at m i = Some x"
proof -
  note tab = map_holds_table [OF h]
  have mm: "hm_map m = map_of es"
    using h by (simp add: map_holds_def)
  obtain r where r: "KFlatHashMap_Find H m Key = Some r" "\<And>i. r = Some i \<Longrightarrow> has_key (hm_slots m) Key i"
      "r = None \<longleftrightarrow> hm_map m Key = None"
    using plain.Find_spec [OF tab, of Key] by metis
  show thesis
  proof (cases r)
    case None
    then show thesis
      using that(1) r mm by simp
  next
    case (Some i)
    obtain v where "value_at m i = Some v" "hm_map m Key = Some v"
      using plain.has_key_value [OF tab r(2) [OF Some]] by metis
    then show thesis
      using that(2) r(1,2) mm Some by simp
  qed
qed

lemma map_holds_one_slot:
  assumes "map_holds H ssz \<sigma>0 \<sigma> m es" "has_key (hm_slots m) k i" "has_key (hm_slots m) k j"
  shows "i = j"
proof -
  note tab = map_holds_table [OF assms(1)]
  have "hm_cap m \<noteq> 0"
    using tab assms(2) by (auto simp: table_ok_def KFlatHashMap_new_def has_key_def)
  then obtain G where "tab_ok H G (hm_ctrl m) (hm_slots m)"
    using table_geometry [OF tab] by metis
  then have "one_slot (hm_slots m)"
    by (simp add: tab_ok_def)
  then show ?thesis
    using assms(2,3) unfolding one_slot_def by blast
qed

lemma map_holds_emplace:
  assumes h: "map_holds H ssz \<sigma>0 \<sigma> m es" and new: "Key \<notin> fst ` set es" and few: "length es \<le> 2 ^ 16"
  obtains p m' \<sigma>' where "KFlatHashMap_Emplace H plain_ops ssz \<sigma> m Key x = Some (STATUS_SUCCESS, Some p, m', \<sigma>')"
    "map_holds H ssz \<sigma>0 \<sigma>' m' ((Key, x) # es)"
proof -
  have d: "sys_ok \<sigma>" "affords \<sigma>" "hm_ok H ssz (\<lambda>v. {}) (\<lambda>\<sigma> v. True) \<sigma> m" "ssz \<le> 2 ^ 16" "hm_cap m \<le> 2 ^ 20"
    "hm_map m = map_of es"
    using h map_holds_sys [OF h] by (simp_all add: map_holds_def)
  obtain r i m' \<sigma>' where em: "KFlatHashMap_Emplace H plain_ops ssz \<sigma> m Key x = Some (r, i, m', \<sigma>')"
      "hm_ok H ssz (\<lambda>v. {}) (\<lambda>\<sigma> v. True) \<sigma>' m'" "owns_step \<sigma> (hm_owned (\<lambda>v. {}) m) \<sigma>' (hm_owned (\<lambda>v. {}) m')"
      "plain.emplace_spec \<sigma> m Key x r i m' \<sigma>'"
    using plain.Emplace_spec [OF d(1,3), where x = x and Key = Key] by auto
  have "hm_map m Key = None"
    using new d(6) by (simp add: map_of_eq_None_iff)
  moreover have "NT_SUCCESS r"
    using d(5) by (intro plain.Emplace_room [OF d(1-4) _ em(1)]) simp
  ultimately have res: "r = STATUS_SUCCESS" "hm_map m' = map_of ((Key, x) # es)" "i \<noteq> None"
    using em(4) d(6) unfolding plain.emplace_spec_def by auto
  have "hm_size m = card (dom (map_of es))"
    using table_size(1) [OF map_holds_table [OF h]] d(6) by simp
  also have "\<dots> \<le> length es"
    by (metis card_length dom_map_of_conv_image_fst length_map set_map)
  finally have "hm_size m \<le> 2 ^ 16"
    using few by simp
  then have "hm_cap m' \<le> 2 ^ 20"
    using plain.Emplace_takes_little [OF d(1,3) em(1)] d(5) by (auto simp: takes_little_def max_def split: if_splits)
  then have "map_holds H ssz \<sigma>0 \<sigma>' m' ((Key, x) # es)"
    by (rule map_holds_step [OF h em(2,3) res(2)])
  then show thesis
    using that em(1) res(1,3) by auto
qed

lemma map_holds_emplace_existing:
  assumes h: "map_holds H ssz \<sigma>0 \<sigma> m es" and old: "map_of es Key \<noteq> None"
  obtains p where "KFlatHashMap_Emplace H plain_ops ssz \<sigma> m Key x = Some (STATUS_OBJECT_NAME_EXISTS, Some p, m, \<sigma>)"
    "has_key (hm_slots m) Key p"
proof -
  have d: "sys_ok \<sigma>" "affords \<sigma>" "hm_ok H ssz (\<lambda>v. {}) (\<lambda>\<sigma> v. True) \<sigma> m" "ssz \<le> 2 ^ 16" "hm_cap m \<le> 2 ^ 20"
    "hm_map m = map_of es"
    using h map_holds_sys [OF h] by (simp_all add: map_holds_def)
  obtain r i m' \<sigma>' where em: "KFlatHashMap_Emplace H plain_ops ssz \<sigma> m Key x = Some (r, i, m', \<sigma>')"
      "plain.emplace_spec \<sigma> m Key x r i m' \<sigma>'"
    using plain.Emplace_spec [OF d(1,3), where x = x and Key = Key] by auto
  then show thesis
    using that old d(6) unfolding plain.emplace_spec_def by auto
qed

lemma map_holds_set:
  assumes h: "map_holds H ssz \<sigma>0 \<sigma> m es" and k: "has_key (hm_slots m) Key p"
  obtains m' where "set_value_at m p x = Some m'" "map_holds H ssz \<sigma>0 \<sigma> m' ((Key, x) # es)"
proof -
  have d: "sys_ok \<sigma>" "hm_ok H ssz (\<lambda>v. {}) (\<lambda>\<sigma> v. True) \<sigma> m" "hm_cap m \<le> 2 ^ 20" "hm_map m = map_of es"
    using h map_holds_sys [OF h] by (simp_all add: map_holds_def)
  obtain v where v: "hm_map m Key = Some v"
    using plain.has_key_value [OF map_holds_table [OF h] k] by metis
  have "owns_step \<sigma> {} \<sigma> {}"
    using owns_step_refl [OF d(1)] by simp
  then obtain m' where m': "set_value_at m p x = Some m'" "hm_ok H ssz (\<lambda>v. {}) (\<lambda>\<sigma> v. True) \<sigma> m'"
      "hm_map m' = (hm_map m)(Key \<mapsto> x)" "owns_step \<sigma> (hm_owned (\<lambda>v. {}) m) \<sigma> (hm_owned (\<lambda>v. {}) m')"
    using plain.set_value_spec [OF d(1,2) k v, of \<sigma> x] by auto
  have "map_holds H ssz \<sigma>0 \<sigma> m' ((Key, x) # es)"
    using m'(3) d(3,4) set_value_at_fields [OF m'(1)] by (intro map_holds_step [OF h m'(2,4)]) simp_all
  then show thesis
    using that m'(1) by blast
qed

lemma map_holds_present:
  assumes "map_holds H ssz \<sigma>0 \<sigma> m es" "map_of es Key = Some x"
  obtains i where "KFlatHashMap_Find H m Key = Some (Some i)" "has_key (hm_slots m) Key i" "deref m (Some i) = Some x"
  using assms(2) that by (cases rule: map_holds_find [OF assms(1), of Key]) (auto simp: deref_def)

lemma map_holds_absent:
  assumes "map_holds H ssz \<sigma>0 \<sigma> m es" "map_of es Key = None"
  shows "KFlatHashMap_Find H m Key = Some None"
  using assms(2) by (cases rule: map_holds_find [OF assms(1), of Key]) auto

lemma map_holds_emplace_loop:
  "map_holds H ssz \<sigma>0 \<sigma> m es \<Longrightarrow> distinct (map fst new) \<Longrightarrow> fst ` set new \<inter> fst ` set es = {} \<Longrightarrow>
   length es + length new \<le> 2 ^ 16 \<Longrightarrow> check STATUS_SUCCESS \<Longrightarrow>
   \<exists>m' \<sigma>'. emplace_loop check H ssz \<sigma> m new = Some (m', \<sigma>') \<and> map_holds H ssz \<sigma>0 \<sigma>' m' (rev new @ es)"
proof (induction new arbitrary: \<sigma> m es)
  case Nil
  then show ?case by simp
next
  case (Cons kv new)
  obtain k v where kv: "kv = (k, v)"
    by (cases kv)
  obtain p m1 \<sigma>1 where e: "KFlatHashMap_Emplace H plain_ops ssz \<sigma> m k v = Some (STATUS_SUCCESS, Some p, m1, \<sigma>1)"
      "map_holds H ssz \<sigma>0 \<sigma>1 m1 ((k, v) # es)"
    by (rule map_holds_emplace [OF Cons.prems(1), of k v]) (use Cons.prems(3,4) kv in auto)
  have "fst ` set new \<inter> fst ` set ((k, v) # es) = {}"
    using Cons.prems(2,3) kv by auto
  from Cons.IH [OF e(2) _ this] Cons.prems(2,4,5) e(1) kv show ?case
    by simp
qed

lemma map_holds_find_loop:
  "map_holds H ssz \<sigma>0 \<sigma> m es \<Longrightarrow> \<forall>kv \<in> set ps. map_of es (fst kv) = Some (snd kv) \<Longrightarrow> find_loop H m ps = Some ()"
proof (induction ps)
  case Nil
  then show ?case by simp
next
  case (Cons kv ps)
  obtain k v where kv: "kv = (k, v)"
    by (cases kv)
  obtain i where "KFlatHashMap_Find H m k = Some (Some i)" "deref m (Some i) = Some v"
    by (rule map_holds_present [OF Cons.prems(1), of k v]) (use Cons.prems(2) kv in auto)
  then show ?case
    using Cons kv by simp
qed

lemma map_holds_reserve32:
  fixes H :: "'k \<Rightarrow> u64"
  assumes ok: "sys_ok \<sigma>" "affords \<sigma>" "ssz \<le> 2 ^ 16"
  obtains m :: "('k, 'v) kmap" and \<sigma>' where "KFlatHashMap_Reserve H plain_ops ssz \<sigma> KFlatHashMap_new 32 = Some (STATUS_SUCCESS, m, \<sigma>')"
    "map_holds H ssz \<sigma> \<sigma>' m []"
proof -
  note new = map_holds_new [OF ok, of H]
  have "BitScanReverse64 44 = Some 5"
    by code_simp
  moreover have "SizeTMult \<sigma> 32 10 = Some 320"
    using ok(1) by (simp add: sys_ok_def wdk_arith_def)
  ultimately have run: "KFlatHashMap_Reserve H plain_ops ssz \<sigma> (KFlatHashMap_new :: ('k, 'v) kmap) 32 =
      KFlatHashMap_Rehash H plain_ops ssz \<sigma> KFlatHashMap_new (8 * 8)"
    by (simp add: KFlatHashMap_Reserve_def Let_def)
  have g8: "groups_ok 8"
    unfolding groups_ok_def by (intro exI [of _ 3]) simp
  obtain r m \<sigma>' where re: "KFlatHashMap_Rehash H plain_ops ssz \<sigma> KFlatHashMap_new (8 * 8) = Some (r, m, \<sigma>')"
      "hm_ok H ssz (\<lambda>v. {}) (\<lambda>\<sigma> v. True) \<sigma>' m"
      "owns_step \<sigma> (hm_owned (\<lambda>v. {}) (KFlatHashMap_new :: ('k, 'v) kmap)) \<sigma>' (hm_owned (\<lambda>v. {}) m)"
      "hm_map m = hm_map (KFlatHashMap_new :: ('k, 'v) kmap)"
    by (rule plain.Rehash_spec [OF ok(1) _ g8, of H ssz KFlatHashMap_new]) simp_all
  have r: "r = STATUS_SUCCESS"
    by (rule Rehash_room [OF ok _ re(1)]) simp
  have "hm_cap m = 64"
    using Rehash_fields(2) [OF re(1)] r by simp
  then have "map_holds H ssz \<sigma> \<sigma>' m []"
    using re(4) by (intro map_holds_step [OF new re(2,3)]) simp_all
  then show thesis
    using that re(1) r run by simp
qed

section \<open>The blocks pass\<close>

lemma map_basics_ok:
  assumes ok: "sys_ok \<sigma>" "affords \<sigma>" "ssz \<le> 2 ^ 16"
  obtains m \<sigma>' es where "map_basics ssz \<sigma> = Some (m, \<sigma>')" "map_holds (default_hash word_bytes) ssz \<sigma> \<sigma>' m es"
proof -
  let ?H = "default_hash word_bytes :: u64 \<Rightarrow> u64"
  note none = map_holds_absent [OF map_holds_new [OF ok, of ?H], of 999, simplified]
  obtain m1 \<sigma>1 where s1: "KFlatHashMap_Reserve ?H plain_ops ssz \<sigma> KFlatHashMap_new 32 = Some (STATUS_SUCCESS, m1, \<sigma>1)"
      "map_holds ?H ssz \<sigma> \<sigma>1 (m1 :: (u64, string) kmap) []"
    by (rule map_holds_reserve32 [OF ok])
  obtain p m2 \<sigma>2 where s2: "KFlatHashMap_Emplace ?H plain_ops ssz \<sigma>1 m1 100 ''Apple'' = Some (STATUS_SUCCESS, Some p, m2, \<sigma>2)"
      "map_holds ?H ssz \<sigma> \<sigma>2 m2 [(100, ''Apple'')]"
    by (rule map_holds_emplace [OF s1(2), of 100 "''Apple''"]) simp_all
  obtain i where f2: "KFlatHashMap_Find ?H m2 100 = Some (Some i)" "has_key (hm_slots m2) 100 i" "deref m2 (Some i) = Some ''Apple''"
    by (rule map_holds_present [OF s2(2), of 100 "''Apple''"]) simp_all
  have no200: "KFlatHashMap_Find ?H m2 200 = Some None"
    by (rule map_holds_absent [OF s2(2)]) simp
  obtain q where s3: "KFlatHashMap_Emplace ?H plain_ops ssz \<sigma>2 m2 100 ''Ignored'' = Some (STATUS_OBJECT_NAME_EXISTS, Some q, m2, \<sigma>2)"
      "has_key (hm_slots m2) 100 q"
    by (rule map_holds_emplace_existing [OF s2(2), of 100 "''Ignored''"]) simp_all
  have q: "q = i"
    by (rule map_holds_one_slot [OF s2(2) s3(2) f2(2)])
  obtain m4 where s4: "set_value_at m2 i ''Banana'' = Some m4" "map_holds ?H ssz \<sigma> \<sigma>2 m4 [(100, ''Banana''), (100, ''Apple'')]"
    by (rule map_holds_set [OF s2(2) f2(2), of "''Banana''"])
  obtain j where f4: "KFlatHashMap_Find ?H m4 100 = Some (Some j)" "deref m4 (Some j) = Some ''Banana''"
    by (rule map_holds_present [OF s4(2), of 100 "''Banana''"]) simp_all
  let ?new = "[(1, ''Apple''), (2, ''Apple''), (3, ''Apple''), (4, ''Apple''), (5, ''Apple''), (6, ''Apple''), (7, ''Apple''),
      (8, ''Apple''), (9, ''Apple''), (10, ''Apple'')] :: (u64 \<times> string) list"
  have new: "map (\<lambda>i. (word_of_nat i, ''Apple'')) [1..<11] = ?new"
    by code_simp
  obtain m5 \<sigma>5 where s5: "emplace_loop (\<lambda>status. True) ?H ssz \<sigma>2 m4 ?new = Some (m5, \<sigma>5)"
      "map_holds ?H ssz \<sigma> \<sigma>5 m5 (rev ?new @ [(100, ''Banana''), (100, ''Apple'')])"
    using map_holds_emplace_loop [OF s4(2), of ?new "\<lambda>status. True"] by auto
  obtain l where f5: "KFlatHashMap_Find ?H m5 5 = Some (Some l)"
    by (rule map_holds_present [OF s5(2), of 5 "''Apple''"]) simp_all
  have "map_basics ssz \<sigma> = Some (m5, \<sigma>5)"
    unfolding map_basics_def new
    by (simp add: none s1(1) s2(1) f2(1,3) no200 s3(1) q s4(1) f4 s5(1) f5 Let_def del: emplace_loop.simps)
  then show thesis
    using that s5(2) by blast
qed

text \<open>A map of one entry.\<close>

lemma map_one_ok:
  assumes ok: "sys_ok \<sigma>" "affords \<sigma>" "ssz \<le> 2 ^ 16"
  obtains m \<sigma>' p i where "KFlatHashMap_Emplace H plain_ops ssz \<sigma> KFlatHashMap_new k v = Some (STATUS_SUCCESS, Some p, m, \<sigma>')"
    "KFlatHashMap_Find H m k = Some (Some i)" "map_holds H ssz \<sigma> \<sigma>' m [(k, v)]"
proof -
  obtain p m \<sigma>' where e: "KFlatHashMap_Emplace H plain_ops ssz \<sigma> KFlatHashMap_new k v = Some (STATUS_SUCCESS, Some p, m, \<sigma>')"
      "map_holds H ssz \<sigma> \<sigma>' m [(k, v)]"
    by (rule map_holds_emplace [OF map_holds_new [OF ok, of H], of k v]) simp_all
  then show thesis
    using that by (cases rule: map_holds_find [OF e(2), of k]) auto
qed

lemma testHash_ok:
  assumes ok: "sys_ok \<sigma>" "affords \<sigma>" "ssz \<le> 2 ^ 16"
  obtains \<sigma>' where "testHash bytes ssz \<sigma> key = Some \<sigma>'" "owns_step \<sigma> {} \<sigma>' {}"
proof -
  obtain m \<sigma>1 p i where e: "KFlatHashMap_Emplace (default_hash bytes) plain_ops ssz \<sigma> KFlatHashMap_new key (0 :: 32 word) =
        Some (STATUS_SUCCESS, Some p, m, \<sigma>1)"
      "KFlatHashMap_Find (default_hash bytes) m key = Some (Some i)" "map_holds (default_hash bytes) ssz \<sigma> \<sigma>1 m [(key, 0)]"
    by (rule map_one_ok [OF ok])
  obtain \<sigma>' where "KFlatHashMap_destroy plain_ops \<sigma>1 m = Some \<sigma>'" "owns_step \<sigma> {} \<sigma>' {}"
    by (rule map_holds_destroy [OF e(3)])
  then show thesis
    using that e(1,2) by (simp add: testHash_def)
qed

text \<open>Blocks that leave nothing behind, one after the other.\<close>

lemma after_block:
  assumes "sys_ok \<sigma>" "affords \<sigma>" "owns_step \<sigma> {} \<sigma>' {}"
  shows "sys_ok \<sigma>'" "affords \<sigma>'" "owns_step \<sigma>' {} \<sigma>'' {} \<Longrightarrow> owns_step \<sigma> {} \<sigma>'' {}"
  using owns_step_sys_ok [OF assms(3)] affords_step [OF assms(3)] assms(1,2) owns_step_trans [OF assms(3)] by blast+

lemma map_hashers_ok:
  assumes ok: "sys_ok \<sigma>" "affords \<sigma>"
  obtains \<sigma>' where "map_hashers \<sigma> = Some \<sigma>'" "owns_step \<sigma> {} \<sigma>' {}"
proof -
  obtain \<sigma>1 where s1: "testHash word_bytes 8 \<sigma> (65 :: 8 word) = Some \<sigma>1" "owns_step \<sigma> {} \<sigma>1 {}"
    by (rule testHash_ok [OF ok, of 8 word_bytes 65]) simp_all
  note n1 = after_block [OF ok s1(2)]
  obtain \<sigma>2 where s2: "testHash word_bytes 8 \<sigma>1 (1234 :: 16 word) = Some \<sigma>2" "owns_step \<sigma>1 {} \<sigma>2 {}"
    by (rule testHash_ok [OF n1(1,2), of 8 word_bytes 1234]) simp_all
  note n2 = after_block [OF n1(1,2) s2(2)]
  obtain \<sigma>3 where s3: "testHash word_bytes 8 \<sigma>2 (12345678 :: 32 word) = Some \<sigma>3" "owns_step \<sigma>2 {} \<sigma>3 {}"
    by (rule testHash_ok [OF n2(1,2), of 8 word_bytes 12345678]) simp_all
  note n3 = after_block [OF n2(1,2) s3(2)]
  obtain \<sigma>4 where s4: "testHash guid_bytes 32 \<sigma>3 (0xDEADBEEF, 0xBAADF00D) = Some \<sigma>4" "owns_step \<sigma>3 {} \<sigma>4 {}"
    by (rule testHash_ok [OF n3(1,2), of 32 guid_bytes "(0xDEADBEEF, 0xBAADF00D)"]) simp_all
  have "map_hashers \<sigma> = Some \<sigma>4"
    by (simp add: map_hashers_def s1(1) s2(1) s3(1) s4(1))
  then show thesis
    using that n1(3) n2(3) n3(3) s4(2) by blast
qed

lemma map_two_keys_ok:
  assumes ok: "sys_ok \<sigma>" "affords \<sigma>" "ssz \<le> 2 ^ 16" and k: "k1 \<noteq> k2" "kMissing \<noteq> k1" "kMissing \<noteq> k2"
  obtains \<sigma>' where "map_two_keys bytes ssz \<sigma> k1 v1 k2 v2 kMissing = Some \<sigma>'" "owns_step \<sigma> {} \<sigma>' {}"
proof -
  let ?H = "default_hash bytes"
  obtain m1 \<sigma>1 p1 i1 where s1: "KFlatHashMap_Emplace ?H plain_ops ssz \<sigma> KFlatHashMap_new k1 v1 = Some (STATUS_SUCCESS, Some p1, m1, \<sigma>1)"
      "map_holds ?H ssz \<sigma> \<sigma>1 m1 [(k1, v1)]"
    by (rule map_one_ok [OF ok])
  obtain p2 m2 \<sigma>2 where s2: "KFlatHashMap_Emplace ?H plain_ops ssz \<sigma>1 m1 k2 v2 = Some (STATUS_SUCCESS, Some p2, m2, \<sigma>2)"
      "map_holds ?H ssz \<sigma> \<sigma>2 m2 [(k2, v2), (k1, v1)]"
    by (rule map_holds_emplace [OF s1(2), of k2 v2]) (use k in simp_all)
  obtain i where f1: "KFlatHashMap_Find ?H m2 k1 = Some (Some i)" "deref m2 (Some i) = Some v1"
    by (rule map_holds_present [OF s2(2), of k1 v1]) (use k in simp_all)
  obtain j where f2: "KFlatHashMap_Find ?H m2 k2 = Some (Some j)" "deref m2 (Some j) = Some v2"
    by (rule map_holds_present [OF s2(2), of k2 v2]) simp_all
  have no: "KFlatHashMap_Find ?H m2 kMissing = Some None"
    using k by (intro map_holds_absent [OF s2(2)]) simp
  obtain \<sigma>3 where "KFlatHashMap_destroy plain_ops \<sigma>2 m2 = Some \<sigma>3" "owns_step \<sigma> {} \<sigma>3 {}"
    by (rule map_holds_destroy [OF s2(2)])
  then show thesis
    using that by (simp add: map_two_keys_def s1(1) s2(1) f1 f2 no)
qed

lemma map_identity_ok:
  assumes ok: "sys_ok \<sigma>" "affords \<sigma>"
  obtains \<sigma>' where "map_identity \<sigma> = Some \<sigma>'" "owns_step \<sigma> {} \<sigma>' {}"
proof -
  have small: "8 \<le> (2 :: nat) ^ 16" "16 \<le> (2 :: nat) ^ 16"
    by simp_all
  obtain m1 \<sigma>1 p1 i1 where s1: "KFlatHashMap_Emplace (identity_hash word_bytes) plain_ops 8 \<sigma> KFlatHashMap_new (42 :: 16 word) (0 :: 32 word) =
        Some (STATUS_SUCCESS, Some p1, m1, \<sigma>1)"
      "KFlatHashMap_Find (identity_hash word_bytes) m1 42 = Some (Some i1)" "map_holds (identity_hash word_bytes) 8 \<sigma> \<sigma>1 m1 [(42, 0)]"
    by (rule map_one_ok [OF ok small(1)])
  have n1: "sys_ok \<sigma>1" "affords \<sigma>1"
    using map_holds_sys [OF s1(3)] by simp_all
  obtain m2 \<sigma>2 p2 i2 where s2: "KFlatHashMap_Emplace (identity_hash word_bytes) plain_ops 8 \<sigma>1 KFlatHashMap_new (0xDEADBEEF :: 32 word) (0 :: 32 word) =
        Some (STATUS_SUCCESS, Some p2, m2, \<sigma>2)"
      "KFlatHashMap_Find (identity_hash word_bytes) m2 0xDEADBEEF = Some (Some i2)"
      "map_holds (identity_hash word_bytes) 8 \<sigma>1 \<sigma>2 m2 [(0xDEADBEEF, 0)]"
    by (rule map_one_ok [OF n1 small(1)])
  have n2: "sys_ok \<sigma>2" "affords \<sigma>2"
    using map_holds_sys [OF s2(3)] by simp_all
  obtain m3 \<sigma>3 p3 i3 where s3: "KFlatHashMap_Emplace (identity_hash word_bytes) plain_ops 16 \<sigma>2 KFlatHashMap_new (0xABCDEF1234567890 :: u64) (0 :: 32 word) =
        Some (STATUS_SUCCESS, Some p3, m3, \<sigma>3)"
      "KFlatHashMap_Find (identity_hash word_bytes) m3 0xABCDEF1234567890 = Some (Some i3)"
      "map_holds (identity_hash word_bytes) 16 \<sigma>2 \<sigma>3 m3 [(0xABCDEF1234567890, 0)]"
    by (rule map_one_ok [OF n2 small(2)])
  obtain \<sigma>4 where s4: "KFlatHashMap_destroy plain_ops \<sigma>3 m3 = Some \<sigma>4" "owns_step \<sigma>2 {} \<sigma>4 {}"
    by (rule map_holds_destroy [OF s3(3)])
  obtain \<sigma>5 where s5: "KFlatHashMap_destroy plain_ops \<sigma>4 m2 = Some \<sigma>5" "owns_step \<sigma>1 {} \<sigma>5 {}"
    by (rule map_holds_destroy [OF map_holds_frame [OF s2(3) s4(2)]])
  obtain \<sigma>6 where s6: "KFlatHashMap_destroy plain_ops \<sigma>5 m1 = Some \<sigma>6" "owns_step \<sigma> {} \<sigma>6 {}"
    by (rule map_holds_destroy [OF map_holds_frame [OF s1(3) s5(2)]])
  have "map_identity \<sigma> = Some \<sigma>6"
    by (simp add: map_identity_def s1(1,2) s2(1,2) s3(1,2) s4(1) s5(1) s6(1))
  then show thesis
    using that s6(2) by blast
qed

lemma map_of_rev_distinct:
  assumes "distinct (map fst es)" "kv \<in> set es"
  shows "map_of (rev es) (fst kv) = Some (snd kv)"
  using assms by (intro map_of_is_SomeI) (simp_all add: rev_map [symmetric])

lemma precomputedKey_low: "i < 100 \<Longrightarrow> unat (take_bit 32 (precomputedKey i)) = i"
  by (simp add: precomputedKey_def take_bit_or take_bit_push_bit unsigned_take_bit_eq unat_of_nat take_bit_nat_eq_self)

lemma map_precomputed_ok:
  assumes ok: "sys_ok \<sigma>" "affords \<sigma>"
  obtains \<sigma>' where "map_precomputed \<sigma> = Some \<sigma>'" "owns_step \<sigma> {} \<sigma>' {}"
proof -
  define es :: "(u64 \<times> 32 word) list" where "es = map (\<lambda>i. (precomputedKey i, word_of_nat i)) [0..<100]"
  have "inj_on precomputedKey {0..<100}"
    by (rule inj_on_inverseI [where g = "\<lambda>k. unat (take_bit 32 k)"]) (simp add: precomputedKey_low)
  then have "distinct (map precomputedKey [0..<100])"
    by (simp add: distinct_map)
  then have dis: "distinct (map fst es)"
    by (simp add: es_def comp_def)
  have es: "length es = 100" "(precomputedKey 50, 50) \<in> set es"
    by (auto simp: es_def image_iff intro!: bexI [of _ 50])
  have "map_holds KPrecomputedHash 16 \<sigma> \<sigma> KFlatHashMap_new ([] :: (u64 \<times> 32 word) list)"
    by (rule map_holds_new [OF ok]) simp
  then obtain m \<sigma>1 where s1: "emplace_loop (\<lambda>status. True) KPrecomputedHash 16 \<sigma> KFlatHashMap_new es = Some (m, \<sigma>1)"
      "map_holds KPrecomputedHash 16 \<sigma> \<sigma>1 m (rev es)"
    using map_holds_emplace_loop [of KPrecomputedHash 16 \<sigma> \<sigma> KFlatHashMap_new "[]" es "\<lambda>status. True"] dis es(1) by auto
  obtain i where f: "KFlatHashMap_Find KPrecomputedHash m (precomputedKey 50) = Some (Some i)" "deref m (Some i) = Some 50"
    by (rule map_holds_present [OF s1(2)]) (use map_of_rev_distinct [OF dis es(2)] in auto)
  obtain \<sigma>2 where d: "KFlatHashMap_destroy plain_ops \<sigma>1 m = Some \<sigma>2" "owns_step \<sigma> {} \<sigma>2 {}"
    by (rule map_holds_destroy [OF s1(2)])
  have "map_precomputed \<sigma> = Some \<sigma>2"
    unfolding map_precomputed_def es_def [symmetric] by (simp add: s1(1) f d(1))
  then show thesis
    using that d(2) by blast
qed

lemma map_collisions_ok:
  assumes ok: "sys_ok \<sigma>" "affords \<sigma>"
  obtains m \<sigma>' where "map_collisions \<sigma> = Some (m, \<sigma>')" "map_holds CollisionHash 16 \<sigma> \<sigma>' m (rev collision_pairs)"
    "distinct (map fst collision_pairs)" "length collision_pairs = 12"
proof -
  have "distinct (map fst collision_pairs) \<and> length collision_pairs = 12"
    by code_simp
  then have dis: "distinct (map fst collision_pairs)" and len: "length collision_pairs = 12"
    by simp_all
  have "map_holds CollisionHash 16 \<sigma> \<sigma> KFlatHashMap_new ([] :: (u64 \<times> 32 word) list)"
    by (rule map_holds_new [OF ok]) simp
  then obtain m \<sigma>1 where s1: "emplace_loop (\<lambda>colStatus. colStatus = STATUS_SUCCESS) CollisionHash 16 \<sigma> KFlatHashMap_new collision_pairs = Some (m, \<sigma>1)"
      "map_holds CollisionHash 16 \<sigma> \<sigma>1 m (rev collision_pairs)"
    using map_holds_emplace_loop [of CollisionHash 16 \<sigma> \<sigma> KFlatHashMap_new "[]" collision_pairs "\<lambda>s. s = STATUS_SUCCESS"] dis len
    by auto
  have "find_loop CollisionHash m collision_pairs = Some ()"
    using map_of_rev_distinct [OF dis] by (intro map_holds_find_loop [OF s1(2)]) blast
  then have "map_collisions \<sigma> = Some (m, \<sigma>1)"
    by (simp add: map_collisions_def s1(1))
  then show thesis
    using that s1(2) dis len by blast
qed

text \<open>The entries a loop over the map visits, and the first of them.\<close>

lemma map_holds_iterate:
  assumes h: "map_holds H ssz \<sigma>0 \<sigma> m es" and dis: "distinct (map fst es)"
  obtains es' where "iterate m = Some es'" "set es' = set es" "length es' = length es"
proof -
  obtain es' where it: "iterate m = Some es'" "distinct (map fst es')" "map_of es' = hm_map m"
    by (rule iterate_spec [OF map_holds_table [OF h]])
  have "map_of es' = map_of es"
    using it(3) h by (simp add: map_holds_def)
  then have same: "set es' = set es"
    using map_of_inject_set [OF it(2) dis] by simp
  have "length es' = card (set es')" "length es = card (set es)"
    using it(2) dis by (simp_all add: distinct_map distinct_card)
  then show thesis
    using that it(1) same by simp
qed

lemma iterate_first:
  assumes "iterate m = Some (kv # es)"
  obtains it e where "KFlatHashMap_begin m = Some it" "KFlatHashMap_end m = Some e" "it \<noteq> e" "iterator_deref m it = Some kv"
  using assms that
  by (auto simp: iterate_def bind_eq_Some_conv iterate_from.simps [of m] split: if_splits)

lemma map_iterator_ok:
  assumes ok: "sys_ok \<sigma>" "affords \<sigma>" "ssz \<le> 2 ^ 16"
  obtains m \<sigma>' es where "map_iterator ssz \<sigma> = Some (m, \<sigma>')" "map_holds (default_hash word_bytes) ssz \<sigma> \<sigma>' m es"
proof -
  let ?H = "default_hash word_bytes :: u64 \<Rightarrow> u64"
  obtain m \<sigma>1 p i where s1: "KFlatHashMap_Emplace ?H plain_ops ssz \<sigma> KFlatHashMap_new 777 ''Lucky'' = Some (STATUS_SUCCESS, Some p, m, \<sigma>1)"
      "map_holds ?H ssz \<sigma> \<sigma>1 m [(777, ''Lucky'')]"
    by (rule map_one_ok [OF ok])
  obtain es' where es': "iterate m = Some es'" "set es' = {(777, ''Lucky'')}" "length es' = 1"
    by (rule map_holds_iterate [OF s1(2)]) simp_all
  then have "iterate m = Some [(777, ''Lucky'')]"
    by (cases es') auto
  then obtain it e where it: "KFlatHashMap_begin m = Some it" "KFlatHashMap_end m = Some e" "it \<noteq> e"
      "iterator_deref m it = Some (777, ''Lucky'')"
    by (rule iterate_first)
  have "has_key (hm_slots m) 777 it"
    using it(4) by (auto simp: iterator_deref_def has_key_def bind_eq_Some_conv rd_eq_Some_iff)
  then obtain m2 where s2: "set_value_at m it ''Changed'' = Some m2"
      "map_holds ?H ssz \<sigma> \<sigma>1 m2 [(777, ''Changed''), (777, ''Lucky'')]"
    by (rule map_holds_set [OF s1(2)])
  obtain j where f: "KFlatHashMap_Find ?H m2 777 = Some (Some j)" "deref m2 (Some j) = Some ''Changed''"
    by (rule map_holds_present [OF s2(2), of 777 "''Changed''"]) simp_all
  have "map_iterator ssz \<sigma> = Some (m2, \<sigma>1)"
    using it(3) by (simp add: map_iterator_def s1(1) it(1,2,4) s2(1) f)
  then show thesis
    using that s2(2) by blast
qed

text \<open>Clearing a map of plain values touches no pool block, whatever the pool is.\<close>

lemma plain_destroy_lanes:
  fixes s s' :: 's
  shows "destroy_lanes (\<lambda>s v. s) slots g js s = Some t \<Longrightarrow> t = s \<and> destroy_lanes (\<lambda>s v. s) slots g js s' = Some s'"
  by (induction js) (auto split: option.splits)

lemma plain_destroy_groups:
  fixes s s' :: 's
  shows "destroy_groups (\<lambda>s v. s) ctrl slots cap g s = Some t \<Longrightarrow> t = s \<and> destroy_groups (\<lambda>s v. s) ctrl slots cap g s' = Some s'"
proof (induction "cap - g" arbitrary: g s s' rule: less_induct)
  case less
  show ?case
  proof (cases "g < cap")
    case False
    then show ?thesis
      using less.prems by (simp add: destroy_groups.simps [of _ _ _ _ g])
  next
    case True
    obtain b u where b: "LoadCtrlGroup ctrl g = Some b" "destroy_lanes (\<lambda>s v. s) slots g (mark_lanes (occupied_mask b)) s = Some u"
        "destroy_groups (\<lambda>s v. s) ctrl slots cap (g + kGroupSize) u = Some t"
      using less.prems True by (auto simp: destroy_groups.simps [of _ _ _ _ g] bind_eq_Some_conv)
    have u: "u = s" and l: "destroy_lanes (\<lambda>s v. s) slots g (mark_lanes (occupied_mask b)) s' = Some s'" for s' :: 's
      using plain_destroy_lanes [OF b(2), of s'] by simp_all
    have "cap - (g + kGroupSize) < cap - g"
      using True by (simp add: kGroupSize_def)
    from less.hyps [OF this b(3)] have "t = u" "destroy_groups (\<lambda>s v. s) ctrl slots cap (g + kGroupSize) s' = Some s'"
      by simp_all
    then show ?thesis
      using u l True b(1) by (simp add: destroy_groups.simps [of _ _ _ _ g])
  qed
qed

lemma plain_destroy_elements:
  assumes "KFlatHashMap_DestroyElements plain_ops \<sigma> m = Some \<sigma>1"
  shows "\<sigma>1 = \<sigma>" "KFlatHashMap_DestroyElements plain_ops \<sigma>' m = Some \<sigma>'"
  using assms plain_destroy_groups [where ctrl = "hm_ctrl m" and slots = "hm_slots m" and cap = "hm_cap m" and g = 0
      and s = \<sigma> and t = \<sigma>1 and s' = \<sigma>']
  by (auto simp: KFlatHashMap_DestroyElements_def plain_ops_def split: if_splits)

lemma plain_clear:
  assumes "KFlatHashMap_Clear plain_ops \<sigma> m = Some (m', \<sigma>1)"
  shows "\<sigma>1 = \<sigma>" "KFlatHashMap_Clear plain_ops \<sigma>' m = Some (m', \<sigma>')"
  using assms plain_destroy_elements [of \<sigma> m] by (auto simp: KFlatHashMap_Clear_def bind_eq_Some_conv split: if_splits)

lemma map_holds_clear:
  assumes h: "map_holds H ssz \<sigma>0 \<sigma> m es"
  obtains m' where "\<And>\<sigma>'. KFlatHashMap_Clear plain_ops \<sigma>' m = Some (m', \<sigma>')" "map_holds H ssz \<sigma>0 \<sigma> m' []"
proof -
  have d: "sys_ok \<sigma>" "hm_ok H ssz (\<lambda>v. {}) (\<lambda>\<sigma> v. True) \<sigma> m" "hm_cap m \<le> 2 ^ 20"
    using h map_holds_sys [OF h] by (simp_all add: map_holds_def)
  obtain m' \<sigma>1 where c: "KFlatHashMap_Clear plain_ops \<sigma> m = Some (m', \<sigma>1)" "hm_ok H ssz (\<lambda>v. {}) (\<lambda>\<sigma> v. True) \<sigma>1 m'"
      "hm_map m' = Map.empty" "owns_step \<sigma> (hm_owned (\<lambda>v. {}) m) \<sigma>1 (hm_owned (\<lambda>v. {}) m')" "hm_cap m' = hm_cap m"
    by (rule plain.Clear_spec [OF d(1,2)])
  have "map_holds H ssz \<sigma>0 \<sigma> m' []"
    using map_holds_step [OF h, of \<sigma> m' "[]"] c(2-5) d(3) plain_clear(1) [OF c(1)] by simp
  then show thesis
    using that plain_clear(2) [OF c(1)] by blast
qed

lemma map_iterating_ok:
  assumes h: "map_holds CollisionHash 16 \<sigma>0 \<sigma> m (rev collision_pairs)"
    and dis: "distinct (map fst collision_pairs)" "length collision_pairs = 12"
  obtains m' where "\<And>\<sigma>'. map_iterating \<sigma>' m = Some (m', \<sigma>')" "map_holds CollisionHash 16 \<sigma>0 \<sigma> m' []"
proof -
  obtain es where es: "iterate m = Some es" "length es = 12"
    by (rule map_holds_iterate [OF h]) (use dis in \<open>simp_all add: rev_map [symmetric]\<close>)
  obtain m' where m': "\<And>\<sigma>'. KFlatHashMap_Clear plain_ops \<sigma>' m = Some (m', \<sigma>')" "map_holds CollisionHash 16 \<sigma>0 \<sigma> m' []"
    using map_holds_clear [OF h] by metis
  have "iterate m' = Some []"
    by (rule map_holds_iterate [OF m'(2)]) simp_all
  then have "map_iterating \<sigma>' m = Some (m', \<sigma>')" for \<sigma>'
    by (simp add: map_iterating_def es m'(1))
  then show thesis
    using that m'(2) by blast
qed

section \<open>The limits\<close>

text \<open>
  The last block asks for \<open>SIZE_MAX >> 4\<close> entries, to get past the checks of the size arithmetic:
  a table of \<open>2 ^ 61\<close> slots of 16 bytes. That product is out of range, and checked arithmetic
  says so; only arithmetic that wraps, as the stubs do, goes on to the allocator.
\<close>

definition with_stubs :: "sys \<Rightarrow> sys" where
  "with_stubs \<sigma> = \<sigma>\<lparr>SizeTMult := stub_RtlSizeTMult, SizeTAdd := stub_RtlSizeTAdd\<rparr>"

lemma limit_bits:
  "BitScanReverse64 1647030720866924248 = Some 60"
  "BitScanReverse64 2635249153387078799 = Some 61"
  by code_simp+

lemma map_limits_aborts:
  assumes "sys_ok \<sigma>"
  shows "map_limits \<sigma> = None"
proof -
  let ?H = "default_hash word_bytes" and ?m = "KFlatHashMap_new :: (u64, 32 word) kmap"
  have mult: "SizeTMult \<sigma> a b = (if a * b < 2 ^ 64 then Some (a * b) else None)" for a b
    using assms by (simp add: sys_ok_def wdk_arith_def)
  have "KFlatHashMap_Reserve ?H plain_ops 16 \<sigma> ?m SIZE_MAX = Some (STATUS_INTEGER_OVERFLOW, ?m, \<sigma>)"
    by (simp add: KFlatHashMap_Reserve_def mult SIZE_MAX_def)
  moreover have "KFlatHashMap_Reserve ?H plain_ops 16 \<sigma> ?m (drop_bit 4 SIZE_MAX) = Some (STATUS_INTEGER_OVERFLOW, ?m, \<sigma>)"
    by (simp add: KFlatHashMap_Reserve_def KFlatHashMap_Rehash_def table_bytes_def mult SIZE_MAX_def drop_bit_eq_div Let_def limit_bits)
  ultimately show ?thesis
    by (simp add: map_limits_def Let_def ASSERTMSG_def)
qed

lemma limit_refused:
  assumes "refuses_huge \<sigma>" "SizeTMult \<sigma> = stub_RtlSizeTMult" "SizeTAdd \<sigma> = stub_RtlSizeTAdd" "n = SIZE_MAX \<or> n = drop_bit 4 SIZE_MAX"
  shows "KFlatHashMap_Reserve H plain_ops 16 \<sigma> KFlatHashMap_new n =
    Some (STATUS_INSUFFICIENT_RESOURCES, KFlatHashMap_new, \<sigma>\<lparr>requests := Suc (requests \<sigma>)\<rparr>)"
proof -
  have refused: "ExAllocatePool2 \<sigma> bytes = (None, \<sigma>\<lparr>requests := Suc (requests \<sigma>)\<rparr>)" if "2 ^ 60 \<le> bytes" for bytes
    using that assms(1) by (simp add: ExAllocatePool2_def refuses_huge_def)
  from assms(4) show ?thesis
    by (elim disjE) (simp_all add: KFlatHashMap_Reserve_def KFlatHashMap_Rehash_def table_bytes_def maxPadding_def assms(2,3)
        stub_RtlSizeTMult_def stub_RtlSizeTAdd_def SIZE_MAX_def drop_bit_eq_div Let_def limit_bits refused)
qed

lemma map_limits_stubs:
  assumes "refuses_huge \<sigma>"
  shows "map_limits (with_stubs \<sigma>) \<noteq> None"
proof -
  let ?\<sigma> = "with_stubs \<sigma>"
  let ?\<sigma>1 = "?\<sigma>\<lparr>requests := Suc (requests ?\<sigma>)\<rparr>"
  have re: "refuses_huge ?\<sigma>" "refuses_huge ?\<sigma>1"
    using assms by (simp_all add: with_stubs_def refuses_huge_def)
  have ar: "SizeTMult ?\<sigma> = stub_RtlSizeTMult" "SizeTAdd ?\<sigma> = stub_RtlSizeTAdd"
    "SizeTMult ?\<sigma>1 = stub_RtlSizeTMult" "SizeTAdd ?\<sigma>1 = stub_RtlSizeTAdd"
    by (simp_all add: with_stubs_def)
  note r = limit_refused [OF re(1) ar(1,2)] limit_refused [OF re(2) ar(3,4)]
  show ?thesis
    by (simp add: map_limits_def Let_def r KFlatHashMap_destroy_def KFlatHashMap_DestroyElements_def)
qed

lemma map_complex_ok:
  assumes ok: "sys_ok \<sigma>" "affords \<sigma>"
  obtains \<sigma>1 where "map_complex \<sigma> = Some \<sigma>1" "owns_step \<sigma> {} \<sigma>1 {}"
  by (rule map_two_keys_ok [OF ok, of 32 "(0x111, 0x222, 0x333)" "(0x444, 0x555, 0x666)" "(0x777, 0x888, 0x999)" complex_bytes 42 84])
    (auto simp: map_complex_def)

lemma map_tail_ok:
  assumes ok: "sys_ok \<sigma>" "affords \<sigma>"
  obtains \<sigma>1 where "map_tail \<sigma> = Some \<sigma>1" "owns_step \<sigma> {} \<sigma>1 {}"
  by (rule map_two_keys_ok [OF ok, of 16 "(1, 2, 3)" "(4, 5, 6)" "(7, 8, 9)" tail_bytes 100 200])
    (auto simp: map_tail_def)

section \<open>The outcome\<close>

lemma map_holds_refuses: "map_holds H ssz \<sigma>0 \<sigma> m es \<Longrightarrow> refuses_huge \<sigma> = refuses_huge \<sigma>0"
  unfolding map_holds_def using refuses_huge_step by blast

lemma map_blocks_ok:
  assumes ok: "sys_ok \<sigma>" "affords \<sigma>" "ssz \<le> 2 ^ 16"
  obtains m c i \<sigma>' where "map_blocks ssz \<sigma> = Some (m, c, i, \<sigma>')" "sys_ok \<sigma>'" "refuses_huge \<sigma>' = refuses_huge \<sigma>"
    "\<And>\<tau>. owns_step \<sigma>' {} \<tau> {} \<Longrightarrow> \<exists>\<tau>1 \<tau>2 \<tau>3. KFlatHashMap_destroy plain_ops \<tau> i = Some \<tau>1 \<and>
       KFlatHashMap_destroy plain_ops \<tau>1 c = Some \<tau>2 \<and> KFlatHashMap_destroy plain_ops \<tau>2 m = Some \<tau>3 \<and> owns_step \<sigma> {} \<tau>3 {}"
proof -
  obtain m \<sigma>1 es where s1: "map_basics ssz \<sigma> = Some (m, \<sigma>1)" "map_holds (default_hash word_bytes) ssz \<sigma> \<sigma>1 m es"
    by (rule map_basics_ok [OF ok])
  have n1: "sys_ok \<sigma>1" "affords \<sigma>1"
    using map_holds_sys [OF s1(2)] by simp_all
  obtain \<sigma>2 where s2: "map_hashers \<sigma>1 = Some \<sigma>2" "owns_step \<sigma>1 {} \<sigma>2 {}"
    by (rule map_hashers_ok [OF n1])
  note n2 = after_block [OF n1 s2(2)]
  obtain \<sigma>3 where s3: "map_complex \<sigma>2 = Some \<sigma>3" "owns_step \<sigma>2 {} \<sigma>3 {}"
    by (rule map_complex_ok [OF n2(1,2)])
  note n3 = after_block [OF n2(1,2) s3(2)]
  obtain \<sigma>4 where s4: "map_tail \<sigma>3 = Some \<sigma>4" "owns_step \<sigma>3 {} \<sigma>4 {}"
    by (rule map_tail_ok [OF n3(1,2)])
  note n4 = after_block [OF n3(1,2) s4(2)]
  obtain \<sigma>5 where s5: "map_identity \<sigma>4 = Some \<sigma>5" "owns_step \<sigma>4 {} \<sigma>5 {}"
    by (rule map_identity_ok [OF n4(1,2)])
  note n5 = after_block [OF n4(1,2) s5(2)]
  obtain \<sigma>6 where s6: "map_precomputed \<sigma>5 = Some \<sigma>6" "owns_step \<sigma>5 {} \<sigma>6 {}"
    by (rule map_precomputed_ok [OF n5(1,2)])
  note n6 = after_block [OF n5(1,2) s6(2)]
  have inner: "owns_step \<sigma>1 {} \<sigma>6 {}"
    using n2(3) n3(3) n4(3) n5(3) s2(2) s3(2) s4(2) s5(2) s6(2) by blast
  obtain c \<sigma>7 where s7: "map_collisions \<sigma>6 = Some (c, \<sigma>7)" "map_holds CollisionHash 16 \<sigma>6 \<sigma>7 c (rev collision_pairs)"
      "distinct (map fst collision_pairs)" "length collision_pairs = 12"
    by (rule map_collisions_ok [OF n6(1,2)])
  have n7: "sys_ok \<sigma>7" "affords \<sigma>7"
    using map_holds_sys [OF s7(2)] by simp_all
  obtain i \<sigma>8 fs where s8: "map_iterator ssz \<sigma>7 = Some (i, \<sigma>8)" "map_holds (default_hash word_bytes) ssz \<sigma>7 \<sigma>8 i fs"
    by (rule map_iterator_ok [OF n7 ok(3)])
  obtain c' where s9: "\<And>\<sigma>'. map_iterating \<sigma>' c = Some (c', \<sigma>')" "map_holds CollisionHash 16 \<sigma>6 \<sigma>7 c' []"
    using map_iterating_ok [OF s7(2-4)] by metis
  have run: "map_blocks ssz \<sigma> = Some (m, c', i, \<sigma>8)"
    by (simp add: map_blocks_def s1(1) s2(1) s3(1) s4(1) s5(1) s6(1) s7(1) s8(1) s9(1))
  show thesis
  proof (rule that [OF run])
    show "sys_ok \<sigma>8"
      using map_holds_sys [OF s8(2)] by simp
    show "refuses_huge \<sigma>8 = refuses_huge \<sigma>"
      using map_holds_refuses [OF s1(2)] refuses_huge_step [OF inner] map_holds_refuses [OF s7(2)] map_holds_refuses [OF s8(2)]
      by simp
    fix \<tau>
    assume "owns_step \<sigma>8 {} \<tau> {}"
    from map_holds_frame [OF s8(2) this]
    obtain \<tau>1 where t1: "KFlatHashMap_destroy plain_ops \<tau> i = Some \<tau>1" "owns_step \<sigma>7 {} \<tau>1 {}"
      by (rule map_holds_destroy)
    obtain \<tau>2 where t2: "KFlatHashMap_destroy plain_ops \<tau>1 c' = Some \<tau>2" "owns_step \<sigma>6 {} \<tau>2 {}"
      by (rule map_holds_destroy [OF map_holds_frame [OF s9(2) t1(2)]])
    have "owns_step \<sigma>1 {} \<tau>2 {}"
      by (rule owns_step_trans [OF inner t2(2) n1(1)])
    from map_holds_frame [OF s1(2) this]
    obtain \<tau>3 where "KFlatHashMap_destroy plain_ops \<tau>2 m = Some \<tau>3" "owns_step \<sigma> {} \<tau>3 {}"
      by (rule map_holds_destroy)
    then show "\<exists>\<tau>1 \<tau>2 \<tau>3. KFlatHashMap_destroy plain_ops \<tau> i = Some \<tau>1 \<and>
        KFlatHashMap_destroy plain_ops \<tau>1 c' = Some \<tau>2 \<and> KFlatHashMap_destroy plain_ops \<tau>2 m = Some \<tau>3 \<and> owns_step \<sigma> {} \<tau>3 {}"
      using t1(1) t2(1) by blast
  qed
qed

end
