(* ===== verification/ContainerSuite.thy ===== *)
theory ContainerSuite
  imports MapTests Samples
begin

text \<open>
  What the correctness tests of the containers come to, over any pool that grants requests below
  \<open>2 ^ 60\<close> bytes, refuses the larger ones, and checks the arithmetic of sizes as the WDK documents.
\<close>

section \<open>A machine\<close>



section \<open>The tests\<close>





end
