(* ===== verification/Spec2Isabelle.thy ===== *)
theory Spec2Isabelle
  imports TextProperties EngineSuite FieldRanges DriverLog ContainerSuite
begin

text \<open>
  Verification of the string pattern matching engine in \<open>src/StringPatternMatch\<close>.

  \<^bold>\<open>The program.\<close> \<open>KmStringPatternMatch\<close> (KmStringPatternMatch.h) holds wildcard patterns, each with
  a caller's context, and answers which of them match a text. \<open>AddPattern\<close> parses a pattern into a
  literal prefix, a wildcard part and a literal tail, stores the text in a string arena, the
  context in a block deque, and files an entry: under the hash of its prefix in a flat hash map
  whose values are vectors of entries, or, for a pattern that begins with a wildcard, in the
  slow-path list. \<open>Search\<close> rolls a hash along the text, visits the bucket of every prefix length
  on file, then the slow-path list; the wildcard part is decided by a state machine with a SWAR
  accelerator. Everything runs on the pool allocator, any call of which may fail, and \<open>AddPattern\<close>
  rolls the arena back on failure.

  \<^bold>\<open>Conventions.\<close> A definition has the name of the function or type it models. Machine words are
  \<open>8 word\<close>, \<open>16 word\<close> (the two character types) and \<open>64 word\<close> (hashes, SWAR blocks); \<open>UINT32\<close>
  and \<open>SIZE_T\<close> counters are \<open>nat\<close> with the wrap-around written out (\<open>add32\<close>, \<open>sub32\<close>, \<open>trunc32\<close>,
  \<open>mod 2 ^ 64\<close>) where the code computes with them. A read outside a buffer, a dangling pointer or a
  loop that does not end is \<open>None\<close> of an option; an error status is a value of \<open>ntstatus\<close>. The
  allocator and the checked arithmetic of the WDK are not code of the repository: they are
  parameters, the fields \<open>grants\<close>, \<open>SizeTMult\<close> and \<open>SizeTAdd\<close> of the record \<open>sys\<close>, which also
  keeps the live blocks. The upcase table of the platform is the parameter \<open>up\<close> (\<open>case_table_ok\<close>
  says that it does not map a letter to a pattern metacharacter), the size of a context
  \<open>csz\<close>. The operations pass \<open>sys\<close> along and return it changed.

  \<^bold>\<open>Theories, in the order of the code.\<close>
  \<^item> \<open>Prelude\<close>, \<open>Platform\<close>: bounded reads and writes, 32-bit arithmetic, status codes, intrinsics,
    the allocator, and \<open>owns_step\<close>, the ownership of pool blocks every specification uses: no
    block of others is touched, none is leaked, none freed twice.
  \<^item> \<open>Swar\<close>, \<open>CharOps\<close>: blocks of characters in a word; \<open>ToUpperFast\<close>, \<open>IsAsciiSWAR\<close>, \<open>ToUpperSWAR\<close>,
    \<open>Mix64\<close>, \<open>CalculateHash\<close>.
  \<^item> \<open>Glob\<close>: the meaning of a pattern (\<open>gmatch\<close> on tokens), the specification of all matching.
  \<^item> \<open>FastForward\<close>, \<open>WildCardMatch\<close>: the accelerator and the state machine.
  \<^item> \<open>PatternParse\<close>, \<open>LiteralMatch\<close>, \<open>PatternRule\<close>: the parsing loops of \<open>AddPattern\<close>, the literal
    comparisons, and the checks of one entry; \<open>pattern_matches\<close> is their specification.
  \<^item> \<open>AppendStore\<close>, \<open>KVector\<close>, \<open>KDeque\<close>: the interface (a locale) of a growing sequence and its two
    providers, KVector.h and KDeque.h.
  \<^item> \<open>StringArena\<close>: \<open>KStringArena\<close>, its slabs, bookmarks and rollback.
  \<^item> \<open>CtrlGroup\<close>, \<open>KHashTable\<close>, \<open>KHashMigrate\<close>, \<open>KHashMap\<close>, \<open>KHashMapSpec\<close>, \<open>KHasher\<close>: KHashMap.h, from
    the control bytes and the probe to the map's operations, its iterator, its specification over
    \<open>hm_map\<close> (in the locale \<open>map_value\<close>, the interface of the value type), and the hash functors.
  \<^item> \<open>Resources\<close>: when operations succeed: the locale \<open>bounded_store\<close> and the facts that a
    \<open>generous\<close> allocator, or for the vector and the map one that grants moderate sizes
    (\<open>affords\<close>), leaves only the code's own limits.
  \<^item> \<open>Engine\<close>, \<open>EngineSearch\<close>: the class, \<open>AddPattern\<close>, \<open>Clear\<close>, the destructor, and the searches.
  \<^item> \<open>EngineInv\<close>, \<open>EngineSearchSpec\<close>, \<open>EngineText\<close>, \<open>EngineMem\<close>, \<open>EngineAdd\<close>, \<open>EngineCommit\<close>,
    \<open>EngineSpec\<close>: the invariant \<open>engine_ok\<close> that ties the containers to a list of rules, the search
    over it, registration as a transaction (\<open>tx_ok\<close> between the steps, rollback or commit at the
    end), and the specification of every operation of the class.
  \<^item> \<open>EngineMachine\<close>: sequences of requests as a step relation, the specification they refine (a
    list of patterns with scopes and contexts), its simulation by the engine, and the budget
    (\<open>usage\<close>) that shows that an engine with memory accepts its first 131072 requests.
  \<^item> \<open>FieldRanges\<close>: the UINT32 fields of the engine and of its entries stay in the range of the
    type, so that natural numbers represent them.
  \<^item> \<open>EngineTests\<close>, \<open>EngineSuite\<close>: the correctness tests of KmStringPatternTest.h as programs over the
    engine, what each of them answers (\<open>answers\<close>), their table, and the evaluation of the table.
  \<^item> \<open>ContainerTests\<close>, \<open>VectorTests\<close>, \<open>MapTests\<close>, \<open>ContainerSuite\<close>: the correctness tests of
    ContainerTests.cpp as programs over the containers, several of which are alive over one pool
    (\<open>deque_holds\<close>, \<open>vectors\<close>, \<open>map_holds\<close>), and what the tests come to.
  \<^item> \<open>DriverLog\<close>: the log buffer of the kernel test driver, KmStringPatternMatchDrv.cpp, against the
    text it keeps (\<open>log_spec\<close>).
  \<^item> \<open>TextProperties\<close>, \<open>ContainerProperties\<close>, this theory: the properties, each with a witness;
    \<open>Samples\<close> has the inputs of the witnesses of the engine.

  \<^bold>\<open>What the lemmas show.\<close> The loops over text end and stay in bounds, and equal the reference
  matcher, scan or comparison, whatever the block size. Every container operation returns, keeps
  its invariant over the pool and does to the contents what its name says, on every branch, with
  the failures listed. For the engine: a simulation of the specification by every sequence of
  requests under every allocator; searches that visit exactly the matching rules; failures
  that cannot be seen; context pointers that stay valid; and a destructor that gives everything
  back.

  \<^bold>\<open>Bounds and fuel.\<close> No definition takes fuel: structural recursion and measures where the code's
  loop is bounded, \<^theory_text>\<open>partial_function (option)\<close> for the loops whose end depends on the data (the
  probe, the chain of slabs, the accelerator, the state machine, the iterator), which the theorems
  show to return a value. Texts and patterns are shorter than \<open>2 ^ 32\<close> (the type of the length
  parameters), the checked arithmetic is that of the WDK (\<open>wdk_arith\<close>). \<open>roomy\<close> bounds the
  tables by \<open>2 ^ 40\<close> entries, far above the 131072 patterns an engine takes.

  \<^bold>\<open>Not modelled.\<close> Of the tests, the performance tiers with their threads and clocks
  (\<open>src/TestCommon\<close>), the benchmarks against the standard library and the block that counts
  destructor calls on vector elements (\<open>src/TestContainer\<close>), and the user-mode program
  (\<open>src/TestUm\<close>). What the tests print is left out; the size of a map slot with a \<open>std::string\<close> is a
  parameter, and so are, in the kernel driver, the formatting of a line, the file and the test
  thread. \<open>src/UMStubs\<close> stands in for kernel headers; of it only the status codes, the
  allocator's interface and the two arithmetic stubs are used. \<open>PlatformUtils.h\<close> is
  placement new and type traits, which have no run-time effect here. Of the vector and the deque the
  destructor calls on elements are left out: the engine stores plain data in them (the map, whose
  values are vectors, has them). Prefetches, alignment asserts and the pool tag have no effect on
  results. Concurrency is the caller's: the class takes no lock.
\<close>

section \<open>The engine against its specification\<close>

text \<open>
  C1: whatever sequence of registrations and resets a new engine has gone through, with whatever
  allocations refused, the search for a match finds one exactly when a rule of the
  specification, the list of accepted patterns since the last reset, matches the text, and the
  pointer it returns leads to the context of such a rule.
\<close>

theorem search_refines_spec:
  fixes e :: "('c::len word, 'ctx) engine"
  assumes "tchar_ok TYPE('c)" "case_table_ok up ci" "sys_ok \<sigma>0"
    and "engine_run up csz ls (\<sigma>0, engine_new ci) (\<sigma>, e)" "passed sText cch = Some str" "length str < 2 ^ 32"
  shows "\<exists>rs found p. spec_run ls [] rs \<and> Search_first up e sText cch False = Some (found, p) \<and>
     (found \<longleftrightarrow> (\<exists>x \<in> set rs. spec_matches up ci str x)) \<and>
     (found \<longrightarrow> (\<exists>x \<in> set rs. spec_matches up ci str x \<and> (\<exists>q. p = Some q \<and> context_at e q = Some (snd (snd x)))))"
  by (rule run_search [OF assms]) blast

theorem search_refines_spec_witness:
  "\<exists>\<sigma> e q. engine_run id 8 demo_requests (demo_sys, engine_new False) (\<sigma>, e) \<and>
     Search_first id e (Some [97, 98]) 2 False = Some (True, Some q) \<and> context_at e q = Some 7"
proof -
  obtain \<sigma> e where run: "engine_run id 8 demo_requests (demo_sys, engine_new False) (\<sigma>, e)"
    by (rule demo_run)
  obtain rs found p where s: "spec_run demo_requests [] rs" "Search_first id e (Some [97, 98]) 2 False = Some (found, p)"
      "found \<longleftrightarrow> (\<exists>x \<in> set rs. spec_matches id False [97, 98] x)"
      "found \<longrightarrow> (\<exists>x \<in> set rs. spec_matches id False [97, 98] x \<and> (\<exists>q. p = Some q \<and> context_at e q = Some (snd (snd x))))"
    using search_refines_spec [OF tchar_ok_8 demo_case demo_sys_ok(1) run demo_texts(1) demo_length] by blast
  have rs: "rs = [([97, 42], SCOPE_DEFAULT, 7)]"
    by (rule demo_spec [OF s(1)])
  have "spec_matches id False [97, 98] ([97, 42 :: u8], SCOPE_DEFAULT, 7 :: nat)"
    using demo_match(1) by (simp add: spec_matches_def)
  then have found
    using s(3) by (simp add: rs)
  then obtain q where "p = Some q" "context_at e q = Some 7"
    using s(4) by (auto simp: rs)
  moreover from this have "Search_first id e (Some [97, 98]) 2 False = Some (True, Some q)"
    using s(2) \<open>found\<close> by simp
  ultimately show ?thesis
    using run by blast
qed

text \<open>
  C2: \<open>AddPattern\<close> with a valid pointer returns, keeps the invariant and touches only the engine's
  blocks: either it reports success and the new rule is registered behind the others, or it
  reports a failure and the rules are those of before; when the allocator grants every request
  and the engine is below its limits, it succeeds.
\<close>

theorem add_pattern_registers:
  fixes e :: "('c::len word, 'ctx) engine"
  assumes "tchar_ok TYPE('c)" "case_table_ok up (m_bCaseInsensitive e)" "sys_ok \<sigma>" "engine_ok up csz \<sigma> e rules"
    and "passed sPattern cch = Some pat" "cch < 2 ^ 32"
  shows "\<exists>st e' \<sigma>'. AddPattern up csz \<sigma> e sPattern cch scope ctx = Some (st, e', \<sigma>') \<and>
     owns_step \<sigma> (engine_owned e) \<sigma>' (engine_owned e') \<and>
     (st = STATUS_SUCCESS \<and> engine_ok up csz \<sigma>' e' (rules @ [next_rule e rules pat scope ctx]) \<or>
      \<not> NT_SUCCESS st \<and> \<not> roomy \<sigma> e \<and> engine_ok up csz \<sigma>' e' rules)"
  using AddPattern_spec [OF assms, of scope ctx] unfolding add_outcome_def by blast

theorem add_pattern_registers_witness:
  "\<exists>e' \<sigma>'. AddPattern id 8 demo_sys (engine_new False :: (u8, nat) engine) (Some [97, 42]) 2 SCOPE_DEFAULT 7 =
       Some (STATUS_SUCCESS, e', \<sigma>') \<and>
     engine_ok id 8 \<sigma>' e' [next_rule (engine_new False :: (u8, nat) engine) [] [97, 42] SCOPE_DEFAULT 7]"
  using add_pattern_registers [OF tchar_ok_8 demo_case demo_sys_ok(1) demo_new(2) demo_pattern, of False SCOPE_DEFAULT 7]
    demo_new(1) [of False] by auto

text \<open>
  C4: every state that requests lead to satisfies the invariant of the engine for some rules, and
  those rules are what the specification arrives at; the engine owns exactly the blocks taken
  since it was made.
\<close>

theorem run_keeps_invariant:
  fixes e :: "('c::len word, 'ctx) engine"
  assumes "tchar_ok TYPE('c)" "case_table_ok up ci" "sys_ok \<sigma>0"
    and "engine_run up csz ls (\<sigma>0, engine_new ci) (\<sigma>, e)"
  shows "\<exists>rules. engine_ok up csz \<sigma> e rules \<and> spec_run ls [] (map core rules) \<and>
     owns_step \<sigma>0 {} \<sigma> (engine_owned e) \<and> m_bCaseInsensitive e = ci"
  by (rule engine_run_simulates [OF assms]) blast

theorem run_keeps_invariant_witness:
  "\<exists>\<sigma> e rules. engine_run id 8 demo_requests (demo_sys, engine_new False) (\<sigma>, e) \<and> engine_ok id 8 \<sigma> e rules \<and>
     map core rules = [([97, 42], SCOPE_DEFAULT, 7)]"
proof -
  obtain \<sigma> e where run: "engine_run id 8 demo_requests (demo_sys, engine_new False) (\<sigma>, e)"
    by (rule demo_run)
  from run_keeps_invariant [OF tchar_ok_8 demo_case demo_sys_ok(1) this] show ?thesis
    using run demo_spec by blast
qed

text \<open>
  C3: the search that collects visits exactly the registered rules that match the text, each once,
  and stops when the collector says so, for every collector.
\<close>

theorem search_visits_matches:
  fixes e :: "('c::len word, 'ctx) engine"
  assumes "text_ok up (m_bCaseInsensitive e) str" "engine_ok up csz \<sigma> e rules"
  shows "\<exists>hs. SearchInternal up e str Collector s = Some (feed Collector s (map (context_address e) hs)) \<and>
     mset hs = mset (filter (rule_matches up (m_bCaseInsensitive e) str) rules)"
  by (rule exI [of _ "hits up e str rules"]) (simp only: SearchInternal_eq [OF assms] mset_hits_matching [OF assms(2)])

theorem search_visits_matches_witness:
  "\<exists>e' \<sigma>' r. AddPattern id 8 demo_sys (engine_new False :: (u8, nat) engine) (Some [97, 42]) 2 SCOPE_DEFAULT 7 =
       Some (STATUS_SUCCESS, e', \<sigma>') \<and>
     SearchInternal id e' [97, 98] (\<lambda>ps p. (False, ps @ [p])) [] = Some (False, [context_address e' r]) \<and> rCtx r = 7"
proof -
  let ?r = "next_rule (engine_new False :: (u8, nat) engine) [] [97, 42] SCOPE_DEFAULT 7"
  obtain e' \<sigma>' where a: "AddPattern id 8 demo_sys (engine_new False :: (u8, nat) engine) (Some [97, 42]) 2 SCOPE_DEFAULT 7 =
      Some (STATUS_SUCCESS, e', \<sigma>')" "engine_ok id 8 \<sigma>' e' [?r]" "m_bCaseInsensitive e' = False"
    by (rule demo_add)
  have "text_ok id (m_bCaseInsensitive e') [97, 98 :: u8]"
    by (simp add: text_ok_def case_table_ok_def)
  from search_visits_matches [OF this a(2), of "\<lambda>ps p. (False, ps @ [p])" "[]"] obtain hs where
      hs: "SearchInternal id e' [97, 98] (\<lambda>ps p. (False, ps @ [p])) [] =
        Some (feed (\<lambda>ps p. (False, ps @ [p])) [] (map (context_address e') hs))"
      "mset hs = mset (filter (rule_matches id False [97, 98]) [?r])"
    unfolding a(3) by blast
  have "rule_matches id False [97, 98] ?r"
    using demo_match(1) by (simp add: rule_matches_def next_rule_def)
  then have "hs = [?r]"
    using hs(2) by simp
  moreover have "rCtx ?r = 7"
    by (simp add: next_rule_def)
  ultimately show ?thesis
    using a(1) hs(1) by (intro exI [of _ e'] exI [of _ \<sigma>'] exI [of _ ?r]) simp
qed

text \<open>
  C10: while the allocator grants every request and the callers pass valid pointers, the first 131072
  requests are all honoured: every registration of them reports success, resets included.
\<close>

theorem generous_run_accepts:
  fixes e :: "('c::len word, 'ctx) engine"
  assumes "tchar_ok TYPE('c)" "case_table_ok up ci" "sys_ok \<sigma>0" "generous \<sigma>0"
    and "engine_run up csz ls (\<sigma>0, engine_new ci) (\<sigma>, e)"
    and "length ls \<le> kMaxPatterns" "\<forall>l \<in> set ls. well_formed l"
  shows "\<forall>l \<in> set ls. accepted l"
  by (rule run_generous [OF assms, THEN conjunct1])

theorem generous_run_accepts_witness:
  "\<exists>st s'. engine_step id 8 (Register (Some [97, 42]) 2 SCOPE_DEFAULT 7 st) (demo_sys, engine_new False :: (u8, nat) engine) s' \<and>
     st = STATUS_SUCCESS"
proof -
  obtain st s' where step: "engine_step id 8 (Register (Some [97, 42]) 2 SCOPE_DEFAULT 7 st) (demo_sys, engine_new False :: (u8, nat) engine) s'"
    using engine_step_total(1) [OF tchar_ok_8 demo_case demo_sys_ok(1) demo_new(2) demo_caller] by blast
  obtain \<sigma> e where s': "s' = (\<sigma>, e)"
    by (cases s')
  have run: "engine_run id 8 [Register (Some [97, 42]) 2 SCOPE_DEFAULT 7 st] (demo_sys, engine_new False :: (u8, nat) engine) (\<sigma>, e)"
    using run_more [OF run_done step] by (simp add: s')
  have "\<forall>l \<in> set [Register (Some [97, 42 :: u8]) 2 SCOPE_DEFAULT (7 :: nat) st]. accepted l"
    by (rule generous_run_accepts [OF tchar_ok_8 demo_case demo_sys_ok run])
      (simp_all add: kMaxPatterns_def demo_pattern)
  then have "st = STATUS_SUCCESS"
    by simp
  then show ?thesis
    using step by blast
qed

text \<open>
  C9: the search for all matches returns, in the caller's vector, the context pointers of exactly
  the matching rules, each once; when memory is refused it says so and returns part of them.
\<close>

theorem search_all_collects:
  fixes e :: "('c::len word, 'ctx) engine"
  assumes "text_ok up (m_bCaseInsensitive e) str" "engine_ok up csz \<sigma> e rules"
    and "passed sText cch = Some str" "sys_ok \<sigma>" "kv_ok sizeof_pointer \<sigma> v"
  shows "\<exists>st v' \<sigma>'. Search_all up \<sigma> e sText cch v = Some (st, v', \<sigma>') \<and> kv_ok sizeof_pointer \<sigma>' v' \<and>
     owns_step \<sigma> (kv_owned v) \<sigma>' (kv_owned v') \<and>
     (st = STATUS_SUCCESS \<and>
        mset (kv_elems v') = mset (map (context_address e) (filter (rule_matches up (m_bCaseInsensitive e) str) rules)) \<or>
      \<not> NT_SUCCESS st \<and> \<not> generous \<sigma> \<and>
        mset (kv_elems v') \<subset># mset (map (context_address e) (filter (rule_matches up (m_bCaseInsensitive e) str) rules)))"
  by (rule Search_all_spec [OF assms]) blast

theorem search_all_collects_witness:
  "\<exists>st v' \<sigma>'. Search_all id demo_sys (engine_new False :: (u8, nat) engine) (Some [97, 98]) 2 KVector_new = Some (st, v', \<sigma>') \<and>
     st = STATUS_SUCCESS \<and> kv_elems v' = []"
proof -
  have "text_ok id (m_bCaseInsensitive (engine_new False :: (u8, nat) engine)) [97, 98 :: u8]"
    by (simp add: text_ok_def case_table_ok_def)
  from search_all_collects [OF this demo_new(2) demo_texts(1) demo_sys_ok(1) kv_ok_new(1)] show ?thesis
    by auto
qed

section \<open>Failures and lifetime\<close>



text \<open>
  C8: context pointers are stable: a registration, successful or not, keeps the address of every
  rule's context and what is stored there, and different rules have different addresses.
\<close>

theorem contexts_stay_put:
  fixes e :: "('c::len word, 'ctx) engine"
  assumes "tchar_ok TYPE('c)" "case_table_ok up (m_bCaseInsensitive e)" "sys_ok \<sigma>" "engine_ok up csz \<sigma> e rules"
    and "passed sPattern cch = Some pat" "cch < 2 ^ 32"
    and "AddPattern up csz \<sigma> e sPattern cch scope ctx = Some (st, e', \<sigma>')"
  shows "inj_on (context_address e) (set rules) \<and>
     (\<forall>r \<in> set rules. context_address e' r = context_address e r \<and> context_at e' (context_address e r) = Some (rCtx r))"
proof -
  have "contexts_kept e e'"
    using AddPattern_spec [OF assms(1-6), of scope ctx] assms(7) unfolding add_outcome_def by auto
  then show ?thesis
    using kept_context [of e e' rules] context_address_inj(1) [OF assms(4)] assms(4) by (simp add: engine_ok_def)
qed

theorem contexts_stay_put_witness:
  "\<exists>e' \<sigma>' st e'' \<sigma>'' r. AddPattern id 8 demo_sys (engine_new False :: (u8, nat) engine) (Some [97, 42]) 2 SCOPE_DEFAULT 7 =
       Some (STATUS_SUCCESS, e', \<sigma>') \<and>
     AddPattern id 8 \<sigma>' e' (Some [97, 42]) 2 SCOPE_DEFAULT 9 = Some (st, e'', \<sigma>'') \<and>
     context_address e'' r = context_address e' r \<and> context_at e'' (context_address e' r) = Some 7"
proof -
  let ?r = "next_rule (engine_new False :: (u8, nat) engine) [] [97, 42] SCOPE_DEFAULT 7"
  obtain e' \<sigma>' where a: "AddPattern id 8 demo_sys (engine_new False :: (u8, nat) engine) (Some [97, 42]) 2 SCOPE_DEFAULT 7 =
      Some (STATUS_SUCCESS, e', \<sigma>')" "engine_ok id 8 \<sigma>' e' [?r]" "m_bCaseInsensitive e' = False" "sys_ok \<sigma>'"
    by (rule demo_add)
  have ci: "case_table_ok (id :: u8 \<Rightarrow> u8) (m_bCaseInsensitive e')"
    by (rule demo_case)
  obtain st e'' \<sigma>'' where b: "AddPattern id 8 \<sigma>' e' (Some [97, 42]) 2 SCOPE_DEFAULT 9 = Some (st, e'', \<sigma>'')"
    using AddPattern_spec [OF tchar_ok_8 ci a(4,2) demo_pattern, of SCOPE_DEFAULT 9] by (auto simp: add_outcome_def)
  have "context_address e'' ?r = context_address e' ?r \<and> context_at e'' (context_address e' ?r) = Some 7"
    using contexts_stay_put [OF tchar_ok_8 ci a(4,2) demo_pattern _ b] by (simp add: next_rule_def)
  then show ?thesis
    using a(1) b by blast
qed



text \<open>
  C7: after any requests, the destructor gives back every block the engine took: the pool is what
  it was before the engine was made, with no leak and no double free on any path.
\<close>

theorem destroy_gives_back:
  fixes e :: "('c::len word, 'ctx) engine"
  assumes "tchar_ok TYPE('c)" "case_table_ok up ci" "sys_ok \<sigma>0"
    and "engine_run up csz ls (\<sigma>0, engine_new ci) (\<sigma>, e)"
  shows "\<exists>\<sigma>'. engine_destroy \<sigma> e = Some \<sigma>' \<and> live \<sigma>' = live \<sigma>0 \<and> \<not> bug_check \<sigma>'"
  by (rule run_destroy [OF assms]) blast

theorem destroy_gives_back_witness:
  "\<exists>\<sigma> e \<sigma>'. engine_run id 8 demo_requests (demo_sys, engine_new False) (\<sigma>, e) \<and>
     engine_destroy \<sigma> e = Some \<sigma>' \<and> live \<sigma>' = Map.empty"
proof -
  obtain \<sigma> e where run: "engine_run id 8 demo_requests (demo_sys, engine_new False) (\<sigma>, e)"
    by (rule demo_run)
  from destroy_gives_back [OF tchar_ok_8 demo_case demo_sys_ok(1) this] show ?thesis
    using run by (auto simp: demo_sys_def)
qed



end
